theory Spec2Isabelle
  imports Main
begin

section \<open>The Hungarian algorithm of hungarian.cpp, embedded\<close>

subsection \<open>Machine integers\<close>

text \<open>
  The program computes on \<open>long long\<close>. Values are kept as integers and every
  addition, subtraction and multiplication is reduced to the signed 64-bit range, the way
  the machine wraps around. (C++ leaves signed overflow undefined; the two's complement result
  is what the compiled additions and multiplications give.) Where a theorem below assumes
  \<open>valid_input\<close>, no operation of the run leaves the range and the reduction is the identity.
\<close>

definition LLONG_MAX :: int where
  "LLONG_MAX = 9223372036854775807"

definition ll :: "int \<Rightarrow> int" where
  "ll x = (x + 9223372036854775808) mod 18446744073709551616 - 9223372036854775808"

text \<open>Division of C++ truncates towards zero.\<close>

definition ll_div :: "int \<Rightarrow> int \<Rightarrow> int" where
  "ll_div a b = sgn a * sgn b * (\<bar>a\<bar> div \<bar>b\<bar>)"

subsection \<open>The global variables\<close>

datatype error = IndexOutOfRange

record state =
  N :: nat
  c :: "int list list"
  mate_V :: "int list"
  mate_U :: "int list"
  nhbor :: "int list"
  parent :: "int list"
  alpha :: "int list"
  beta :: "int list"
  slack :: "int list"
  min_col :: "int list"
  label_V :: "bool list"
  label_U :: "bool list"

definition unlabelled_U :: "state \<Rightarrow> nat \<Rightarrow> bool" where
  "unlabelled_U s u = (\<not> label_U s ! u)"

definition unmatched_V :: "state \<Rightarrow> nat \<Rightarrow> bool" where
  "unmatched_V s v = (mate_V s ! v = -1)"

definition unmatched_U :: "state \<Rightarrow> nat \<Rightarrow> bool" where
  "unmatched_U s u = (mate_U s ! u = -1)"

definition admissible_U :: "state \<Rightarrow> nat \<Rightarrow> bool" where
  "admissible_U s u = (slack s ! u = 0)"

text \<open>
  An index that the program takes from one of its own vectors (\<open>nhbor[u]\<close>,
  \<open>mate_U[u]\<close>, \<open>parent[v]\<close>) is a C++ \<open>int\<close> that may be \<open>-1\<close>. Using it as
  a subscript outside \<open>[0, N)\<close> is a fault of the run.
\<close>

definition in_range :: "state \<Rightarrow> int \<Rightarrow> bool" where
  "in_range s i = (0 \<le> i \<and> i < int (N s))"

subsection \<open>augment\<close>

partial_function (option) augment :: "int \<Rightarrow> int \<Rightarrow> state \<Rightarrow> (error + state) option" where
  "augment v exposed_u s =
     (if \<not> in_range s v \<or> \<not> in_range s exposed_u then Some (Inl IndexOutOfRange)
      else
        let aux = mate_V s ! nat v;
            s1 = s\<lparr>mate_V := (mate_V s)[nat v := exposed_u]\<rparr>;
            s2 = s1\<lparr>mate_U := (mate_U s1)[nat exposed_u := v]\<rparr>
        in if parent s2 ! nat v \<noteq> -1 then augment (parent s2 ! nat v) aux s2
           else Some (Inr s2))"

declare augment.simps [code]

subsection \<open>update\_slack\<close>

definition slack_step :: "nat \<Rightarrow> nat \<Rightarrow> state \<Rightarrow> state" where
  "slack_step v u s =
     (if unlabelled_U s u then
        let bound = ll (ll (c s ! v ! u - alpha s ! v) - beta s ! u)
        in if 0 \<le> bound \<and> bound < slack s ! u
           then s\<lparr>slack := (slack s)[u := bound], nhbor := (nhbor s)[u := int v]\<rparr>
           else s
      else s)"

definition update_slack :: "nat \<Rightarrow> state \<Rightarrow> state" where
  "update_slack v s = fold (slack_step v) [0..<N s] s"

subsection \<open>update\_alpha\_beta\<close>

definition min_slack :: "state \<Rightarrow> int" where
  "min_slack s =
     fold (\<lambda>u theta. if unlabelled_U s u then min theta (slack s ! u) else theta)
       [0..<N s] LLONG_MAX"

definition shift_step :: "int \<Rightarrow> nat \<Rightarrow> state \<Rightarrow> state" where
  "shift_step theta i s =
     (let s1 = (if label_V s ! i
                then s\<lparr>alpha := (alpha s)[i := ll (alpha s ! i + theta)]\<rparr>
                else s\<lparr>alpha := (alpha s)[i := ll (alpha s ! i - theta)]\<rparr>)
      in if label_U s1 ! i
         then s1\<lparr>beta := (beta s1)[i := ll (beta s1 ! i - theta)]\<rparr>
         else s1\<lparr>beta := (beta s1)[i := ll (beta s1 ! i + theta)]\<rparr>)"

definition update_alpha_beta :: "state \<Rightarrow> int \<times> state" where
  "update_alpha_beta s =
     (let theta = min_slack s
      in if theta > 0
         then let theta2 = ll_div theta 2
              in (theta2, fold (shift_step theta2) [0..<N s] s)
         else (theta, s))"

subsection \<open>search\_augmenting\_alternating\_path\<close>

text \<open>
  The scan over the columns either leaves the loop with \<open>return u\<close> (\<open>Inl\<close>) or runs
  to its end with the list of admissible matched columns (\<open>Inr\<close>).
\<close>

fun scan_columns :: "int \<Rightarrow> nat list \<Rightarrow> nat list \<Rightarrow> state \<Rightarrow> (nat \<times> state) + (nat list \<times> state)" where
  "scan_columns theta [] admissibles s = Inr (admissibles, s)"
| "scan_columns theta (u # us) admissibles s =
     (if unlabelled_U s u then
        let s1 = s\<lparr>slack := (slack s)[u := ll (slack s ! u - ll (2 * theta))]\<rparr>
        in if admissible_U s1 u then
             (if unmatched_U s1 u then Inl (u, s1)
              else scan_columns theta us (admissibles @ [u]) s1)
           else scan_columns theta us admissibles s1
      else scan_columns theta us admissibles s)"

fun label_admissibles :: "nat list \<Rightarrow> state \<Rightarrow> error + state" where
  "label_admissibles [] s = Inr s"
| "label_admissibles (u # us) s =
     (if \<not> in_range s (mate_U s ! u) then Inl IndexOutOfRange
      else
        let s1 = s\<lparr>label_U := (label_U s)[u := True]\<rparr>;
            s2 = s1\<lparr>label_V := (label_V s1)[nat (mate_U s1 ! u) := True]\<rparr>;
            s3 = s2\<lparr>parent := (parent s2)[nat (mate_U s2 ! u) := nhbor s2 ! u]\<rparr>
        in label_admissibles us (update_slack (nat (mate_U s3 ! u)) s3))"

text \<open>One round of the \<open>while (true)\<close> loop: it returns a column or goes round again.\<close>

datatype round = Found nat state | Again state

definition search_round :: "state \<Rightarrow> error + round" where
  "search_round s =
     (case update_alpha_beta s of (theta, s1) \<Rightarrow>
        (case scan_columns theta [0..<N s1] [] s1 of
           Inl (u, s2) \<Rightarrow> Inr (Found u s2)
         | Inr (admissibles, s2) \<Rightarrow>
             (case label_admissibles admissibles s2 of
                Inl e \<Rightarrow> Inl e
              | Inr s3 \<Rightarrow> Inr (Again s3))))"

text \<open>The first half of a round: the dual update and the scan of the columns.\<close>

definition scan_round :: "state \<Rightarrow> (nat \<times> state) + (nat list \<times> state)" where
  "scan_round s = (case update_alpha_beta s of (theta, s1) \<Rightarrow> scan_columns theta [0..<N s1] [] s1)"

partial_function (option) search_augmenting_alternating_path ::
    "state \<Rightarrow> (error + nat \<times> state) option" where
  "search_augmenting_alternating_path s =
     (case search_round s of
        Inl e \<Rightarrow> Some (Inl e)
      | Inr (Found u s2) \<Rightarrow> Some (Inr (u, s2))
      | Inr (Again s3) \<Rightarrow> search_augmenting_alternating_path s3)"

declare search_augmenting_alternating_path.simps [code]

subsection \<open>The driver\<close>

definition initialize_search :: "state \<Rightarrow> state" where
  "initialize_search s =
     s\<lparr>nhbor := replicate (N s) (-1),
       parent := replicate (N s) (-1),
       slack := replicate (N s) LLONG_MAX,
       label_V := replicate (N s) False,
       label_U := replicate (N s) False\<rparr>"

definition initialize_alpha_beta :: "state \<Rightarrow> state" where
  "initialize_alpha_beta s =
     (let s1 = s\<lparr>mate_V := replicate (N s) (-1),
                 mate_U := replicate (N s) (-1),
                 alpha := replicate (N s) 0,
                 beta := replicate (N s) 0\<rparr>
      in fold (\<lambda>u t. t\<lparr>beta := (beta t)[u := min_col t ! u]\<rparr>) [0..<N s1] s1)"

definition root_step :: "nat \<Rightarrow> state \<Rightarrow> state" where
  "root_step v s =
     (if unmatched_V s v
      then update_slack v (s\<lparr>label_V := (label_V s)[v := True]\<rparr>)
      else s)"

definition label_roots :: "state \<Rightarrow> state" where
  "label_roots s = fold root_step [0..<N s] s"

text \<open>The body of the \<open>for\<close> loop of \<open>hungarian_algorithm\<close>: one phase.\<close>

definition phase :: "state \<Rightarrow> (error + state) option" where
  "phase s =
     (case search_augmenting_alternating_path (label_roots (initialize_search s)) of
        None \<Rightarrow> None
      | Some (Inl e) \<Rightarrow> Some (Inl e)
      | Some (Inr (u, s1)) \<Rightarrow> augment (nhbor s1 ! u) (int u) s1)"

fun phases :: "nat \<Rightarrow> state \<Rightarrow> (error + state) option" where
  "phases 0 s = Some (Inr s)"
| "phases (Suc i) s =
     (case phases i s of
        None \<Rightarrow> None
      | Some (Inl e) \<Rightarrow> Some (Inl e)
      | Some (Inr s1) \<Rightarrow> phase s1)"

definition hungarian_algorithm :: "state \<Rightarrow> (error + state) option" where
  "hungarian_algorithm s = phases (N s) (initialize_alpha_beta s)"

subsection \<open>Input and output\<close>

definition read_cell :: "int list list \<Rightarrow> nat \<Rightarrow> nat \<Rightarrow> state \<Rightarrow> state" where
  "read_cell inp v u s =
     (let s1 = s\<lparr>c := (c s)[v := (c s ! v)[u := inp ! v ! u]]\<rparr>;
          s2 = s1\<lparr>c := (c s1)[v := (c s1 ! v)[u := ll (c s1 ! v ! u * 2)]]\<rparr>
      in s2\<lparr>min_col := (min_col s2)[u := min (min_col s2 ! u) (c s2 ! v ! u)]\<rparr>)"

definition empty_state :: state where
  "empty_state =
     \<lparr>N = 0, c = [], mate_V = [], mate_U = [], nhbor = [], parent = [], alpha = [],
      beta = [], slack = [], min_col = [], label_V = [], label_U = []\<rparr>"

definition read_input :: "nat \<Rightarrow> int list list \<Rightarrow> state" where
  "read_input n inp =
     (let s = empty_state\<lparr>N := n, c := replicate n (replicate n 0),
                          min_col := replicate n LLONG_MAX\<rparr>
      in fold (\<lambda>v. fold (read_cell inp v) [0..<n]) [0..<n] s)"

definition opt_cost :: "state \<Rightarrow> int" where
  "opt_cost s = fold (\<lambda>i acc. ll (acc + ll (alpha s ! i + beta s ! i))) [0..<N s] 0"

text \<open>\<open>main\<close> without the option: the cost is printed.\<close>

definition main_cost :: "nat \<Rightarrow> int list list \<Rightarrow> (error + int) option" where
  "main_cost n inp =
     (case hungarian_algorithm (read_input n inp) of
        None \<Rightarrow> None
      | Some (Inl e) \<Rightarrow> Some (Inl e)
      | Some (Inr s) \<Rightarrow> Some (Inr (ll_div (opt_cost s) 2)))"

text \<open>\<open>main\<close> with \<open>-m\<close> or \<open>--match\<close>: the column of every row is printed.\<close>

definition main_match :: "nat \<Rightarrow> int list list \<Rightarrow> (error + int list) option" where
  "main_match n inp =
     (case hungarian_algorithm (read_input n inp) of
        None \<Rightarrow> None
      | Some (Inl e) \<Rightarrow> Some (Inl e)
      | Some (Inr s) \<Rightarrow> Some (Inr (map (\<lambda>v. mate_V s ! v) [0..<N s])))"


subsection \<open>The formulation of part\_002\<close>

text \<open>
  The second formulation has the same \<open>augment\<close>, \<open>update_slack\<close>,
  \<open>update_alpha_beta\<close>, \<open>initialize_search\<close>, \<open>initialize_alpha_beta\<close> and
  \<open>read_input\<close>, word for word. Its \<open>search\<close> calls \<open>augment\<close> itself, where the
  scan leaves the loop, and returns nothing.
\<close>

partial_function (option) search_p2 :: "state \<Rightarrow> (error + state) option" where
  "search_p2 s =
     (case update_alpha_beta s of (theta, s1) \<Rightarrow>
        (case scan_columns theta [0..<N s1] [] s1 of
           Inl (u, s2) \<Rightarrow> augment (nhbor s2 ! u) (int u) s2
         | Inr (admissibles, s2) \<Rightarrow>
             (case label_admissibles admissibles s2 of
                Inl e \<Rightarrow> Some (Inl e)
              | Inr s3 \<Rightarrow> search_p2 s3)))"

declare search_p2.simps [code]

definition phase_p2 :: "state \<Rightarrow> (error + state) option" where
  "phase_p2 s = search_p2 (label_roots (initialize_search s))"

fun phases_p2 :: "nat \<Rightarrow> state \<Rightarrow> (error + state) option" where
  "phases_p2 0 s = Some (Inr s)"
| "phases_p2 (Suc i) s =
     (case phases_p2 i s of
        None \<Rightarrow> None
      | Some (Inl e) \<Rightarrow> Some (Inl e)
      | Some (Inr s1) \<Rightarrow> phase_p2 s1)"

definition hungarian_algorithm_p2 :: "state \<Rightarrow> (error + state) option" where
  "hungarian_algorithm_p2 s = phases_p2 (N s) (initialize_alpha_beta s)"

definition main_cost_p2 :: "nat \<Rightarrow> int list list \<Rightarrow> (error + int) option" where
  "main_cost_p2 n inp =
     (case hungarian_algorithm_p2 (read_input n inp) of
        None \<Rightarrow> None
      | Some (Inl e) \<Rightarrow> Some (Inl e)
      | Some (Inr s) \<Rightarrow> Some (Inr (ll_div (opt_cost s) 2)))"

subsection \<open>The formulation of part\_001\<close>

text \<open>
  The first formulation has no \<open>update_alpha_beta\<close>: its \<open>search\<close> computes theta
  in place, halves it before the test \<open>theta > 0\<close>, and runs a \<open>for\<close> loop of \<open>N\<close>
  rounds instead of \<open>while (true)\<close>.
\<close>

definition shift_p1 :: "state \<Rightarrow> int \<times> state" where
  "shift_p1 s =
     (let theta = ll_div (min_slack s) 2
      in if theta > 0 then (theta, fold (shift_step theta) [0..<N s] s) else (theta, s))"

fun label_admissibles_p1 :: "nat list \<Rightarrow> state \<Rightarrow> error + state" where
  "label_admissibles_p1 [] s = Inr s"
| "label_admissibles_p1 (u # us) s =
     (if \<not> in_range s (mate_U s ! u) then Inl IndexOutOfRange
      else
        let s1 = s\<lparr>label_V := (label_V s)[nat (mate_U s ! u) := True]\<rparr>;
            s2 = s1\<lparr>label_U := (label_U s1)[u := True]\<rparr>;
            s3 = s2\<lparr>parent := (parent s2)[nat (mate_U s2 ! u) := nhbor s2 ! u]\<rparr>
        in label_admissibles_p1 us (update_slack (nat (mate_U s3 ! u)) s3))"

text \<open>
  The counter is the number of rounds left. The flag of the result says how the function
  was left: \<open>True\<close> by the \<open>return\<close> after \<open>augment\<close>, \<open>False\<close> by the end of the loop.
\<close>

fun search_loop_p1 :: "nat \<Rightarrow> state \<Rightarrow> (error + bool \<times> state) option" where
  "search_loop_p1 0 s = Some (Inr (False, s))"
| "search_loop_p1 (Suc i) s =
     (case shift_p1 s of (theta, s1) \<Rightarrow>
        (case scan_columns theta [0..<N s1] [] s1 of
           Inl (u, s2) \<Rightarrow>
             (case augment (nhbor s2 ! u) (int u) s2 of
                None \<Rightarrow> None
              | Some (Inl e) \<Rightarrow> Some (Inl e)
              | Some (Inr s3) \<Rightarrow> Some (Inr (True, s3)))
         | Inr (admissibles, s2) \<Rightarrow>
             (case label_admissibles_p1 admissibles s2 of
                Inl e \<Rightarrow> Some (Inl e)
              | Inr s3 \<Rightarrow> search_loop_p1 i s3)))"

definition search_p1 :: "state \<Rightarrow> (error + bool \<times> state) option" where
  "search_p1 s = search_loop_p1 (N s) s"

definition phase_p1 :: "state \<Rightarrow> (error + state) option" where
  "phase_p1 s =
     (case search_p1 (label_roots (initialize_search s)) of
        None \<Rightarrow> None
      | Some (Inl e) \<Rightarrow> Some (Inl e)
      | Some (Inr (returned, s1)) \<Rightarrow> Some (Inr s1))"

fun phases_p1 :: "nat \<Rightarrow> state \<Rightarrow> (error + state) option" where
  "phases_p1 0 s = Some (Inr s)"
| "phases_p1 (Suc i) s =
     (case phases_p1 i s of
        None \<Rightarrow> None
      | Some (Inl e) \<Rightarrow> Some (Inl e)
      | Some (Inr s1) \<Rightarrow> phase_p1 s1)"

fun min_cost_p1 :: "nat list \<Rightarrow> int \<Rightarrow> state \<Rightarrow> error + int" where
  "min_cost_p1 [] acc s = Inr acc"
| "min_cost_p1 (v # vs) acc s =
     (if \<not> in_range s (mate_V s ! v) then Inl IndexOutOfRange
      else min_cost_p1 vs (ll (acc + c s ! v ! nat (mate_V s ! v))) s)"

definition main_p1 :: "nat \<Rightarrow> int list list \<Rightarrow> (error + int) option" where
  "main_p1 n inp =
     (case phases_p1 n (initialize_alpha_beta (read_input n inp)) of
        None \<Rightarrow> None
      | Some (Inl e) \<Rightarrow> Some (Inl e)
      | Some (Inr s) \<Rightarrow>
          (case min_cost_p1 [0..<N s] 0 s of
             Inl e \<Rightarrow> Some (Inl e)
           | Inr min_cost \<Rightarrow> Some (Inr (ll_div min_cost 2))))"

subsection \<open>Inputs and the assignment problem\<close>

text \<open>
  An input is an \<open>n \<times> n\<close> matrix of non-negative integers that are small enough for the
  64-bit arithmetic of the program: \<open>4 (n + 1) x\<close> does not exceed \<open>LLONG_MAX\<close>.
\<close>

definition valid_input :: "nat \<Rightarrow> int list list \<Rightarrow> bool" where
  "valid_input n inp \<longleftrightarrow>
     length inp = n \<and>
     (\<forall>row \<in> set inp. length row = n \<and>
        (\<forall>x \<in> set row. 0 \<le> x \<and> 4 * (int n + 1) * x \<le> LLONG_MAX))"

definition is_assignment :: "nat \<Rightarrow> (nat \<Rightarrow> nat) \<Rightarrow> bool" where
  "is_assignment n sigma \<longleftrightarrow> bij_betw sigma {..<n} {..<n}"

definition assignment_cost :: "nat \<Rightarrow> int list list \<Rightarrow> (nat \<Rightarrow> nat) \<Rightarrow> int" where
  "assignment_cost n inp sigma = (\<Sum>v<n. inp ! v ! sigma v)"

definition optimal_cost :: "nat \<Rightarrow> int list list \<Rightarrow> int \<Rightarrow> bool" where
  "optimal_cost n inp x \<longleftrightarrow>
     (\<exists>sigma. is_assignment n sigma \<and> assignment_cost n inp sigma = x) \<and>
     (\<forall>sigma. is_assignment n sigma \<longrightarrow> x \<le> assignment_cost n inp sigma)"

subsection \<open>States of a run\<close>

definition start_state :: "nat \<Rightarrow> int list list \<Rightarrow> state" where
  "start_state n inp = initialize_alpha_beta (read_input n inp)"

text \<open>The states in which a run stands at the head of the \<open>while\<close> loop of the search.\<close>

inductive search_state :: "nat \<Rightarrow> int list list \<Rightarrow> state \<Rightarrow> bool" for n inp where
  first_round: "i < n \<Longrightarrow> phases i (start_state n inp) = Some (Inr s) \<Longrightarrow>
     search_state n inp (label_roots (initialize_search s))"
| next_round: "search_state n inp s \<Longrightarrow> search_round s = Inr (Again s') \<Longrightarrow>
     search_state n inp s'"

text \<open>The search cut off after a number of rounds.\<close>

fun search_within :: "nat \<Rightarrow> state \<Rightarrow> (error + nat \<times> state) option" where
  "search_within 0 s = None"
| "search_within (Suc k) s =
     (case search_round s of
        Inl e \<Rightarrow> Some (Inl e)
      | Inr (Found u s2) \<Rightarrow> Some (Inr (u, s2))
      | Inr (Again s3) \<Rightarrow> search_within k s3)"

text \<open>Row \<open>v\<close> reaches a row without parent in \<open>k\<close> steps along the parent pointers.\<close>

inductive reaches_root :: "state \<Rightarrow> int \<Rightarrow> nat \<Rightarrow> bool" for s where
  root: "in_range s v \<Longrightarrow> parent s ! nat v = -1 \<Longrightarrow> reaches_root s v 0"
| step: "in_range s v \<Longrightarrow> parent s ! nat v \<noteq> -1 \<Longrightarrow> reaches_root s (parent s ! nat v) k \<Longrightarrow>
     reaches_root s v (Suc k)"

subsection \<open>Invariants\<close>

definition rc :: "state \<Rightarrow> nat \<Rightarrow> nat \<Rightarrow> int" where
  "rc s v u = c s ! v ! u - alpha s ! v - beta s ! u"

definition dims :: "state \<Rightarrow> bool" where
  "dims s \<longleftrightarrow> length (c s) = N s \<and> (\<forall>v<N s. length (c s ! v) = N s) \<and>
     length (mate_V s) = N s \<and> length (mate_U s) = N s \<and>
     length (alpha s) = N s \<and> length (beta s) = N s"

definition dims_search :: "state \<Rightarrow> bool" where
  "dims_search s \<longleftrightarrow> length (nhbor s) = N s \<and> length (parent s) = N s \<and>
     length (slack s) = N s \<and> length (label_V s) = N s \<and> length (label_U s) = N s"

definition costs_ok :: "int \<Rightarrow> state \<Rightarrow> bool" where
  "costs_ok B s \<longleftrightarrow>
     (\<forall>v<N s. \<forall>u<N s. 0 \<le> c s ! v ! u \<and> c s ! v ! u \<le> B \<and> even (c s ! v ! u))"

definition feasible :: "state \<Rightarrow> bool" where
  "feasible s \<longleftrightarrow> (\<forall>v<N s. \<forall>u<N s. alpha s ! v + beta s ! u \<le> c s ! v ! u)"

definition duals_even :: "state \<Rightarrow> bool" where
  "duals_even s \<longleftrightarrow> (\<forall>v<N s. \<forall>u<N s. even (alpha s ! v + beta s ! u))"

definition duals_bounded :: "int \<Rightarrow> state \<Rightarrow> bool" where
  "duals_bounded B s \<longleftrightarrow>
     (\<forall>i<N s. - B \<le> alpha s ! i \<and> alpha s ! i \<le> B \<and> - B \<le> beta s ! i \<and> beta s ! i \<le> B)"

definition matching :: "state \<Rightarrow> bool" where
  "matching s \<longleftrightarrow>
     (\<forall>v<N s. mate_V s ! v \<noteq> -1 \<longrightarrow>
        in_range s (mate_V s ! v) \<and> mate_U s ! nat (mate_V s ! v) = int v) \<and>
     (\<forall>u<N s. mate_U s ! u \<noteq> -1 \<longrightarrow>
        in_range s (mate_U s ! u) \<and> mate_V s ! nat (mate_U s ! u) = int u)"

definition tight :: "state \<Rightarrow> bool" where
  "tight s \<longleftrightarrow>
     (\<forall>v<N s. mate_V s ! v \<noteq> -1 \<longrightarrow>
        alpha s ! v + beta s ! nat (mate_V s ! v) = c s ! v ! nat (mate_V s ! v))"

definition free_nonneg :: "state \<Rightarrow> bool" where
  "free_nonneg s \<longleftrightarrow>
     (\<forall>v<N s. mate_V s ! v = -1 \<longrightarrow> 0 \<le> alpha s ! v) \<and>
     (\<forall>u<N s. mate_U s ! u = -1 \<longrightarrow> 0 \<le> beta s ! u)"

definition base_inv :: "int \<Rightarrow> state \<Rightarrow> bool" where
  "base_inv B s \<longleftrightarrow> 0 \<le> B \<and> 3 * B < LLONG_MAX \<and> dims s \<and> costs_ok B s \<and> feasible s \<and>
     duals_even s \<and> duals_bounded B s \<and> matching s \<and> tight s \<and> free_nonneg s"

definition free_rows :: "state \<Rightarrow> nat set" where
  "free_rows s = {v. v < N s \<and> mate_V s ! v = -1}"

definition phase_inv :: "int \<Rightarrow> nat \<Rightarrow> state \<Rightarrow> bool" where
  "phase_inv B k s \<longleftrightarrow> base_inv B s \<and> k \<le> N s \<and> card (free_rows s) = N s - k"

definition labels_ok :: "state \<Rightarrow> bool" where
  "labels_ok s \<longleftrightarrow>
     (\<forall>u<N s. label_U s ! u \<longrightarrow> mate_U s ! u \<noteq> -1) \<and>
     (\<forall>v<N s. label_V s ! v \<longleftrightarrow> (mate_V s ! v = -1 \<or> label_U s ! nat (mate_V s ! v)))"

definition slack_ok :: "state \<Rightarrow> bool" where
  "slack_ok s \<longleftrightarrow>
     (\<forall>u<N s. \<not> label_U s ! u \<longrightarrow>
        in_range s (nhbor s ! u) \<and> label_V s ! nat (nhbor s ! u) \<and>
        slack s ! u = rc s (nat (nhbor s ! u)) u \<and>
        (\<forall>v<N s. label_V s ! v \<longrightarrow> slack s ! u \<le> rc s v u))"

text \<open>The matched columns that are not yet labelled: the search labels one more each round.\<close>

definition todo :: "state \<Rightarrow> nat set" where
  "todo s = {u. u < N s \<and> \<not> label_U s ! u \<and> mate_U s ! u \<noteq> -1}"

definition matched_cols :: "state \<Rightarrow> nat set" where
  "matched_cols s = {u. u < N s \<and> mate_U s ! u \<noteq> -1}"

definition tree_row :: "(nat \<Rightarrow> nat) \<Rightarrow> state \<Rightarrow> nat \<Rightarrow> bool" where
  "tree_row rank s v \<longleftrightarrow>
     (if mate_V s ! v = -1 then parent s ! v = -1
      else in_range s (parent s ! v) \<and> label_V s ! nat (parent s ! v) \<and>
           rank (nat (parent s ! v)) < rank v \<and>
           rc s (nat (parent s ! v)) (nat (mate_V s ! v)) = 0)"

definition tree_ok :: "(nat \<Rightarrow> nat) \<Rightarrow> state \<Rightarrow> bool" where
  "tree_ok rank s \<longleftrightarrow>
     (\<forall>v<N s. label_V s ! v \<longrightarrow>
        tree_row rank s v \<and> rank v + card (todo s) \<le> card (matched_cols s))"

definition search_inv :: "int \<Rightarrow> state \<Rightarrow> bool" where
  "search_inv B s \<longleftrightarrow> base_inv B s \<and> dims_search s \<and> labels_ok s \<and> slack_ok s \<and>
     (\<exists>rank. tree_ok rank s) \<and> (\<exists>v<N s. mate_V s ! v = -1)"

subsection \<open>Auxiliary notions of the proofs\<close>

text \<open>The value \<open>bound\<close> that \<open>update_slack(v)\<close> computes for column \<open>u\<close>.\<close>

definition bound_of :: "state \<Rightarrow> nat \<Rightarrow> nat \<Rightarrow> int" where
  "bound_of s v u = ll (ll (c s ! v ! u - alpha s ! v) - beta s ! u)"

text \<open>The test under which \<open>update_slack(v)\<close> overwrites \<open>slack[u]\<close> and \<open>nhbor[u]\<close>.\<close>

definition slack_hit :: "state \<Rightarrow> nat \<Rightarrow> nat \<Rightarrow> bool" where
  "slack_hit s v u = (\<not> label_U s ! u \<and> 0 \<le> bound_of s v u \<and> bound_of s v u < slack s ! u)"

text \<open>State \<open>s1\<close> is \<open>s\<close> after the shift of the duals by \<open>theta\<close>, computed without wrap-around.\<close>

definition shifted :: "int \<Rightarrow> state \<Rightarrow> state \<Rightarrow> bool" where
  "shifted theta s s1 \<longleftrightarrow> s1 = s\<lparr>alpha := alpha s1, beta := beta s1\<rparr> \<and>
     length (alpha s1) = N s \<and> length (beta s1) = N s \<and>
     (\<forall>i<N s. alpha s1 ! i = (if label_V s ! i then alpha s ! i + theta else alpha s ! i - theta) \<and>
              beta s1 ! i = (if label_U s ! i then beta s ! i - theta else beta s ! i + theta))"

text \<open>The slack invariant between the dual update and the decrement of the slacks.\<close>

definition slack_pending :: "int \<Rightarrow> state \<Rightarrow> bool" where
  "slack_pending theta s \<longleftrightarrow>
     (\<forall>u<N s. \<not> label_U s ! u \<longrightarrow>
        in_range s (nhbor s ! u) \<and> label_V s ! nat (nhbor s ! u) \<and>
        slack s ! u - 2 * theta = rc s (nat (nhbor s ! u)) u \<and>
        (\<forall>v<N s. label_V s ! v \<longrightarrow> slack s ! u - 2 * theta \<le> rc s v u))"

text \<open>The body of the loop over the admissible matched columns.\<close>

definition label_step :: "nat \<Rightarrow> state \<Rightarrow> state" where
  "label_step u s =
     update_slack (nat (mate_U s ! u))
       (s\<lparr>label_U := (label_U s)[u := True],
          label_V := (label_V s)[nat (mate_U s ! u) := True],
          parent := (parent s)[nat (mate_U s ! u) := nhbor s ! u]\<rparr>)"

text \<open>The search changes neither the size, nor the costs, nor the matching.\<close>

definition same_problem :: "state \<Rightarrow> state \<Rightarrow> bool" where
  "same_problem s s' \<longleftrightarrow> N s' = N s \<and> c s' = c s \<and> mate_V s' = mate_V s \<and> mate_U s' = mate_U s"

text \<open>What holds of the state and the column that the scan returns.\<close>

definition found_inv :: "int \<Rightarrow> nat \<Rightarrow> state \<Rightarrow> bool" where
  "found_inv B u s \<longleftrightarrow> base_inv B s \<and> dims_search s \<and> labels_ok s \<and> (\<exists>rank. tree_ok rank s) \<and>
     u < N s \<and> mate_U s ! u = -1 \<and> \<not> label_U s ! u \<and> slack s ! u = 0 \<and>
     in_range s (nhbor s ! u) \<and> label_V s ! nat (nhbor s ! u) \<and>
     rc s (nat (nhbor s ! u)) u = 0 \<and>
     (\<forall>j<N s. \<not> label_U s ! j \<longrightarrow>
        0 \<le> slack s ! j \<and> in_range s (nhbor s ! j) \<and> label_V s ! nat (nhbor s ! j))"

text \<open>What holds when \<open>augment(v, e)\<close> is entered: the matching is symmetric except at the
  exposed column \<open>e\<close>, which no row points to, the edge from \<open>v\<close> to \<open>e\<close> is tight, and the
  rows of rank at most that of \<open>v\<close> still have the mates they had in the tree.\<close>

definition aug_pre :: "(nat \<Rightarrow> nat) \<Rightarrow> nat \<Rightarrow> nat \<Rightarrow> state \<Rightarrow> bool" where
  "aug_pre rank v e s \<longleftrightarrow> dims s \<and> length (parent s) = N s \<and> length (label_V s) = N s \<and>
     v < N s \<and> e < N s \<and> label_V s ! v \<and>
     (\<forall>r<N s. mate_V s ! r \<noteq> -1 \<longrightarrow>
        in_range s (mate_V s ! r) \<and> mate_U s ! nat (mate_V s ! r) = int r) \<and>
     (\<forall>u<N s. u \<noteq> e \<longrightarrow> mate_U s ! u \<noteq> -1 \<longrightarrow>
        in_range s (mate_U s ! u) \<and> mate_V s ! nat (mate_U s ! u) = int u) \<and>
     (\<forall>r<N s. mate_V s ! r \<noteq> int e) \<and>
     tight s \<and> rc s v e = 0 \<and>
     (\<forall>r<N s. label_V s ! r \<longrightarrow> rank r \<le> rank v \<longrightarrow> tree_row rank s r)"

text \<open>What \<open>augment\<close> leaves: a symmetric, tight matching with one free row less.\<close>

definition aug_post :: "state \<Rightarrow> state \<Rightarrow> bool" where
  "aug_post s s' \<longleftrightarrow> s' = s\<lparr>mate_V := mate_V s', mate_U := mate_U s'\<rparr> \<and>
     length (mate_V s') = N s \<and> length (mate_U s') = N s \<and>
     matching s' \<and> tight s' \<and> card (free_rows s') + 1 = card (free_rows s) \<and>
     (\<forall>r<N s. mate_V s' ! r = -1 \<longrightarrow> mate_V s ! r = -1) \<and>
     (\<forall>u<N s. mate_U s' ! u = -1 \<longrightarrow> mate_U s ! u = -1)"

text \<open>The invariant of the loop that labels the unmatched rows, after rows \<open>0..i-1\<close>.\<close>

definition roots_inv :: "state \<Rightarrow> nat \<Rightarrow> state \<Rightarrow> bool" where
  "roots_inv s i t \<longleftrightarrow> N t = N s \<and> c t = c s \<and> alpha t = alpha s \<and> beta t = beta s \<and>
     mate_V t = mate_V s \<and> mate_U t = mate_U s \<and>
     label_U t = replicate (N s) False \<and> parent t = replicate (N s) (-1) \<and>
     length (nhbor t) = N s \<and> length (slack t) = N s \<and> length (label_V t) = N s \<and>
     (\<forall>v<N s. label_V t ! v \<longleftrightarrow> v < i \<and> mate_V s ! v = -1) \<and>
     (\<forall>u<N s. (\<forall>v<N s. label_V t ! v \<longrightarrow> slack t ! u \<le> rc s v u) \<and>
        ((nhbor t ! u = -1 \<and> slack t ! u = LLONG_MAX) \<or>
         (0 \<le> nhbor t ! u \<and> nat (nhbor t ! u) < N s \<and> label_V t ! nat (nhbor t ! u) \<and>
          slack t ! u = rc s (nat (nhbor t ! u)) u)))"

text \<open>The invariant of \<open>read_input\<close> after the cells before \<open>(v, u)\<close> in row-major order.\<close>

definition input_inv :: "nat \<Rightarrow> int list list \<Rightarrow> nat \<Rightarrow> nat \<Rightarrow> state \<Rightarrow> bool" where
  "input_inv n inp v u t \<longleftrightarrow> N t = n \<and> length (c t) = n \<and> (\<forall>r<n. length (c t ! r) = n) \<and>
     length (min_col t) = n \<and>
     (\<forall>r<n. \<forall>j<n. (r < v \<or> r = v \<and> j < u) \<longrightarrow> c t ! r ! j = 2 * inp ! r ! j) \<and>
     (\<forall>j<n. (\<forall>r<n. (r < v \<or> r = v \<and> j < u) \<longrightarrow> min_col t ! j \<le> 2 * inp ! r ! j) \<and>
        (min_col t ! j = LLONG_MAX \<or>
         (\<exists>r<n. (r < v \<or> r = v \<and> j < u) \<and> min_col t ! j = 2 * inp ! r ! j)))"

text \<open>A bound on the doubled costs of a valid input that leaves room for every operation of the run.\<close>

definition cost_bound :: "nat \<Rightarrow> int" where
  "cost_bound n = (if n = 0 then 0 else 2 * (LLONG_MAX div (4 * (int n + 1))))"

text \<open>The matching is a bijection between rows and columns.\<close>

definition perfect_matching :: "state \<Rightarrow> bool" where
  "perfect_matching s \<longleftrightarrow> length (mate_V s) = N s \<and> length (mate_U s) = N s \<and>
     (\<forall>v<N s. in_range s (mate_V s ! v)) \<and> distinct (mate_V s) \<and>
     (\<forall>u<N s. in_range s (mate_U s ! u)) \<and> distinct (mate_U s) \<and>
     (\<forall>v<N s. \<forall>u<N s. mate_V s ! v = int u \<longleftrightarrow> mate_U s ! u = int v)"

text \<open>A matrix of non-negative costs whose doubling overflows 64 bits.\<close>

definition overflow_input :: "int list list" where
  "overflow_input =
     [[4611686018427387904, 4611686018427387904], [4611686018427387903, 4611686018427387903]]"

text \<open>The state of the run on \<open>overflow_input\<close> after its first phase.\<close>

definition overflow_phase1 :: state where
  "overflow_phase1 =
     \<lparr>N = 2,
      c = [[- 9223372036854775808, - 9223372036854775808],
           [9223372036854775806, 9223372036854775806]],
      mate_V = [0, - 1], mate_U = [0, - 1], nhbor = [0, 0], parent = [- 1, - 1],
      alpha = [0, 0], beta = [- 9223372036854775808, - 9223372036854775808],
      slack = [0, 0], min_col = [- 9223372036854775808, - 9223372036854775808],
      label_V = [True, True], label_U = [False, False]\<rparr>"

text \<open>The state in which the search of the second phase stays for ever: the least slack is 1, its half is 0.\<close>

definition overflow_stuck :: state where
  "overflow_stuck =
     \<lparr>N = 2,
      c = [[- 9223372036854775808, - 9223372036854775808],
           [9223372036854775806, 9223372036854775806]],
      mate_V = [0, - 1], mate_U = [0, - 1], nhbor = [- 1, - 1], parent = [- 1, - 1],
      alpha = [- 4611686018427387903, 4611686018427387903],
      beta = [- 4611686018427387905, - 4611686018427387905],
      slack = [1, 1], min_col = [- 9223372036854775808, - 9223372036854775808],
      label_V = [False, True], label_U = [False, False]\<rparr>"

text \<open>The column \<open>u\<close> either has never been given a neighbour, and then its slack is odd,
  or its neighbour is a labelled row.\<close>

definition nh_ok :: "state \<Rightarrow> bool" where
  "nh_ok s \<longleftrightarrow>
     (\<forall>u<N s. (nhbor s ! u = -1 \<and> odd (slack s ! u)) \<or>
        (in_range s (nhbor s ! u) \<and> label_V s ! nat (nhbor s ! u)))"

text \<open>The parent pointers of the labelled rows, without the costs.\<close>

definition tree_sk :: "(nat \<Rightarrow> nat) \<Rightarrow> state \<Rightarrow> bool" where
  "tree_sk rank s \<longleftrightarrow>
     (\<forall>v<N s. label_V s ! v \<longrightarrow>
        (if mate_V s ! v = -1 then parent s ! v = -1
         else in_range s (parent s ! v) \<and> label_V s ! nat (parent s ! v) \<and>
              rank (nat (parent s ! v)) < rank v) \<and>
        rank v + card (todo s) \<le> card (matched_cols s))"

text \<open>The part of the invariant of the search that no arithmetic can break.\<close>

definition struct_inv :: "state \<Rightarrow> bool" where
  "struct_inv s \<longleftrightarrow> length (mate_V s) = N s \<and> length (mate_U s) = N s \<and>
     length (alpha s) = N s \<and> length (beta s) = N s \<and> dims_search s \<and>
     matching s \<and> labels_ok s \<and> nh_ok s \<and> (\<exists>rank. tree_sk rank s)"

text \<open>Column \<open>u\<close> is unlabelled and matched, and its neighbour is a labelled row.\<close>

definition ready :: "state \<Rightarrow> nat \<Rightarrow> bool" where
  "ready s u \<longleftrightarrow> u < N s \<and> \<not> label_U s ! u \<and> mate_U s ! u \<noteq> -1 \<and>
     in_range s (nhbor s ! u) \<and> label_V s ! nat (nhbor s ! u)"

text \<open>What holds, on every input, of the state and the column that the scan returns.\<close>

definition found_sk :: "nat \<Rightarrow> state \<Rightarrow> bool" where
  "found_sk u s \<longleftrightarrow> struct_inv s \<and> u < N s \<and> mate_U s ! u = -1 \<and> \<not> label_U s ! u \<and>
     slack s ! u = 0 \<and> in_range s (nhbor s ! u) \<and> label_V s ! nat (nhbor s ! u)"

text \<open>The matching is symmetric and the vectors of the driver have their lengths.\<close>

definition base_sk :: "state \<Rightarrow> bool" where
  "base_sk s \<longleftrightarrow> length (mate_V s) = N s \<and> length (mate_U s) = N s \<and>
     length (alpha s) = N s \<and> length (beta s) = N s \<and> matching s"

text \<open>The state with all costs and duals set to zero: \<open>augment\<close> does not read them.\<close>

definition no_costs :: "state \<Rightarrow> state" where
  "no_costs s = s\<lparr>c := replicate (N s) (replicate (N s) 0),
     alpha := replicate (N s) 0, beta := replicate (N s) 0\<rparr>"

text \<open>A matrix of non-negative costs with an assignment of cost 0, on which the program prints 1.\<close>

definition overflow_input3 :: "int list list" where
  "overflow_input3 =
     [[0, 4611686018427387904, 0],
      [4611686018427387905, 0, 4611686018427387905],
      [0, 4611686018427387905, 0]]"

text \<open>The state in which the run on \<open>overflow_input3\<close> ends.\<close>

definition overflow_final3 :: state where
  "overflow_final3 =
     \<lparr>N = 3,
      c = [[0, - 9223372036854775808, 0],
           [- 9223372036854775806, 0, - 9223372036854775806],
           [0, - 9223372036854775806, 0]],
      mate_V = [1, 0, 2], mate_U = [1, 0, 2], nhbor = [2, 2, 2], parent = [2, - 1, - 1],
      alpha = [4611686018427387901, - 4611686018427387903, 4611686018427387903],
      beta = [- 4611686018427387903, 4611686018427387907, - 4611686018427387903],
      slack = [0, 0, 0],
      min_col = [- 9223372036854775806, - 9223372036854775808, - 9223372036854775806],
      label_V = [True, False, True], label_U = [False, True, False]\<rparr>"

text \<open>The state in which the run on the \<open>1 \<times> 1\<close> matrix with the cost \<open>2^62\<close> ends.\<close>

definition overflow_final1 :: state where
  "overflow_final1 =
     \<lparr>N = 1, c = [[- 9223372036854775808]], mate_V = [0], mate_U = [0], nhbor = [0],
      parent = [- 1], alpha = [0], beta = [- 9223372036854775808], slack = [0],
      min_col = [- 9223372036854775808], label_V = [True], label_U = [False]\<rparr>"

section \<open>Lemmas\<close>

subsection \<open>Loops in closed form\<close>

lemma ll_id: "- 9223372036854775808 \<le> x \<Longrightarrow> x < 9223372036854775808 \<Longrightarrow> ll x = x"
  unfolding ll_def by simp

lemma ll_div_2: "0 \<le> x \<Longrightarrow> ll_div x 2 = x div 2"
  unfolding ll_div_def by (cases "x = 0") (simp_all add: sgn_if)

lemma fold_upt_rule:
  assumes "P 0 s" and "\<And>i t. i < n \<Longrightarrow> P i t \<Longrightarrow> P (Suc i) (f i t)"
  shows "P n (fold f [0..<n] s)"
proof -
  have "k \<le> n \<Longrightarrow> P k (fold f [0..<k] s)" for k
    by (induction k) (use assms in auto)
  thus ?thesis by simp
qed

lemma map_upd_step:
  "n < m \<Longrightarrow> (map (\<lambda>i. if i < n then g i else h i) [0..<m])[n := g n]
     = map (\<lambda>i. if i < Suc n then g i else h i) [0..<m]"
  by (rule nth_equalityI) (auto simp: nth_list_update less_Suc_eq)

lemma map_upd_skip:
  "n < m \<Longrightarrow> g n = h n \<Longrightarrow> map (\<lambda>i. if i < n then g i else h i) [0..<m]
     = map (\<lambda>i. if i < Suc n then g i else h i) [0..<m]"
  by (rule nth_equalityI) (auto simp: less_Suc_eq)

lemma update_slack_closed:
  assumes "length (slack s) = N s" "length (nhbor s) = N s"
  shows "update_slack v s =
     s\<lparr>slack := map (\<lambda>u. if slack_hit s v u then bound_of s v u else slack s ! u) [0..<N s],
       nhbor := map (\<lambda>u. if slack_hit s v u then int v else nhbor s ! u) [0..<N s]\<rparr>"
proof -
  define X where "X i = map (\<lambda>u. if u < i \<and> slack_hit s v u then bound_of s v u else slack s ! u) [0..<N s]" for i
  define Y where "Y i = map (\<lambda>u. if u < i \<and> slack_hit s v u then int v else nhbor s ! u) [0..<N s]" for i
  let ?P = "\<lambda>i t. t = s\<lparr>slack := X i, nhbor := Y i\<rparr>"
  have X0: "X 0 = slack s" and Y0: "Y 0 = nhbor s"
    using assms by (auto simp: X_def Y_def intro: nth_equalityI)
  have Xhit: "(X i)[i := bound_of s v i] = X (Suc i)" and Yhit: "(Y i)[i := int v] = Y (Suc i)"
    if "i < N s" "slack_hit s v i" for i
    using that by (auto simp: X_def Y_def nth_list_update less_Suc_eq intro!: nth_equalityI)
  have Xmiss: "X i = X (Suc i)" and Ymiss: "Y i = Y (Suc i)"
    if "i < N s" "\<not> slack_hit s v i" for i
    using that by (auto simp: X_def Y_def less_Suc_eq intro!: nth_equalityI)
  have Xi: "X i ! i = slack s ! i" if "i < N s" for i
    using that by (simp add: X_def)
  have "?P (N s) (fold (slack_step v) [0..<N s] s)"
  proof (rule fold_upt_rule[where P = ?P])
    show "?P 0 s" by (simp add: X0 Y0)
  next
    fix i t assume i: "i < N s" and t: "?P i t"
    show "?P (Suc i) (slack_step v i t)"
    proof (cases "slack_hit s v i")
      case True
      thus ?thesis using i Xhit[OF i True] Yhit[OF i True] Xi[OF i]
        by (simp add: t slack_step_def unlabelled_U_def slack_hit_def bound_of_def Let_def)
    next
      case False
      thus ?thesis using i Xmiss[OF i False] Ymiss[OF i False] Xi[OF i]
        by (auto simp add: t slack_step_def unlabelled_U_def slack_hit_def bound_of_def Let_def)
    qed
  qed
  moreover have "X (N s) = map (\<lambda>u. if slack_hit s v u then bound_of s v u else slack s ! u) [0..<N s]"
    "Y (N s) = map (\<lambda>u. if slack_hit s v u then int v else nhbor s ! u) [0..<N s]"
    by (auto simp: X_def Y_def)
  ultimately show ?thesis by (simp add: update_slack_def)
qed

lemma min_slack_spec:
  "(\<forall>u<N s. \<not> label_U s ! u \<longrightarrow> min_slack s \<le> slack s ! u) \<and>
   (min_slack s = LLONG_MAX \<or> (\<exists>u<N s. \<not> label_U s ! u \<and> min_slack s = slack s ! u))"
  unfolding min_slack_def
  by (rule fold_upt_rule[where P = "\<lambda>i th. (\<forall>u<i. \<not> label_U s ! u \<longrightarrow> th \<le> slack s ! u) \<and>
   (th = LLONG_MAX \<or> (\<exists>u<i. \<not> label_U s ! u \<and> th = slack s ! u))"])
     (auto simp: unlabelled_U_def less_Suc_eq min_def)

lemma shift_closed:
  assumes "length (alpha s) = N s" "length (beta s) = N s"
  shows "fold (shift_step theta) [0..<N s] s =
     s\<lparr>alpha := map (\<lambda>i. if label_V s ! i then ll (alpha s ! i + theta) else ll (alpha s ! i - theta)) [0..<N s],
       beta := map (\<lambda>i. if label_U s ! i then ll (beta s ! i - theta) else ll (beta s ! i + theta)) [0..<N s]\<rparr>"
proof -
  define f where "f i = (if label_V s ! i then ll (alpha s ! i + theta) else ll (alpha s ! i - theta))" for i
  define g where "g i = (if label_U s ! i then ll (beta s ! i - theta) else ll (beta s ! i + theta))" for i
  define X where "X i = map (\<lambda>u. if u < i then f u else alpha s ! u) [0..<N s]" for i
  define Y where "Y i = map (\<lambda>u. if u < i then g u else beta s ! u) [0..<N s]" for i
  let ?P = "\<lambda>i t. t = s\<lparr>alpha := X i, beta := Y i\<rparr>"
  have X0: "X 0 = alpha s" and Y0: "Y 0 = beta s"
    using assms by (auto simp: X_def Y_def intro: nth_equalityI)
  have Xs: "(X i)[i := f i] = X (Suc i)" and Ys: "(Y i)[i := g i] = Y (Suc i)"
    if "i < N s" for i
    using that by (auto simp: X_def Y_def nth_list_update less_Suc_eq intro!: nth_equalityI)
  have Xi: "X i ! i = alpha s ! i" and Yi: "Y i ! i = beta s ! i" if "i < N s" for i
    using that by (simp_all add: X_def Y_def)
  have "?P (N s) (fold (shift_step theta) [0..<N s] s)"
  proof (rule fold_upt_rule[where P = ?P])
    show "?P 0 s" by (simp add: X0 Y0)
  next
    fix i t assume i: "i < N s" and t: "?P i t"
    show "?P (Suc i) (shift_step theta i t)"
      using Xs[OF i] Ys[OF i] Xi[OF i] Yi[OF i]
      by (cases "label_V s ! i"; cases "label_U s ! i")
         (simp_all add: t shift_step_def Let_def f_def g_def)
  qed
  moreover have "X (N s) = map f [0..<N s]" "Y (N s) = map g [0..<N s]"
    by (auto simp: X_def Y_def)
  ultimately show ?thesis by (simp add: f_def g_def)
qed

lemma initialize_alpha_beta_closed:
  assumes "length (min_col s) = N s"
  shows "initialize_alpha_beta s =
     s\<lparr>mate_V := replicate (N s) (-1), mate_U := replicate (N s) (-1),
       alpha := replicate (N s) 0, beta := min_col s\<rparr>"
proof -
  define s1 where "s1 = s\<lparr>mate_V := replicate (N s) (-1), mate_U := replicate (N s) (-1),
       alpha := replicate (N s) 0, beta := replicate (N s) 0\<rparr>"
  define Y where "Y i = map (\<lambda>u. if u < i then min_col s ! u else 0) [0..<N s]" for i
  let ?P = "\<lambda>i t. t = s1\<lparr>beta := Y i\<rparr>"
  have Y0: "Y 0 = replicate (N s) 0"
    by (auto simp: Y_def intro: nth_equalityI)
  have Ys: "(Y i)[i := min_col s ! i] = Y (Suc i)" if "i < N s" for i
    using that by (auto simp: Y_def nth_list_update less_Suc_eq intro!: nth_equalityI)
  have "?P (N s) (fold (\<lambda>u t. t\<lparr>beta := (beta t)[u := min_col t ! u]\<rparr>) [0..<N s] s1)"
  proof (rule fold_upt_rule[where P = ?P])
    show "?P 0 s1" by (simp add: Y0 s1_def)
  next
    fix i t assume i: "i < N s" and t: "?P i t"
    show "?P (Suc i) (t\<lparr>beta := (beta t)[i := min_col t ! i]\<rparr>)"
      using Ys[OF i] by (simp add: t s1_def)
  qed
  moreover have "Y (N s) = min_col s"
    using assms by (auto simp: Y_def intro: nth_equalityI)
  ultimately show ?thesis by (simp add: initialize_alpha_beta_def s1_def Let_def)
qed

lemma scan_columns_Inr:
  assumes "scan_columns theta us adm s = Inr (adm', s')" "distinct us"
    "\<forall>u\<in>set us. u < length (slack s)"
  shows "s' = s\<lparr>slack := slack s'\<rparr> \<and> length (slack s') = length (slack s) \<and>
    (\<forall>j<length (slack s). slack s' ! j =
        (if j \<in> set us \<and> \<not> label_U s ! j then ll (slack s ! j - ll (2 * theta)) else slack s ! j)) \<and>
    adm' = adm @ filter (\<lambda>u. \<not> label_U s ! u \<and> ll (slack s ! u - ll (2 * theta)) = 0) us \<and>
    (\<forall>u\<in>set us. \<not> label_U s ! u \<and> ll (slack s ! u - ll (2 * theta)) = 0 \<longrightarrow> mate_U s ! u \<noteq> -1)"
  using assms
proof (induction us arbitrary: adm s)
  case Nil
  then show ?case by simp
next
  case (Cons u us)
  show ?case
  proof (cases "label_U s ! u")
    case True
    with Cons.prems have "scan_columns theta us adm s = Inr (adm', s')"
      by (simp add: unlabelled_U_def)
    from Cons.IH[OF this] Cons.prems(2,3) True show ?thesis by auto
  next
    case False
    define s1 where "s1 = s\<lparr>slack := (slack s)[u := ll (slack s ! u - ll (2 * theta))]\<rparr>"
    have u: "u < length (slack s)" "u \<notin> set us" "distinct us" using Cons.prems by auto
    have s1: "label_U s1 = label_U s" "mate_U s1 = mate_U s" "length (slack s1) = length (slack s)"
      "slack s1 ! u = ll (slack s ! u - ll (2 * theta))"
      "\<And>j. j \<noteq> u \<Longrightarrow> slack s1 ! j = slack s ! j"
      "\<And>X. s1\<lparr>slack := X\<rparr> = s\<lparr>slack := X\<rparr>"
      using u by (simp_all add: s1_def)
    have pre: "\<forall>u\<in>set us. u < length (slack s1)" using Cons.prems s1 by simp
    have same: "\<forall>j\<in>set us. slack s1 ! j = slack s ! j" using u by (auto simp: s1_def nth_list_update)
    show ?thesis
    proof (cases "ll (slack s ! u - ll (2 * theta)) = 0")
      case True
      with False Cons.prems(1) have m: "mate_U s ! u \<noteq> -1"
        and r: "scan_columns theta us (adm @ [u]) s1 = Inr (adm', s')"
        by (auto simp: unlabelled_U_def admissible_U_def unmatched_U_def Let_def s1_def u split: if_splits)
      from Cons.IH[OF r u(3) pre] have ih: "s' = s1\<lparr>slack := slack s'\<rparr>" "length (slack s') = length (slack s1)"
        "\<forall>j<length (slack s1). slack s' ! j =
        (if j \<in> set us \<and> \<not> label_U s1 ! j then ll (slack s1 ! j - ll (2 * theta)) else slack s1 ! j)"
        "adm' = (adm @ [u]) @ filter (\<lambda>u. \<not> label_U s1 ! u \<and> ll (slack s1 ! u - ll (2 * theta)) = 0) us"
        "\<forall>u\<in>set us. \<not> label_U s1 ! u \<and> ll (slack s1 ! u - ll (2 * theta)) = 0 \<longrightarrow> mate_U s1 ! u \<noteq> -1"
        by blast+
      have f: "filter (\<lambda>u. \<not> label_U s1 ! u \<and> ll (slack s1 ! u - ll (2 * theta)) = 0) us
          = filter (\<lambda>u. \<not> label_U s ! u \<and> ll (slack s ! u - ll (2 * theta)) = 0) us"
        using same s1(1) by (intro filter_cong) auto
      have 1: "s' = s\<lparr>slack := slack s'\<rparr>" using ih(1) s1(6) by simp
      have 2: "length (slack s') = length (slack s)" using ih(2) s1(3) by simp
      have 3: "\<forall>j<length (slack s). slack s' ! j =
        (if j \<in> set (u # us) \<and> \<not> label_U s ! j then ll (slack s ! j - ll (2 * theta)) else slack s ! j)"
        using ih(3) s1 u False by (metis list.set_intros(1) set_ConsD list.set_intros(2))
      have 4: "adm' = adm @ filter (\<lambda>u. \<not> label_U s ! u \<and> ll (slack s ! u - ll (2 * theta)) = 0) (u # us)"
        using ih(4) f True False by simp
      have 5: "\<forall>u\<in>set (u # us). \<not> label_U s ! u \<and> ll (slack s ! u - ll (2 * theta)) = 0 \<longrightarrow> mate_U s ! u \<noteq> -1"
        using ih(5) s1(1,2) same m by auto
      show ?thesis using 1 2 3 4 5 by blast
    next
      case nz: False
      with False Cons.prems(1) have
         r: "scan_columns theta us adm s1 = Inr (adm', s')"
        by (auto simp: unlabelled_U_def admissible_U_def unmatched_U_def Let_def s1_def u split: if_splits)
      from Cons.IH[OF r u(3) pre] have ih: "s' = s1\<lparr>slack := slack s'\<rparr>" "length (slack s') = length (slack s1)"
        "\<forall>j<length (slack s1). slack s' ! j =
        (if j \<in> set us \<and> \<not> label_U s1 ! j then ll (slack s1 ! j - ll (2 * theta)) else slack s1 ! j)"
        "adm' = adm @ filter (\<lambda>u. \<not> label_U s1 ! u \<and> ll (slack s1 ! u - ll (2 * theta)) = 0) us"
        "\<forall>u\<in>set us. \<not> label_U s1 ! u \<and> ll (slack s1 ! u - ll (2 * theta)) = 0 \<longrightarrow> mate_U s1 ! u \<noteq> -1"
        by blast+
      have f: "filter (\<lambda>u. \<not> label_U s1 ! u \<and> ll (slack s1 ! u - ll (2 * theta)) = 0) us
          = filter (\<lambda>u. \<not> label_U s ! u \<and> ll (slack s ! u - ll (2 * theta)) = 0) us"
        using same s1(1) by (intro filter_cong) auto
      have 1: "s' = s\<lparr>slack := slack s'\<rparr>" using ih(1) s1(6) by simp
      have 2: "length (slack s') = length (slack s)" using ih(2) s1(3) by simp
      have 3: "\<forall>j<length (slack s). slack s' ! j =
        (if j \<in> set (u # us) \<and> \<not> label_U s ! j then ll (slack s ! j - ll (2 * theta)) else slack s ! j)"
        using ih(3) s1 u False by (metis list.set_intros(1) set_ConsD list.set_intros(2))
      have 4: "adm' = adm @ filter (\<lambda>u. \<not> label_U s ! u \<and> ll (slack s ! u - ll (2 * theta)) = 0) (u # us)"
        using ih(4) f nz False by simp
      have 5: "\<forall>u\<in>set (u # us). \<not> label_U s ! u \<and> ll (slack s ! u - ll (2 * theta)) = 0 \<longrightarrow> mate_U s ! u \<noteq> -1"
        using ih(5) s1(1,2) same nz by auto
      show ?thesis using 1 2 3 4 5 by blast
    qed
  qed
qed

lemma scan_columns_Inl:
  assumes "scan_columns theta us adm s = Inl (u, s')" "distinct us"
    "\<forall>u\<in>set us. u < length (slack s)"
  shows "u \<in> set us \<and> \<not> label_U s ! u \<and> mate_U s ! u = -1 \<and>
    ll (slack s ! u - ll (2 * theta)) = 0 \<and> slack s' ! u = 0 \<and>
    s' = s\<lparr>slack := slack s'\<rparr> \<and> length (slack s') = length (slack s) \<and>
    (\<forall>j<length (slack s). slack s' ! j = slack s ! j \<or>
        (j \<in> set us \<and> \<not> label_U s ! j \<and> slack s' ! j = ll (slack s ! j - ll (2 * theta))))"
  using assms
proof (induction us arbitrary: adm s)
  case Nil
  then show ?case by simp
next
  case (Cons u0 us)
  show ?case
  proof (cases "label_U s ! u0")
    case True
    with Cons.prems have "scan_columns theta us adm s = Inl (u, s')"
      by (simp add: unlabelled_U_def)
    from Cons.IH[OF this] Cons.prems(2,3) True show ?thesis by auto
  next
    case False
    define d where "d = ll (slack s ! u0 - ll (2 * theta))"
    define s1 where "s1 = s\<lparr>slack := (slack s)[u0 := d]\<rparr>"
    have u: "u0 < length (slack s)" "u0 \<notin> set us" "distinct us" using Cons.prems by auto
    have s1: "label_U s1 = label_U s" "mate_U s1 = mate_U s" "length (slack s1) = length (slack s)"
      "slack s1 ! u0 = d"
      "\<And>X. s1\<lparr>slack := X\<rparr> = s\<lparr>slack := X\<rparr>"
      using u by (simp_all add: s1_def)
    have other: "\<forall>j. j \<noteq> u0 \<longrightarrow> slack s1 ! j = slack s ! j" by (simp add: s1_def)
    have pre: "\<forall>u\<in>set us. u < length (slack s1)" using Cons.prems s1 by simp
    have unf: "scan_columns theta (u0 # us) adm s =
       (if d = 0 then (if mate_U s ! u0 = -1 then Inl (u0, s1) else scan_columns theta us (adm @ [u0]) s1)
        else scan_columns theta us adm s1)"
      using False u by (simp add: unlabelled_U_def admissible_U_def unmatched_U_def Let_def s1_def d_def)
    show ?thesis
    proof (cases "d = 0 \<and> mate_U s ! u0 = -1")
      case True
      with unf Cons.prems(1) have "u = u0" "s' = s1" by auto
      thus ?thesis using True False s1 other u d_def
        by (auto simp: s1_def nth_list_update)
    next
      case F: False
      then obtain adm1 where r: "scan_columns theta us adm1 s1 = Inl (u, s')"
        using unf Cons.prems(1) by (auto split: if_splits)
      from Cons.IH[OF r u(3) pre] have ih: "u \<in> set us" "\<not> label_U s1 ! u" "mate_U s1 ! u = -1"
        "ll (slack s1 ! u - ll (2 * theta)) = 0" "slack s' ! u = 0"
        "s' = s1\<lparr>slack := slack s'\<rparr>" "length (slack s') = length (slack s1)"
        "\<forall>j<length (slack s1). slack s' ! j = slack s1 ! j \<or>
        (j \<in> set us \<and> \<not> label_U s1 ! j \<and> slack s' ! j = ll (slack s1 ! j - ll (2 * theta)))"
        by blast+
      have ne: "u \<noteq> u0" using ih(1) u(2) by auto
      have 8: "\<forall>j<length (slack s). slack s' ! j = slack s ! j \<or>
        (j \<in> set (u0 # us) \<and> \<not> label_U s ! j \<and> slack s' ! j = ll (slack s ! j - ll (2 * theta)))"
      proof (intro allI impI)
        fix j assume j: "j < length (slack s)"
        show "slack s' ! j = slack s ! j \<or>
          (j \<in> set (u0 # us) \<and> \<not> label_U s ! j \<and> slack s' ! j = ll (slack s ! j - ll (2 * theta)))"
        proof (cases "j = u0")
          case True
          with ih(8) j s1 u(2) have "slack s' ! j = d" by auto
          thus ?thesis using True False d_def by simp
        next
          case False
          with ih(8) j s1 other show ?thesis by auto
        qed
      qed
      show ?thesis using ih(1-7) ne s1 other 8 by auto
    qed
  qed
qed

subsection \<open>Reduced costs, matchings and counting\<close>

lemma LLONG_MAX_num: "LLONG_MAX = 9223372036854775807"
  by (simp add: LLONG_MAX_def)

lemma rc_bounds:
  assumes "base_inv B s" "v < N s" "u < N s"
  shows "bound_of s v u = rc s v u" "0 \<le> rc s v u" "rc s v u \<le> 3 * B"
proof -
  from assms have c: "0 \<le> c s ! v ! u" "c s ! v ! u \<le> B"
    and a: "- B \<le> alpha s ! v" "alpha s ! v \<le> B"
    and b: "- B \<le> beta s ! u" "beta s ! u \<le> B"
    and f: "alpha s ! v + beta s ! u \<le> c s ! v ! u"
    and B: "3 * B < LLONG_MAX"
    by (auto simp: base_inv_def costs_ok_def duals_bounded_def feasible_def)
  show "0 \<le> rc s v u" "rc s v u \<le> 3 * B" using c a b f by (auto simp: rc_def)
  have "ll (c s ! v ! u - alpha s ! v) = c s ! v ! u - alpha s ! v"
    using c a b B by (intro ll_id) (auto simp: LLONG_MAX_num)
  moreover have "ll (c s ! v ! u - alpha s ! v - beta s ! u) = c s ! v ! u - alpha s ! v - beta s ! u"
    using c a b B by (intro ll_id) (auto simp: LLONG_MAX_num)
  ultimately show "bound_of s v u = rc s v u" by (simp add: bound_of_def rc_def)
qed

lemma matchingV:
  assumes "matching s" "v < N s" "mate_V s ! v \<noteq> -1"
  shows "0 \<le> mate_V s ! v" "nat (mate_V s ! v) < N s" "mate_U s ! nat (mate_V s ! v) = int v"
  using assms unfolding matching_def in_range_def by auto

lemma matchingU:
  assumes "matching s" "u < N s" "mate_U s ! u \<noteq> -1"
  shows "0 \<le> mate_U s ! u" "nat (mate_U s ! u) < N s" "mate_V s ! nat (mate_U s ! u) = int u"
  using assms unfolding matching_def in_range_def by auto

lemma matching_cards:
  assumes "matching s"
  shows "card {v. v < N s \<and> mate_V s ! v \<noteq> -1} = card (matched_cols s)"
proof (rule bij_betw_same_card[where f = "\<lambda>v. nat (mate_V s ! v)"])
  let ?R = "{v. v < N s \<and> mate_V s ! v \<noteq> -1}"
  let ?f = "\<lambda>v. nat (mate_V s ! v)"
  have inj: "inj_on ?f ?R"
  proof (rule inj_onI)
    fix x y assume "x \<in> ?R" "y \<in> ?R" and e: "?f x = ?f y"
    hence x: "x < N s" "mate_V s ! x \<noteq> -1" and y: "y < N s" "mate_V s ! y \<noteq> -1" by simp_all
    have "int x = mate_U s ! ?f x" using matchingV(3)[OF assms x] by simp
    also have "\<dots> = int y" using matchingV(3)[OF assms y] e by simp
    finally show "x = y" by simp
  qed
  have img: "?f ` ?R = matched_cols s"
  proof (intro equalityI subsetI)
    fix u assume "u \<in> ?f ` ?R"
    then obtain v where v: "v < N s" "mate_V s ! v \<noteq> -1" "u = ?f v" by auto
    have "u < N s" "mate_U s ! u = int v" using matchingV[OF assms v(1,2)] v(3) by simp_all
    thus "u \<in> matched_cols s" by (simp add: matched_cols_def)
  next
    fix u assume "u \<in> matched_cols s"
    hence u: "u < N s" "mate_U s ! u \<noteq> -1" by (simp_all add: matched_cols_def)
    note m = matchingU[OF assms u]
    have "nat (mate_U s ! u) \<in> ?R" using m by simp
    moreover have "u = ?f (nat (mate_U s ! u))" using m by simp
    ultimately show "u \<in> ?f ` ?R" by (rule rev_image_eqI)
  qed
  show "bij_betw ?f ?R (matched_cols s)"
    unfolding bij_betw_def using inj img by simp
qed

lemma card_free_rows: "card (free_rows s) + card {v. v < N s \<and> mate_V s ! v \<noteq> -1} = N s"
proof -
  have "free_rows s \<union> {v. v < N s \<and> mate_V s ! v \<noteq> -1} = {..<N s}"
    "free_rows s \<inter> {v. v < N s \<and> mate_V s ! v \<noteq> -1} = {}"
    by (auto simp: free_rows_def)
  moreover have "finite (free_rows s)" "finite {v. v < N s \<and> mate_V s ! v \<noteq> -1}"
    by (auto simp: free_rows_def)
  ultimately show ?thesis
    by (metis card_Un_disjoint card_lessThan)
qed

lemma matched_cols_less:
  assumes "matching s" "v < N s" "mate_V s ! v = -1"
  shows "card (matched_cols s) < N s"
proof -
  have "v \<in> free_rows s" using assms by (simp add: free_rows_def)
  moreover have "finite (free_rows s)" by (simp add: free_rows_def)
  ultimately have "0 < card (free_rows s)" by (auto simp: card_gt_0_iff)
  thus ?thesis using card_free_rows[of s] matching_cards[OF assms(1)] by simp
qed

lemma free_col_exists:
  assumes "matching s" "v < N s" "mate_V s ! v = -1"
  shows "\<exists>u<N s. mate_U s ! u = -1"
proof (rule ccontr)
  assume "\<not> ?thesis"
  hence "matched_cols s = {..<N s}" by (auto simp: matched_cols_def)
  thus False using matched_cols_less[OF assms] by simp
qed

lemma derive_bounds:
  assumes "costs_ok B s" "feasible s" "matching s" "tight s" "free_nonneg s"
    "v0 < N s" "mate_V s ! v0 = -1"
  shows "duals_bounded B s"
proof -
  from free_col_exists[OF assms(3,6,7)] obtain u0 where u0: "u0 < N s" "mate_U s ! u0 = -1" by blast
  have a0: "0 \<le> alpha s ! v0" and b0: "0 \<le> beta s ! u0"
    using assms(5,6,7) u0 by (auto simp: free_nonneg_def)
  have cB: "\<And>v u. v < N s \<Longrightarrow> u < N s \<Longrightarrow> 0 \<le> c s ! v ! u \<and> c s ! v ! u \<le> B"
    using assms(1) by (auto simp: costs_ok_def)
  have fe: "\<And>v u. v < N s \<Longrightarrow> u < N s \<Longrightarrow> alpha s ! v + beta s ! u \<le> c s ! v ! u"
    using assms(2) by (auto simp: feasible_def)
  have aU: "alpha s ! i \<le> B" if "i < N s" for i
    using fe[OF that u0(1)] cB[OF that u0(1)] b0 by linarith
  have bU: "beta s ! i \<le> B" if "i < N s" for i
    using fe[OF assms(6) that] cB[OF assms(6) that] a0 by linarith
  have aL: "- B \<le> alpha s ! i" if i: "i < N s" for i
  proof (cases "mate_V s ! i = -1")
    case True
    hence "0 \<le> alpha s ! i" using assms(5) i by (auto simp: free_nonneg_def)
    moreover have "0 \<le> B" using cB[OF i i] by linarith
    ultimately show ?thesis by linarith
  next
    case False
    with assms(3) i have r: "in_range s (mate_V s ! i)" by (auto simp: matching_def)
    hence u: "nat (mate_V s ! i) < N s" by (auto simp: in_range_def)
    from assms(4) i False have "alpha s ! i + beta s ! nat (mate_V s ! i) = c s ! i ! nat (mate_V s ! i)"
      by (auto simp: tight_def)
    thus ?thesis using bU[OF u] cB[OF i u] by linarith
  qed
  have bL: "- B \<le> beta s ! i" if i: "i < N s" for i
  proof (cases "mate_U s ! i = -1")
    case True
    hence "0 \<le> beta s ! i" using assms(5) i by (auto simp: free_nonneg_def)
    moreover have "0 \<le> B" using cB[OF i i] by linarith
    ultimately show ?thesis by linarith
  next
    case False
    with assms(3) i have r: "in_range s (mate_U s ! i)" "mate_V s ! nat (mate_U s ! i) = int i"
      by (auto simp: matching_def)
    hence v: "nat (mate_U s ! i) < N s" by (auto simp: in_range_def)
    from assms(4) v r(2) have "alpha s ! nat (mate_U s ! i) + beta s ! i = c s ! nat (mate_U s ! i) ! i"
      by (auto simp: tight_def)
    thus ?thesis using aU[OF v] cB[OF v i] by linarith
  qed
  show ?thesis using aU aL bU bL by (auto simp: duals_bounded_def)
qed

subsection \<open>The dual update\<close>

lemma ll_id_max: "- LLONG_MAX \<le> x \<Longrightarrow> x \<le> LLONG_MAX \<Longrightarrow> ll x = x"
  by (rule ll_id) (simp_all add: LLONG_MAX_def)

lemma base_invD:
  assumes "base_inv B s"
  shows "0 \<le> B" "3 * B < LLONG_MAX" "dims s" "costs_ok B s" "feasible s" "duals_even s"
    "duals_bounded B s" "matching s" "tight s" "free_nonneg s"
  using assms by (simp_all add: base_inv_def)

lemma dimsD:
  assumes "dims s"
  shows "length (c s) = N s" "\<And>v. v < N s \<Longrightarrow> length (c s ! v) = N s"
     "length (mate_V s) = N s" "length (mate_U s) = N s"
     "length (alpha s) = N s" "length (beta s) = N s"
  using assms by (simp_all add: dims_def)

lemma dims_searchD:
  assumes "dims_search s"
  shows "length (nhbor s) = N s" "length (parent s) = N s"
     "length (slack s) = N s" "length (label_V s) = N s" "length (label_U s) = N s"
  using assms by (simp_all add: dims_search_def)

lemma costs_okD:
  assumes "costs_ok B s" "v < N s" "u < N s"
  shows "0 \<le> c s ! v ! u" "c s ! v ! u \<le> B" "even (c s ! v ! u)"
  using assms by (simp_all add: costs_ok_def)

lemma feasibleD: "feasible s \<Longrightarrow> v < N s \<Longrightarrow> u < N s \<Longrightarrow> alpha s ! v + beta s ! u \<le> c s ! v ! u"
  by (simp add: feasible_def)

lemma duals_evenD: "duals_even s \<Longrightarrow> v < N s \<Longrightarrow> u < N s \<Longrightarrow> even (alpha s ! v + beta s ! u)"
  unfolding duals_even_def by blast

lemma duals_boundedD:
  assumes "duals_bounded B s" "i < N s"
  shows "- B \<le> alpha s ! i" "alpha s ! i \<le> B" "- B \<le> beta s ! i" "beta s ! i \<le> B"
  using assms by (simp_all add: duals_bounded_def)

lemma slack_okD:
  assumes "slack_ok s" "u < N s" "\<not> label_U s ! u"
  shows "0 \<le> nhbor s ! u" "nat (nhbor s ! u) < N s" "label_V s ! nat (nhbor s ! u)"
    "slack s ! u = rc s (nat (nhbor s ! u)) u"
    "\<And>v. v < N s \<Longrightarrow> label_V s ! v \<Longrightarrow> slack s ! u \<le> rc s v u"
  using assms unfolding slack_ok_def in_range_def by auto

lemma shifted_fields:
  assumes "shifted theta s s1"
  shows "N s1 = N s" "c s1 = c s" "mate_V s1 = mate_V s" "mate_U s1 = mate_U s"
    "nhbor s1 = nhbor s" "parent s1 = parent s" "slack s1 = slack s" "min_col s1 = min_col s"
    "label_V s1 = label_V s" "label_U s1 = label_U s"
proof -
  from assms have eq: "s1 = s\<lparr>alpha := alpha s1, beta := beta s1\<rparr>" by (simp add: shifted_def)
  show "N s1 = N s" by (subst eq) simp
  show "c s1 = c s" by (subst eq) simp
  show "mate_V s1 = mate_V s" by (subst eq) simp
  show "mate_U s1 = mate_U s" by (subst eq) simp
  show "nhbor s1 = nhbor s" by (subst eq) simp
  show "parent s1 = parent s" by (subst eq) simp
  show "slack s1 = slack s" by (subst eq) simp
  show "min_col s1 = min_col s" by (subst eq) simp
  show "label_V s1 = label_V s" by (subst eq) simp
  show "label_U s1 = label_U s" by (subst eq) simp
qed

lemma shifted_rc:
  assumes "shifted theta s s1" "v < N s" "u < N s"
  shows "rc s1 v u = rc s v u - (if label_V s ! v then theta else - theta)
                            - (if label_U s ! u then - theta else theta)"
  using assms by (auto simp: rc_def shifted_fields[OF assms(1)] shifted_def)

lemma search_inv_free_col:
  assumes "search_inv B s"
  shows "\<exists>u<N s. mate_U s ! u = -1 \<and> \<not> label_U s ! u"
proof -
  from assms obtain v where v: "v < N s" "mate_V s ! v = -1" and m: "matching s"
    and l: "labels_ok s"
    by (auto simp: search_inv_def base_inv_def)
  from free_col_exists[OF m v] obtain u where "u < N s" "mate_U s ! u = -1" by blast
  moreover from this l have "\<not> label_U s ! u" by (auto simp: labels_ok_def)
  ultimately show ?thesis by blast
qed

lemma slack_ok_facts:
  assumes "search_inv B s" "u < N s" "\<not> label_U s ! u"
  shows "0 \<le> slack s ! u" "slack s ! u \<le> 3 * B" "even (slack s ! u)"
proof -
  from assms have b: "base_inv B s" and so: "slack_ok s" by (auto simp: search_inv_def)
  note r = slack_okD[OF so assms(2,3)]
  show "0 \<le> slack s ! u" "slack s ! u \<le> 3 * B"
    using rc_bounds(2,3)[OF b r(2) assms(2)] r(4) by simp_all
  have "even (c s ! nat (nhbor s ! u) ! u)"
    using costs_okD(3)[OF base_invD(4)[OF b] r(2) assms(2)] .
  moreover have "even (alpha s ! nat (nhbor s ! u) + beta s ! u)"
    using duals_evenD[OF base_invD(6)[OF b] r(2) assms(2)] .
  ultimately have "even (c s ! nat (nhbor s ! u) ! u - (alpha s ! nat (nhbor s ! u) + beta s ! u))"
    by (rule dvd_diff)
  thus "even (slack s ! u)" unfolding r(4) rc_def by (simp add: diff_diff_eq)
qed

lemma update_alpha_beta_shifted:
  assumes inv: "search_inv B s"
  shows "\<exists>theta s1. update_alpha_beta s = (theta, s1) \<and> shifted theta s s1 \<and> 0 \<le> theta \<and>
     2 * theta = min_slack s \<and> 2 * theta \<le> 3 * B \<and>
     (\<forall>u<N s. \<not> label_U s ! u \<longrightarrow> 2 * theta \<le> slack s ! u) \<and>
     (\<exists>u<N s. \<not> label_U s ! u \<and> slack s ! u = 2 * theta)"
proof -
  from inv have b: "base_inv B s" by (simp add: search_inv_def)
  hence B: "0 \<le> B" "3 * B < LLONG_MAX" and len: "length (alpha s) = N s" "length (beta s) = N s"
    and db: "duals_bounded B s"
    by (auto simp: base_inv_def dims_def)
  from search_inv_free_col[OF inv] obtain u0 where u0: "u0 < N s" "\<not> label_U s ! u0" by blast
  have le: "\<forall>u<N s. \<not> label_U s ! u \<longrightarrow> min_slack s \<le> slack s ! u"
    using min_slack_spec[of s] by blast
  have ex: "\<exists>u<N s. \<not> label_U s ! u \<and> slack s ! u = min_slack s"
  proof (cases "min_slack s = LLONG_MAX")
    case True
    moreover have "min_slack s \<le> slack s ! u0" using le u0 by blast
    moreover have "slack s ! u0 \<le> LLONG_MAX" using slack_ok_facts(2)[OF inv u0] B by linarith
    ultimately show ?thesis using u0 by auto
  next
    case False
    thus ?thesis using min_slack_spec[of s] by auto
  qed
  then obtain u1 where u1: "u1 < N s" "\<not> label_U s ! u1" "slack s ! u1 = min_slack s" by blast
  note f = slack_ok_facts[OF inv u1(1,2)]
  have m0: "0 \<le> min_slack s" and mB: "min_slack s \<le> 3 * B" and me: "even (min_slack s)"
    using f u1(3) by simp_all
  show ?thesis
  proof (cases "min_slack s > 0")
    case False
    hence z: "min_slack s = 0" using m0 by simp
    have "update_alpha_beta s = (0, s)" using z by (simp add: update_alpha_beta_def)
    moreover have "shifted 0 s s" using len by (simp add: shifted_def)
    ultimately show ?thesis using z le ex B by auto
  next
    case True
    define theta where "theta = min_slack s div 2"
    have t2: "2 * theta = min_slack s" using me by (simp add: theta_def)
    have t0: "0 \<le> theta" using m0 t2 by linarith
    have td: "ll_div (min_slack s) 2 = theta" using m0 by (simp add: ll_div_2 theta_def)
    define s1 where "s1 = fold (shift_step theta) [0..<N s] s"
    have u: "update_alpha_beta s = (theta, s1)"
      using True td by (simp add: update_alpha_beta_def s1_def Let_def)
    have a: "ll (alpha s ! i + theta) = alpha s ! i + theta" "ll (alpha s ! i - theta) = alpha s ! i - theta"
      "ll (beta s ! i + theta) = beta s ! i + theta" "ll (beta s ! i - theta) = beta s ! i - theta"
      if "i < N s" for i
    proof -
      from db that have "- B \<le> alpha s ! i" "alpha s ! i \<le> B" "- B \<le> beta s ! i" "beta s ! i \<le> B"
        by (auto simp: duals_bounded_def)
      thus "ll (alpha s ! i + theta) = alpha s ! i + theta" "ll (alpha s ! i - theta) = alpha s ! i - theta"
      "ll (beta s ! i + theta) = beta s ! i + theta" "ll (beta s ! i - theta) = beta s ! i - theta"
        using t0 t2 mB B by (intro ll_id_max; linarith)+
    qed
    have "shifted theta s s1"
      unfolding s1_def shift_closed[OF len] shifted_def using a len by simp
    thus ?thesis using u t0 t2 mB le ex by auto
  qed
qed

subsection \<open>The dual update preserves the invariants\<close>

lemma labels_okD:
  assumes "labels_ok s"
  shows "\<And>u. u < N s \<Longrightarrow> label_U s ! u \<Longrightarrow> mate_U s ! u \<noteq> -1"
    "\<And>v. v < N s \<Longrightarrow> mate_V s ! v = -1 \<Longrightarrow> label_V s ! v"
    "\<And>v. v < N s \<Longrightarrow> mate_V s ! v \<noteq> -1 \<Longrightarrow> label_V s ! v = label_U s ! nat (mate_V s ! v)"
  using assms unfolding labels_ok_def by auto

lemma rc_nonneg_iff: "0 \<le> rc s v u \<longleftrightarrow> alpha s ! v + beta s ! u \<le> c s ! v ! u"
  unfolding rc_def by linarith

lemma rc_zero_iff: "rc s v u = 0 \<longleftrightarrow> alpha s ! v + beta s ! u = c s ! v ! u"
  unfolding rc_def by linarith

lemma feasible_rc: "feasible s \<longleftrightarrow> (\<forall>v<N s. \<forall>u<N s. 0 \<le> rc s v u)"
  by (simp add: feasible_def rc_nonneg_iff)

lemma tight_rc: "tight s \<longleftrightarrow> (\<forall>v<N s. mate_V s ! v \<noteq> -1 \<longrightarrow> rc s v (nat (mate_V s ! v)) = 0)"
  by (simp add: tight_def rc_zero_iff)

lemma shifted_inv:
  assumes inv: "search_inv B s" and sh: "shifted theta s s1" and t0: "0 \<le> theta"
    and le: "\<forall>u<N s. \<not> label_U s ! u \<longrightarrow> 2 * theta \<le> slack s ! u"
  shows "base_inv B s1" "dims_search s1" "labels_ok s1" "slack_pending theta s1"
    "\<And>rank. tree_ok rank s \<Longrightarrow> tree_ok rank s1" "\<exists>v<N s1. mate_V s1 ! v = -1"
proof -
  note F = shifted_fields[OF sh]
  from inv have b: "base_inv B s" and ds: "dims_search s" and lo: "labels_ok s"
    and so: "slack_ok s" and fr: "\<exists>v<N s. mate_V s ! v = -1"
    by (auto simp: search_inv_def)
  note bD = base_invD[OF b]
  from sh have la: "length (alpha s1) = N s" "length (beta s1) = N s" by (auto simp: shifted_def)
  have rc1: "rc s1 v u = rc s v u - (if label_V s ! v then theta else - theta)
                            - (if label_U s ! u then - theta else theta)"
    if "v < N s" "u < N s" for v u using shifted_rc[OF sh that] .
  have a1: "alpha s1 ! i = (if label_V s ! i then alpha s ! i + theta else alpha s ! i - theta)"
    and b1: "beta s1 ! i = (if label_U s ! i then beta s ! i - theta else beta s ! i + theta)"
    if "i < N s" for i using sh that by (auto simp: shifted_def)
  show ds1: "dims_search s1" using ds by (simp add: dims_search_def F)
  show lo1: "labels_ok s1" using lo by (simp add: labels_ok_def F)
  show fr1: "\<exists>v<N s1. mate_V s1 ! v = -1" using fr by (simp add: F)
  have d1: "dims s1" using bD(3) la by (simp add: dims_def F)
  have c1: "costs_ok B s1" using bD(4) by (simp add: costs_ok_def F)
  have m1: "matching s1" using bD(8) by (simp add: matching_def in_range_def F)
  have f1: "feasible s1"
    unfolding feasible_rc F
  proof (intro allI impI)
    fix v u assume v: "v < N s" and u: "u < N s"
    have r0: "0 \<le> rc s v u" using rc_bounds(2)[OF b v u] .
    show "0 \<le> rc s1 v u"
    proof (cases "label_V s ! v \<and> \<not> label_U s ! u")
      case True
      hence "slack s ! u \<le> rc s v u" using slack_okD(5)[OF so u _ v] by simp
      moreover have "2 * theta \<le> slack s ! u" using le u True by simp
      ultimately show ?thesis using rc1[OF v u] True by simp
    next
      case False
      thus ?thesis using rc1[OF v u] r0 t0 by auto
    qed
  qed
  have e1: "duals_even s1"
    unfolding duals_even_def F
  proof (intro allI impI)
    fix v u assume v: "v < N s" and u: "u < N s"
    have e: "even (alpha s ! v + beta s ! u)" using duals_evenD[OF bD(6) v u] .
    have e2: "even (alpha s ! v + beta s ! u + 2 * theta)" "even (alpha s ! v + beta s ! u - 2 * theta)"
      using e by simp_all
    have "alpha s1 ! v + beta s1 ! u = alpha s ! v + beta s ! u
        \<or> alpha s1 ! v + beta s1 ! u = alpha s ! v + beta s ! u + 2 * theta
        \<or> alpha s1 ! v + beta s1 ! u = alpha s ! v + beta s ! u - 2 * theta"
      using a1[OF v] b1[OF u] by auto
    thus "even (alpha s1 ! v + beta s1 ! u)"
    proof (elim disjE)
      assume h: "alpha s1 ! v + beta s1 ! u = alpha s ! v + beta s ! u"
      show ?thesis unfolding h using e .
    next
      assume h: "alpha s1 ! v + beta s1 ! u = alpha s ! v + beta s ! u + 2 * theta"
      show ?thesis unfolding h using e2(1) .
    next
      assume h: "alpha s1 ! v + beta s1 ! u = alpha s ! v + beta s ! u - 2 * theta"
      show ?thesis unfolding h using e2(2) .
    qed
  qed
  have t1: "tight s1"
    unfolding tight_rc F
  proof (intro allI impI)
    fix v assume v: "v < N s" and m: "mate_V s ! v \<noteq> -1"
    note mv = matchingV[OF bD(8) v m]
    have "label_V s ! v = label_U s ! nat (mate_V s ! v)" using labels_okD(3)[OF lo v m] .
    moreover have "rc s v (nat (mate_V s ! v)) = 0" using bD(9) v m by (simp add: tight_rc)
    ultimately show "rc s1 v (nat (mate_V s ! v)) = 0" using rc1[OF v mv(2)] by simp
  qed
  have n1: "free_nonneg s1"
    unfolding free_nonneg_def F
  proof (intro conjI allI impI)
    fix v assume v: "v < N s" and m: "mate_V s ! v = -1"
    have "label_V s ! v" using labels_okD(2)[OF lo v m] .
    moreover have "0 \<le> alpha s ! v" using bD(10) v m by (simp add: free_nonneg_def)
    ultimately show "0 \<le> alpha s1 ! v" using a1[OF v] t0 by simp
  next
    fix u assume u: "u < N s" and m: "mate_U s ! u = -1"
    have "\<not> label_U s ! u" using labels_okD(1)[OF lo u] m by blast
    moreover have "0 \<le> beta s ! u" using bD(10) u m by (simp add: free_nonneg_def)
    ultimately show "0 \<le> beta s1 ! u" using b1[OF u] t0 by simp
  qed
  from fr1 obtain v0 where v0: "v0 < N s1" "mate_V s1 ! v0 = -1" by blast
  have db1: "duals_bounded B s1" using derive_bounds[OF c1 f1 m1 t1 n1 v0] .
  show "base_inv B s1"
    unfolding base_inv_def using bD(1,2) d1 c1 f1 e1 db1 m1 t1 n1 by simp
  show "slack_pending theta s1"
    unfolding slack_pending_def F in_range_def
  proof (intro allI impI)
    fix u assume u: "u < N s" and nl: "\<not> label_U s ! u"
    note r = slack_okD[OF so u nl]
    have 1: "slack s ! u - 2 * theta = rc s1 (nat (nhbor s ! u)) u"
      using rc1[OF r(2) u] r(3,4) nl by simp
    have 2: "\<forall>v<N s. label_V s ! v \<longrightarrow> slack s ! u - 2 * theta \<le> rc s1 v u"
    proof (intro allI impI)
      fix v assume v: "v < N s" "label_V s ! v"
      show "slack s ! u - 2 * theta \<le> rc s1 v u"
        using rc1[OF v(1) u] r(5)[OF v] v(2) nl by simp
    qed
    show "(0 \<le> nhbor s ! u \<and> nhbor s ! u < int (N s)) \<and> label_V s ! nat (nhbor s ! u) \<and>
         slack s ! u - 2 * theta = rc s1 (nat (nhbor s ! u)) u \<and>
         (\<forall>v<N s. label_V s ! v \<longrightarrow> slack s ! u - 2 * theta \<le> rc s1 v u)"
      using r(1,2,3) 1 2 by simp
  qed
  show "tree_ok rank s1" if tr: "tree_ok rank s" for rank
    unfolding tree_ok_def F
  proof (intro allI impI)
    fix v assume v: "v < N s" and lv: "label_V s ! v"
    from tr v lv have row: "tree_row rank s v" and rk: "rank v + card (todo s) \<le> card (matched_cols s)"
      by (auto simp: tree_ok_def)
    have td: "todo s1 = todo s" "matched_cols s1 = matched_cols s"
      by (simp_all add: todo_def matched_cols_def F)
    have "tree_row rank s1 v"
    proof (cases "mate_V s ! v = -1")
      case True
      thus ?thesis using row by (simp add: tree_row_def F)
    next
      case False
      with row have p: "in_range s (parent s ! v)" "label_V s ! nat (parent s ! v)"
        "rank (nat (parent s ! v)) < rank v" "rc s (nat (parent s ! v)) (nat (mate_V s ! v)) = 0"
        by (auto simp: tree_row_def)
      note mv = matchingV[OF bD(8) v False]
      have "label_U s ! nat (mate_V s ! v)" using labels_okD(3)[OF lo v False] lv by simp
      moreover have "nat (parent s ! v) < N s" using p(1) by (auto simp: in_range_def)
      ultimately have "rc s1 (nat (parent s ! v)) (nat (mate_V s ! v)) = 0"
        using rc1[OF _ mv(2)] p(2,4) by simp
      thus ?thesis using p False by (simp add: tree_row_def F in_range_def)
    qed
    thus "tree_row rank s1 v \<and> rank v + card (todo s1) \<le> card (matched_cols s1)"
      using rk td by simp
  qed
qed

subsection \<open>Labelling an admissible column\<close>

lemma same_problem_refl: "same_problem s s"
  by (simp add: same_problem_def)

lemma same_problem_trans: "same_problem s t \<Longrightarrow> same_problem t r \<Longrightarrow> same_problem s r"
  by (simp add: same_problem_def)

lemma label_admissibles_Cons:
  "label_admissibles (u # us) s =
     (if \<not> in_range s (mate_U s ! u) then Inl IndexOutOfRange
      else label_admissibles us (label_step u s))"
  by (simp add: label_step_def Let_def)

lemma base_inv_cong:
  assumes "N s' = N s" "c s' = c s" "alpha s' = alpha s" "beta s' = beta s"
    "mate_V s' = mate_V s" "mate_U s' = mate_U s"
  shows "base_inv B s' = base_inv B s"
  by (simp add: base_inv_def dims_def costs_ok_def feasible_def duals_even_def duals_bounded_def
      matching_def tight_def free_nonneg_def in_range_def assms)

lemma rc_cong:
  assumes "c s' = c s" "alpha s' = alpha s" "beta s' = beta s"
  shows "rc s' v u = rc s v u"
  by (simp add: rc_def assms)

lemma tree_rowD:
  assumes "tree_row rank s v"
  shows "mate_V s ! v = -1 \<Longrightarrow> parent s ! v = -1"
    "mate_V s ! v \<noteq> -1 \<Longrightarrow> 0 \<le> parent s ! v \<and> nat (parent s ! v) < N s \<and>
       label_V s ! nat (parent s ! v) \<and> rank (nat (parent s ! v)) < rank v \<and>
       rc s (nat (parent s ! v)) (nat (mate_V s ! v)) = 0"
  using assms unfolding tree_row_def in_range_def by auto

lemma tree_okD:
  assumes "tree_ok rank s" "v < N s" "label_V s ! v"
  shows "tree_row rank s v" "rank v + card (todo s) \<le> card (matched_cols s)"
  using assms unfolding tree_ok_def by auto

lemma label_step_inv:
  assumes inv: "search_inv B s" and tr: "tree_ok rank s"
    and u: "u < N s" "\<not> label_U s ! u" "slack s ! u = 0" "mate_U s ! u \<noteq> -1"
  shows "search_inv B (label_step u s)"
    "N (label_step u s) = N s" "mate_U (label_step u s) = mate_U s"
    "label_U (label_step u s) = (label_U s)[u := True]"
    "\<forall>j<N s. j \<noteq> u \<longrightarrow> \<not> label_U s ! j \<longrightarrow> slack s ! j = 0 \<longrightarrow> slack (label_step u s) ! j = 0"
    "todo (label_step u s) = todo s - {u}" "u \<in> todo s" "same_problem s (label_step u s)"
proof -
  from inv have b: "base_inv B s" and ds: "dims_search s" and lo: "labels_ok s"
    and so: "slack_ok s" and fr: "\<exists>v<N s. mate_V s ! v = -1"
    by (auto simp: search_inv_def)
  note bD = base_invD[OF b]
  note dsD = dims_searchD[OF ds]
  define m where "m = nat (mate_U s ! u)"
  define r where "r = nat (nhbor s ! u)"
  note mu = matchingU[OF bD(8) u(1,4), folded m_def]
  note ru = slack_okD[OF so u(1,2), folded r_def]
  have rcru: "rc s r u = 0" using ru(4) u(3) by simp
  have nlm: "\<not> label_V s ! m"
    using labels_okD(3)[OF lo mu(2)] mu(3) u(2) by simp
  have rm: "r \<noteq> m" using ru(3) nlm by auto
  have ri: "nhbor s ! u = int r" using ru(1) by (simp add: r_def)
  define t where "t = s\<lparr>label_U := (label_U s)[u := True],
          label_V := (label_V s)[m := True],
          parent := (parent s)[m := nhbor s ! u]\<rparr>"
  define s' where "s' = label_step u s"
  have s't: "s' = update_slack m t" by (simp add: s'_def label_step_def t_def m_def)
  have tl: "length (slack t) = N t" "length (nhbor t) = N t" using dsD by (simp_all add: t_def)
  have bt: "bound_of t m j = rc s m j" if "j < N s" for j
  proof -
    have "bound_of t m j = bound_of s m j" by (simp add: bound_of_def t_def)
    thus ?thesis using rc_bounds(1)[OF b mu(2) that] by simp
  qed
  define hit where "hit j = (j \<noteq> u \<and> \<not> label_U s ! j \<and> rc s m j < slack s ! j)" for j
  have hit: "slack_hit t m j = hit j" if "j < N s" for j
    using rc_bounds(2)[OF b mu(2) that] bt[OF that] that dsD(5) u(1)
    by (auto simp: slack_hit_def hit_def t_def nth_list_update)
  have s'eq: "s' = t\<lparr>slack := map (\<lambda>j. if slack_hit t m j then bound_of t m j else slack t ! j) [0..<N t],
       nhbor := map (\<lambda>j. if slack_hit t m j then int m else nhbor t ! j) [0..<N t]\<rparr>"
    unfolding s't by (rule update_slack_closed[OF tl])
  have F: "N s' = N s" "c s' = c s" "alpha s' = alpha s" "beta s' = beta s"
    "mate_V s' = mate_V s" "mate_U s' = mate_U s"
    "label_U s' = (label_U s)[u := True]" "label_V s' = (label_V s)[m := True]"
    "parent s' = (parent s)[m := nhbor s ! u]"
    by (simp_all add: s'eq t_def)
  have Fs: "slack s' ! j = (if hit j then rc s m j else slack s ! j)"
    and Fn: "nhbor s' ! j = (if hit j then int m else nhbor s ! j)" if "j < N s" for j
    using that hit[OF that] bt[OF that] by (simp_all add: s'eq t_def)
  have Fl: "length (slack s') = N s" "length (nhbor s') = N s"
    by (simp_all add: s'eq t_def)
  have rc': "rc s' v j = rc s v j" for v j by (rule rc_cong) (simp_all add: F)
  have LU: "label_U s' ! j = (j = u \<or> label_U s ! j)" if "j < N s" for j
    using that dsD(5) u(1) by (auto simp: F nth_list_update)
  have LV: "label_V s' ! v = (v = m \<or> label_V s ! v)" if "v < N s" for v
    using that dsD(4) mu(2) by (auto simp: F nth_list_update)
  have PA: "parent s' ! v = (if v = m then nhbor s ! u else parent s ! v)" if "v < N s" for v
    using that dsD(2) mu(2) by (auto simp: F nth_list_update)
  have b': "base_inv B s'" using b base_inv_cong[of s' s B] F by simp
  have ds': "dims_search s'" using dsD Fl by (simp add: dims_search_def F)
  have mate_ne: "nat (mate_V s ! v) \<noteq> u" if v: "v < N s" "v \<noteq> m" "mate_V s ! v \<noteq> -1" for v
  proof
    assume e: "nat (mate_V s ! v) = u"
    have "mate_U s ! nat (mate_V s ! v) = int v" using matchingV(3)[OF bD(8) v(1,3)] .
    hence "mate_U s ! u = int v" using e by simp
    thus False using v(2) by (simp add: m_def)
  qed
  have lo': "labels_ok s'"
    unfolding labels_ok_def F(1,5,6)
  proof (intro conjI allI impI)
    fix j assume j: "j < N s" "label_U s' ! j"
    show "mate_U s ! j \<noteq> -1" using j LU[OF j(1)] u(4) labels_okD(1)[OF lo j(1)] by auto
  next
    fix v assume v: "v < N s"
    show "label_V s' ! v = (mate_V s ! v = -1 \<or> label_U s' ! nat (mate_V s ! v))"
    proof (cases "v = m")
      case True
      thus ?thesis using LV[OF v] mu(3) LU[OF u(1)] by simp
    next
      case False
      show ?thesis
      proof (cases "mate_V s ! v = -1")
        case True
        thus ?thesis using LV[OF v] labels_okD(2)[OF lo v] by simp
      next
        case F2: False
        note mv = matchingV[OF bD(8) v F2]
        show ?thesis using LV[OF v] LU[OF mv(2)] mate_ne[OF v False F2] False F2
          labels_okD(3)[OF lo v F2] by simp
      qed
    qed
  qed
  have so': "slack_ok s'"
    unfolding slack_ok_def F(1) in_range_def rc'
  proof (intro allI impI)
    fix j assume j: "j < N s" and nl: "\<not> label_U s' ! j"
    hence ju: "j \<noteq> u" and nlj: "\<not> label_U s ! j" using LU[OF j] by auto
    note rj = slack_okD[OF so j nlj]
    have all: "\<forall>v<N s. label_V s' ! v \<longrightarrow> slack s' ! j \<le> rc s v j"
    proof (intro allI impI)
      fix v assume v: "v < N s" "label_V s' ! v"
      show "slack s' ! j \<le> rc s v j"
      proof (cases "v = m")
        case True
        thus ?thesis using Fs[OF j] by (auto simp: hit_def ju nlj)
      next
        case False
        hence "label_V s ! v" using v LV[OF v(1)] by simp
        hence "slack s ! j \<le> rc s v j" using rj(5)[OF v(1)] by simp
        thus ?thesis using Fs[OF j] by (auto simp: hit_def)
      qed
    qed
    show "(0 \<le> nhbor s' ! j \<and> nhbor s' ! j < int (N s)) \<and> label_V s' ! nat (nhbor s' ! j) \<and>
       slack s' ! j = rc s (nat (nhbor s' ! j)) j \<and>
       (\<forall>v<N s. label_V s' ! v \<longrightarrow> slack s' ! j \<le> rc s v j)"
    proof (cases "hit j")
      case True
      thus ?thesis using Fs[OF j] Fn[OF j] mu(2) LV[OF mu(2)] all by simp
    next
      case False
      thus ?thesis using Fs[OF j] Fn[OF j] rj(1,2,3,4) LV[OF rj(2)] all by simp
    qed
  qed
  have ut: "u \<in> todo s" using u by (simp add: todo_def)
  have td: "todo s' = todo s - {u}"
    using dsD(5) u(1) by (auto simp: todo_def F nth_list_update)
  have mc: "matched_cols s' = matched_cols s" by (simp add: matched_cols_def F)
  have fin: "finite (todo s)" by (simp add: todo_def)
  have "0 < card (todo s)" using ut fin by (auto simp: card_gt_0_iff)
  hence ctd: "card (todo s') + 1 = card (todo s)"
    unfolding td using ut fin by (simp add: card_Diff_singleton)
  define rank' where "rank' = rank(m := Suc (rank r))"
  have tr': "tree_ok rank' s'"
    unfolding tree_ok_def F(1) mc
  proof (intro allI impI)
    fix v assume v: "v < N s" and lv: "label_V s' ! v"
    show "tree_row rank' s' v \<and> rank' v + card (todo s') \<le> card (matched_cols s)"
    proof (cases "v = m")
      case True
      have 1: "rank r + card (todo s) \<le> card (matched_cols s)" using tree_okD(2)[OF tr ru(2,3)] .
      have "tree_row rank' s' m"
        unfolding tree_row_def F(5) in_range_def rc' F(1)
        using mu(3) PA[OF mu(2)] ru(2,3) LV[OF ru(2)] rm rcru
        by (simp add: rank'_def ri)
      moreover have "rank' m + card (todo s') \<le> card (matched_cols s)"
        using 1 ctd by (simp add: rank'_def)
      ultimately show ?thesis using True by simp
    next
      case False
      hence lv0: "label_V s ! v" using lv LV[OF v] by simp
      note tv = tree_okD[OF tr v lv0]
      have "tree_row rank' s' v"
      proof (cases "mate_V s ! v = -1")
        case True
        thus ?thesis using tree_rowD(1)[OF tv(1)] PA[OF v] False
          by (simp add: tree_row_def F(5))
      next
        case F2: False
        from tree_rowD(2)[OF tv(1) F2] have p: "0 \<le> parent s ! v" "nat (parent s ! v) < N s"
          "label_V s ! nat (parent s ! v)" "rank (nat (parent s ! v)) < rank v"
          "rc s (nat (parent s ! v)) (nat (mate_V s ! v)) = 0" by auto
        have pm: "nat (parent s ! v) \<noteq> m" using p(3) nlm by auto
        show ?thesis
          unfolding tree_row_def F(5) in_range_def rc' F(1)
          using F2 PA[OF v] False p LV[OF p(2)] pm by (simp add: rank'_def)
      qed
      moreover have "rank' v + card (todo s') \<le> card (matched_cols s)"
        using tv(2) ctd False by (simp add: rank'_def)
      ultimately show ?thesis by simp
    qed
  qed
  have fr': "\<exists>v<N s'. mate_V s' ! v = -1" using fr by (simp add: F)
  show "search_inv B (label_step u s)"
    unfolding search_inv_def s'_def[symmetric] using b' ds' lo' so' tr' fr' by blast
  show "N (label_step u s) = N s" "mate_U (label_step u s) = mate_U s"
    "label_U (label_step u s) = (label_U s)[u := True]"
    unfolding s'_def[symmetric] by (simp_all add: F)
  show "\<forall>j<N s. j \<noteq> u \<longrightarrow> \<not> label_U s ! j \<longrightarrow> slack s ! j = 0 \<longrightarrow> slack (label_step u s) ! j = 0"
    unfolding s'_def[symmetric]
  proof (intro allI impI)
    fix j assume j: "j < N s" "j \<noteq> u" "\<not> label_U s ! j" "slack s ! j = 0"
    have "\<not> hit j" using rc_bounds(2)[OF b mu(2) j(1)] j(4) by (simp add: hit_def)
    thus "slack s' ! j = 0" using Fs[OF j(1)] j(4) by simp
  qed
  show "todo (label_step u s) = todo s - {u}" "u \<in> todo s"
    unfolding s'_def[symmetric] using td ut by simp_all
  show "same_problem s (label_step u s)"
    unfolding s'_def[symmetric] by (simp add: same_problem_def F)
qed

subsection \<open>One round of the search\<close>

lemma labels_ok_cong:
  assumes "N s' = N s" "mate_V s' = mate_V s" "mate_U s' = mate_U s"
    "label_V s' = label_V s" "label_U s' = label_U s"
  shows "labels_ok s' = labels_ok s"
  by (simp add: labels_ok_def assms)

lemma tree_ok_cong:
  assumes "N s' = N s" "mate_V s' = mate_V s" "mate_U s' = mate_U s"
    "label_V s' = label_V s" "label_U s' = label_U s" "parent s' = parent s"
    "c s' = c s" "alpha s' = alpha s" "beta s' = beta s"
  shows "tree_ok rank s' = tree_ok rank s"
  by (simp add: tree_ok_def tree_row_def todo_def matched_cols_def in_range_def rc_def assms)

lemma slack_only_fields:
  assumes "s2 = s1\<lparr>slack := X\<rparr>"
  shows "N s2 = N s1" "c s2 = c s1" "mate_V s2 = mate_V s1" "mate_U s2 = mate_U s1"
    "nhbor s2 = nhbor s1" "parent s2 = parent s1" "alpha s2 = alpha s1" "beta s2 = beta s1"
    "label_V s2 = label_V s1" "label_U s2 = label_U s1"
  by (simp_all add: assms)

lemma label_admissibles_inv:
  assumes "search_inv B s" "distinct us"
    "\<forall>u\<in>set us. u < N s \<and> \<not> label_U s ! u \<and> slack s ! u = 0 \<and> mate_U s ! u \<noteq> -1"
  shows "\<exists>s'. label_admissibles us s = Inr s' \<and> search_inv B s' \<and> todo s' = todo s - set us \<and>
     same_problem s s'"
  using assms
proof (induction us arbitrary: s)
  case Nil
  then show ?case by (simp add: same_problem_refl)
next
  case (Cons u us)
  from Cons.prems(3) have u: "u < N s" "\<not> label_U s ! u" "slack s ! u = 0" "mate_U s ! u \<noteq> -1"
    by auto
  from Cons.prems(1) obtain rank where tr: "tree_ok rank s" and b: "base_inv B s"
    and ds: "dims_search s"
    by (auto simp: search_inv_def)
  note L = label_step_inv[OF Cons.prems(1) tr u]
  note mu = matchingU[OF base_invD(8)[OF b] u(1,4)]
  have ir: "in_range s (mate_U s ! u)" using mu by (simp add: in_range_def)
  have d: "distinct us" "u \<notin> set us" using Cons.prems(2) by auto
  have pre: "\<forall>j\<in>set us. j < N (label_step u s) \<and> \<not> label_U (label_step u s) ! j \<and>
      slack (label_step u s) ! j = 0 \<and> mate_U (label_step u s) ! j \<noteq> -1"
  proof
    fix j assume j: "j \<in> set us"
    hence ju: "j \<noteq> u" using d by auto
    from j Cons.prems(3) have jf: "j < N s" "\<not> label_U s ! j" "slack s ! j = 0" "mate_U s ! j \<noteq> -1"
      by auto
    show "j < N (label_step u s) \<and> \<not> label_U (label_step u s) ! j \<and>
      slack (label_step u s) ! j = 0 \<and> mate_U (label_step u s) ! j \<noteq> -1"
      using jf ju L(2,3,4,5) by (simp add: nth_list_update)
  qed
  from Cons.IH[OF L(1) d(1) pre] obtain s' where
    s': "label_admissibles us (label_step u s) = Inr s'" "search_inv B s'"
      "todo s' = todo (label_step u s) - set us" "same_problem (label_step u s) s'" by blast
  have "label_admissibles (u # us) s = Inr s'"
    using s'(1) ir by (simp only: label_admissibles_Cons if_not_P not_not)
  moreover have "todo s' = todo s - set (u # us)" using s'(3) L(6) by auto
  moreover have "same_problem s s'" using same_problem_trans[OF L(8) s'(4)] .
  ultimately show ?case using s'(2) by blast
qed

lemma scan_inv:
  assumes inv: "search_inv B s" and ua: "update_alpha_beta s = (theta, s1)"
  shows "case scan_columns theta [0..<N s1] [] s1 of
           Inl (u, s2) \<Rightarrow> found_inv B u s2 \<and> same_problem s s2
         | Inr (adm, s2) \<Rightarrow> search_inv B s2 \<and> same_problem s s2 \<and> adm \<noteq> [] \<and> distinct adm \<and>
             (\<forall>u\<in>set adm. u < N s2 \<and> \<not> label_U s2 ! u \<and> slack s2 ! u = 0 \<and> mate_U s2 ! u \<noteq> -1) \<and>
             todo s2 = todo s"
proof -
  from update_alpha_beta_shifted[OF inv] ua have
    sh: "shifted theta s s1" and t0: "0 \<le> theta"
    and tB: "2 * theta \<le> 3 * B"
    and le: "\<forall>u<N s. \<not> label_U s ! u \<longrightarrow> 2 * theta \<le> slack s ! u"
    and ex: "\<exists>u<N s. \<not> label_U s ! u \<and> slack s ! u = 2 * theta"
    by auto
  note F = shifted_fields[OF sh]
  note I = shifted_inv[OF inv sh t0 le]
  from inv obtain rank where tr: "tree_ok rank s" and ds: "dims_search s"
    by (auto simp: search_inv_def)
  note tr1 = I(5)[OF tr]
  note bD = base_invD[OF I(1)]
  have ll2: "ll (2 * theta) = 2 * theta" using t0 tB bD(2) by (intro ll_id_max) linarith+
  have dec: "ll (slack s1 ! j - ll (2 * theta)) = slack s ! j - 2 * theta"
    and dec0: "0 \<le> slack s ! j - 2 * theta"
    if "j < N s" "\<not> label_U s ! j" for j
  proof -
    have "2 * theta \<le> slack s ! j" using le that by simp
    moreover have "slack s ! j \<le> 3 * B" using slack_ok_facts(2)[OF inv that] .
    ultimately show "ll (slack s1 ! j - ll (2 * theta)) = slack s ! j - 2 * theta"
      "0 \<le> slack s ! j - 2 * theta"
      unfolding ll2 F using t0 bD(2) by (simp_all add: ll_id_max)
  qed
  have len: "length (slack s1) = N s" using dims_searchD(3)[OF ds] by (simp add: F)
  have pre: "distinct [0..<N s1]" "\<forall>u\<in>set [0..<N s1]. u < length (slack s1)"
    using len by (simp_all add: F)
  show ?thesis
  proof (cases "scan_columns theta [0..<N s1] [] s1")
    case (Inl p)
    obtain u s2 where p: "p = (u, s2)" by (cases p)
    from scan_columns_Inl[OF Inl[unfolded p] pre] have
      sc: "u \<in> set [0..<N s1]" "\<not> label_U s1 ! u" "mate_U s1 ! u = -1"
        "ll (slack s1 ! u - ll (2 * theta)) = 0" "slack s2 ! u = 0"
        "s2 = s1\<lparr>slack := slack s2\<rparr>" "length (slack s2) = length (slack s1)"
        "\<forall>j<length (slack s1). slack s2 ! j = slack s1 ! j \<or>
           (j \<in> set [0..<N s1] \<and> \<not> label_U s1 ! j \<and> slack s2 ! j = ll (slack s1 ! j - ll (2 * theta)))"
      by blast+
    note G = slack_only_fields[OF sc(6)]
    have u: "u < N s" "\<not> label_U s ! u" using sc(1,2) by (simp_all add: F)
    have su: "slack s1 ! u - 2 * theta = 0" using dec[OF u] sc(4) by (simp add: F)
    from I(4) u have sp: "in_range s1 (nhbor s1 ! u)" "label_V s1 ! nat (nhbor s1 ! u)"
      "slack s1 ! u - 2 * theta = rc s1 (nat (nhbor s1 ! u)) u"
      by (auto simp: slack_pending_def F)
    have "found_inv B u s2"
      unfolding found_inv_def
    proof (intro conjI)
      show "base_inv B s2" using I(1) base_inv_cong[of s2 s1 B] G by simp
      show "dims_search s2" using I(2) sc(7) by (simp add: dims_search_def G)
      show "labels_ok s2" using I(3) labels_ok_cong[of s2 s1] G by simp
      show "\<exists>rank. tree_ok rank s2" using tr1 tree_ok_cong[of s2 s1] G by auto
      show "u < N s2" "mate_U s2 ! u = - 1" "\<not> label_U s2 ! u" "slack s2 ! u = 0"
        using u sc(3,5) by (simp_all add: G F)
      show "in_range s2 (nhbor s2 ! u)" "label_V s2 ! nat (nhbor s2 ! u)"
        using sp(1,2) by (simp_all add: G in_range_def)
      have "rc s2 (nat (nhbor s2 ! u)) u = rc s1 (nat (nhbor s1 ! u)) u"
        by (simp add: rc_def G)
      thus "rc s2 (nat (nhbor s2 ! u)) u = 0" using sp(3) su by simp
      show "\<forall>j<N s2. \<not> label_U s2 ! j \<longrightarrow>
        0 \<le> slack s2 ! j \<and> in_range s2 (nhbor s2 ! j) \<and> label_V s2 ! nat (nhbor s2 ! j)"
      proof (intro allI impI)
        fix j assume j: "j < N s2" "\<not> label_U s2 ! j"
        hence j': "j < N s" "\<not> label_U s ! j" by (simp_all add: G F)
        have "slack s2 ! j = slack s1 ! j \<or> slack s2 ! j = ll (slack s1 ! j - ll (2 * theta))"
          using sc(8) j' len by auto
        moreover have "0 \<le> slack s1 ! j" using slack_ok_facts(1)[OF inv j'] by (simp add: F)
        ultimately have "0 \<le> slack s2 ! j" using dec[OF j'] dec0[OF j'] by auto
        moreover from I(4) j' have "in_range s1 (nhbor s1 ! j)" "label_V s1 ! nat (nhbor s1 ! j)"
          by (auto simp: slack_pending_def F)
        ultimately show "0 \<le> slack s2 ! j \<and> in_range s2 (nhbor s2 ! j) \<and> label_V s2 ! nat (nhbor s2 ! j)"
          by (simp add: G in_range_def)
      qed
    qed
    moreover have "same_problem s s2" by (simp add: same_problem_def G F)
    ultimately show ?thesis by (simp add: Inl p)
  next
    case (Inr p)
    obtain adm s2 where p: "p = (adm, s2)" by (cases p)
    from scan_columns_Inr[OF Inr[unfolded p] pre] have
      sc: "s2 = s1\<lparr>slack := slack s2\<rparr>" "length (slack s2) = length (slack s1)"
        "\<forall>j<length (slack s1). slack s2 ! j =
          (if j \<in> set [0..<N s1] \<and> \<not> label_U s1 ! j then ll (slack s1 ! j - ll (2 * theta)) else slack s1 ! j)"
        "adm = [] @ filter (\<lambda>u. \<not> label_U s1 ! u \<and> ll (slack s1 ! u - ll (2 * theta)) = 0) [0..<N s1]"
        "\<forall>u\<in>set [0..<N s1]. \<not> label_U s1 ! u \<and> ll (slack s1 ! u - ll (2 * theta)) = 0 \<longrightarrow> mate_U s1 ! u \<noteq> -1"
      by blast+
    note G = slack_only_fields[OF sc(1)]
    have sl2: "slack s2 ! j = slack s ! j - 2 * theta" if "j < N s" "\<not> label_U s ! j" for j
      using sc(3) that len dec[OF that] by (simp add: F)
    have adm: "u \<in> set adm \<longleftrightarrow> u < N s \<and> \<not> label_U s ! u \<and> slack s ! u - 2 * theta = 0" for u
      using dec[of u] by (auto simp: sc(4) F)
    have so2: "slack_ok s2"
      unfolding slack_ok_def
    proof (intro allI impI)
      fix u assume u: "u < N s2" "\<not> label_U s2 ! u"
      hence u': "u < N s" "\<not> label_U s ! u" by (simp_all add: G F)
      from I(4) u' have sp: "in_range s1 (nhbor s1 ! u)" "label_V s1 ! nat (nhbor s1 ! u)"
        "slack s1 ! u - 2 * theta = rc s1 (nat (nhbor s1 ! u)) u"
        "\<forall>v<N s1. label_V s1 ! v \<longrightarrow> slack s1 ! u - 2 * theta \<le> rc s1 v u"
        by (auto simp: slack_pending_def F)
      have rceq: "rc s2 v u = rc s1 v u" for v by (simp add: rc_def G)
      show "in_range s2 (nhbor s2 ! u) \<and> label_V s2 ! nat (nhbor s2 ! u) \<and>
        slack s2 ! u = rc s2 (nat (nhbor s2 ! u)) u \<and>
        (\<forall>v<N s2. label_V s2 ! v \<longrightarrow> slack s2 ! u \<le> rc s2 v u)"
        unfolding rceq using sp sl2[OF u'] by (simp add: G in_range_def F)
    qed
    have inv2: "search_inv B s2"
      unfolding search_inv_def
    proof (intro conjI)
      show "base_inv B s2" using I(1) base_inv_cong[of s2 s1 B] G by simp
      show "dims_search s2" using I(2) sc(2) by (simp add: dims_search_def G)
      show "labels_ok s2" using I(3) labels_ok_cong[of s2 s1] G by simp
      show "slack_ok s2" by (rule so2)
      show "\<exists>rank. tree_ok rank s2" using tr1 tree_ok_cong[of s2 s1] G by auto
      show "\<exists>v<N s2. mate_V s2 ! v = - 1" using I(6) by (simp add: G)
    qed
    have da: "distinct adm" by (simp add: sc(4))
    have aa: "\<forall>u\<in>set adm. u < N s2 \<and> \<not> label_U s2 ! u \<and> slack s2 ! u = 0 \<and> mate_U s2 ! u \<noteq> -1"
    proof
      fix u assume "u \<in> set adm"
      hence u: "u < N s" "\<not> label_U s ! u" "slack s ! u - 2 * theta = 0" using adm by auto
      have "mate_U s1 ! u \<noteq> -1" using sc(5) u dec[OF u(1,2)] by (simp add: F)
      thus "u < N s2 \<and> \<not> label_U s2 ! u \<and> slack s2 ! u = 0 \<and> mate_U s2 ! u \<noteq> -1"
        using u sl2[OF u(1,2)] by (simp add: G F)
    qed
    from ex obtain u0 where u0: "u0 < N s" "\<not> label_U s ! u0" "slack s ! u0 = 2 * theta" by blast
    hence u0a: "u0 \<in> set adm" using adm by simp
    hence ne: "adm \<noteq> []" by auto
    have t2: "todo s2 = todo s" by (simp add: todo_def G F)
    have "same_problem s s2" by (simp add: same_problem_def G F)
    thus ?thesis using inv2 ne da aa t2 by (simp add: Inr p)
  qed
qed

lemma search_round_inv:
  assumes inv: "search_inv B s"
  shows "(\<exists>u s2. search_round s = Inr (Found u s2) \<and> found_inv B u s2 \<and> same_problem s s2) \<or>
         (\<exists>s3. search_round s = Inr (Again s3) \<and> search_inv B s3 \<and> card (todo s3) < card (todo s) \<and>
            same_problem s s3)"
proof -
  obtain theta s1 where ua: "update_alpha_beta s = (theta, s1)" by (cases "update_alpha_beta s")
  note sc = scan_inv[OF inv ua]
  show ?thesis
  proof (cases "scan_columns theta [0..<N s1] [] s1")
    case (Inl p)
    obtain u s2 where p: "p = (u, s2)" by (cases p)
    have "search_round s = Inr (Found u s2)"
      by (simp add: search_round_def ua Inl p)
    thus ?thesis using sc by (simp add: Inl p)
  next
    case (Inr p)
    obtain adm s2 where p: "p = (adm, s2)" by (cases p)
    from sc have inv2: "search_inv B s2" and sp: "same_problem s s2" and ne: "adm \<noteq> []"
      and da: "distinct adm"
      and aa: "\<forall>u\<in>set adm. u < N s2 \<and> \<not> label_U s2 ! u \<and> slack s2 ! u = 0 \<and> mate_U s2 ! u \<noteq> -1"
      and t2: "todo s2 = todo s"
      by (simp_all add: Inr p)
    from label_admissibles_inv[OF inv2 da aa] obtain s3 where
      s3: "label_admissibles adm s2 = Inr s3" "search_inv B s3" "todo s3 = todo s2 - set adm"
        "same_problem s2 s3" by blast
    have sp3: "same_problem s s3" using sp s3(4) by (rule same_problem_trans)
    from ne obtain u0 where u0: "u0 \<in> set adm" by (cases adm) auto
    with aa have "u0 \<in> todo s2" by (simp add: todo_def)
    hence "todo s3 \<subset> todo s" using s3(3) t2 u0 by auto
    moreover have "finite (todo s)" by (simp add: todo_def)
    ultimately have "card (todo s3) < card (todo s)" by (rule psubset_card_mono[rotated])
    moreover have "search_round s = Inr (Again s3)"
      by (simp add: search_round_def ua Inr p s3(1))
    ultimately show ?thesis using s3(2) sp3 by blast
  qed
qed

subsection \<open>Termination of the search and correctness of augment\<close>

lemma search_within_mono:
  "search_within k s = Some r \<Longrightarrow> k \<le> k' \<Longrightarrow> search_within k' s = Some r"
proof (induction k arbitrary: s k')
  case 0
  then show ?case by simp
next
  case (Suc k)
  then obtain j where j: "k' = Suc j" "k \<le> j" by (cases k') auto
  show ?case
  proof (cases "search_round s")
    case (Inl e)
    then show ?thesis using Suc.prems(1) j by simp
  next
    case (Inr rd)
    show ?thesis
    proof (cases rd)
      case (Found u s2)
      then show ?thesis using Suc.prems(1) j Inr by simp
    next
      case (Again s3)
      hence "search_within k s3 = Some r" using Suc.prems(1) Inr by simp
      from Suc.IH[OF this j(2)] show ?thesis using Again Inr j by simp
    qed
  qed
qed

lemma search_terminates:
  assumes "search_inv B s"
  shows "\<exists>u s2. search_augmenting_alternating_path s = Some (Inr (u, s2)) \<and> found_inv B u s2 \<and>
     search_within (Suc (card (todo s))) s = Some (Inr (u, s2)) \<and> same_problem s s2"
  using assms
proof (induction "card (todo s)" arbitrary: s rule: less_induct)
  case less
  from search_round_inv[OF less.prems] show ?case
  proof (elim disjE exE conjE)
    fix u s2 assume r: "search_round s = Inr (Found u s2)" and f: "found_inv B u s2"
      and sp: "same_problem s s2"
    have "search_augmenting_alternating_path s = Some (Inr (u, s2))"
      by (subst search_augmenting_alternating_path.simps) (simp add: r)
    moreover have "search_within (Suc (card (todo s))) s = Some (Inr (u, s2))"
      by (simp add: r)
    ultimately show ?thesis using f sp by blast
  next
    fix s3 assume r: "search_round s = Inr (Again s3)" and i3: "search_inv B s3"
      and c: "card (todo s3) < card (todo s)" and sp: "same_problem s s3"
    from less.hyps[OF c i3] obtain u s2 where
      ih: "search_augmenting_alternating_path s3 = Some (Inr (u, s2))" "found_inv B u s2"
        "search_within (Suc (card (todo s3))) s3 = Some (Inr (u, s2))" "same_problem s3 s2" by blast
    have "search_augmenting_alternating_path s = Some (Inr (u, s2))"
      by (subst search_augmenting_alternating_path.simps) (simp add: r ih(1))
    moreover have "search_within (card (todo s)) s3 = Some (Inr (u, s2))"
      using search_within_mono[OF ih(3)] c by simp
    hence "search_within (Suc (card (todo s))) s = Some (Inr (u, s2))"
      by (simp add: r)
    ultimately show ?thesis using ih(2) same_problem_trans[OF sp ih(4)] by blast
  qed
qed

lemma todo_less:
  assumes "search_inv B s"
  shows "card (todo s) < N s"
proof -
  from assms obtain v where v: "v < N s" "mate_V s ! v = -1" and m: "matching s"
    by (auto simp: search_inv_def base_inv_def)
  have "todo s \<subseteq> matched_cols s" by (auto simp: todo_def matched_cols_def)
  moreover have "finite (matched_cols s)" by (simp add: matched_cols_def)
  ultimately have "card (todo s) \<le> card (matched_cols s)" by (rule card_mono[rotated])
  thus ?thesis using matched_cols_less[OF m v] by simp
qed

lemma augment_unfold:
  assumes "v < N s" "e < N s"
  shows "augment (int v) (int e) s =
    (if parent s ! v \<noteq> -1
     then augment (parent s ! v) (mate_V s ! v)
            (s\<lparr>mate_V := (mate_V s)[v := int e], mate_U := (mate_U s)[e := int v]\<rparr>)
     else Some (Inr (s\<lparr>mate_V := (mate_V s)[v := int e], mate_U := (mate_U s)[e := int v]\<rparr>)))"
  using assms by (subst augment.simps) (simp add: in_range_def Let_def)

lemma free_rows_upd_matched:
  assumes "v < N s" "length (mate_V s) = N s" "mate_V s ! v \<noteq> -1" "x \<noteq> -1"
  shows "free_rows (s\<lparr>mate_V := (mate_V s)[v := x], mate_U := Y\<rparr>) = free_rows s"
  using assms by (auto simp: free_rows_def nth_list_update)

lemma free_rows_upd_free:
  assumes "v < N s" "length (mate_V s) = N s" "mate_V s ! v = -1" "x \<noteq> -1"
  shows "free_rows (s\<lparr>mate_V := (mate_V s)[v := x], mate_U := Y\<rparr>) = free_rows s - {v}"
    "v \<in> free_rows s"
  using assms by (auto simp: free_rows_def nth_list_update)

lemma augment_correct:
  assumes "aug_pre rank v e s"
  shows "\<exists>s'. augment (int v) (int e) s = Some (Inr s') \<and> aug_post s s'"
  using assms
proof (induction "rank v" arbitrary: v e s rule: less_induct)
  case less
  note pre = less.prems
  from pre have d: "dims s" and lp: "length (parent s) = N s" and llv: "length (label_V s) = N s"
    and v: "v < N s" and e: "e < N s" and lv: "label_V s ! v"
    and I: "\<And>r. r < N s \<Longrightarrow> mate_V s ! r \<noteq> -1 \<Longrightarrow>
        0 \<le> mate_V s ! r \<and> nat (mate_V s ! r) < N s \<and> mate_U s ! nat (mate_V s ! r) = int r"
    and II: "\<And>u. u < N s \<Longrightarrow> u \<noteq> e \<Longrightarrow> mate_U s ! u \<noteq> -1 \<Longrightarrow>
        0 \<le> mate_U s ! u \<and> nat (mate_U s ! u) < N s \<and> mate_V s ! nat (mate_U s ! u) = int u"
    and III: "\<And>r. r < N s \<Longrightarrow> mate_V s ! r \<noteq> int e"
    and ti: "tight s" and rcve: "rc s v e = 0"
    and tree: "\<And>r. r < N s \<Longrightarrow> label_V s ! r \<Longrightarrow> rank r \<le> rank v \<Longrightarrow> tree_row rank s r"
    unfolding aug_pre_def in_range_def by auto
  note dD = dimsD[OF d]
  define s2 where "s2 = s\<lparr>mate_V := (mate_V s)[v := int e], mate_U := (mate_U s)[e := int v]\<rparr>"
  have F: "N s2 = N s" "c s2 = c s" "alpha s2 = alpha s" "beta s2 = beta s"
    "parent s2 = parent s" "label_V s2 = label_V s"
    by (simp_all add: s2_def)
  have MV: "mate_V s2 ! r = (if r = v then int e else mate_V s ! r)" if "r < N s" for r
    using that v dD(3) by (simp add: s2_def nth_list_update)
  have MU: "mate_U s2 ! u = (if u = e then int v else mate_U s ! u)" if "u < N s" for u
    using that e dD(4) by (simp add: s2_def nth_list_update)
  have rc2: "rc s2 r u = rc s r u" for r u by (simp add: rc_def F)
  have d2: "dims s2" using d by (simp add: dims_def s2_def)
  have tv: "tree_row rank s v" using tree[OF v lv] by simp
  have Irow: "(mate_V s2 ! r \<noteq> -1 \<longrightarrow>
        0 \<le> mate_V s2 ! r \<and> nat (mate_V s2 ! r) < N s \<and> mate_U s2 ! nat (mate_V s2 ! r) = int r)"
    if r: "r < N s" for r
  proof (cases "r = v")
    case True
    thus ?thesis using MV[OF r] MU[OF e] e by simp
  next
    case False
    show ?thesis
    proof
      assume "mate_V s2 ! r \<noteq> -1"
      hence m: "mate_V s ! r \<noteq> -1" using MV[OF r] False by simp
      note i = I[OF r m]
      have "nat (mate_V s ! r) \<noteq> e" using III[OF r] i by auto
      thus "0 \<le> mate_V s2 ! r \<and> nat (mate_V s2 ! r) < N s \<and> mate_U s2 ! nat (mate_V s2 ! r) = int r"
        using MV[OF r] False i MU[of "nat (mate_V s ! r)"] by simp
    qed
  qed
  have tight2: "tight s2"
    unfolding tight_rc F rc2
  proof (intro allI impI)
    fix r assume r: "r < N s" and m: "mate_V s2 ! r \<noteq> -1"
    show "rc s r (nat (mate_V s2 ! r)) = 0"
    proof (cases "r = v")
      case True
      thus ?thesis using MV[OF r] rcve by simp
    next
      case False
      thus ?thesis using MV[OF r] m ti r by (simp add: tight_rc)
    qed
  qed
  show ?case
  proof (cases "mate_V s ! v = -1")
    case True
    hence pv: "parent s ! v = -1" using tree_rowD(1)[OF tv] by simp
    have res: "augment (int v) (int e) s = Some (Inr s2)"
      unfolding augment_unfold[OF v e] s2_def using pv by simp
    have m2: "matching s2"
      unfolding matching_def F in_range_def
    proof (intro conjI allI impI)
      fix r assume r: "r < N s" and m: "mate_V s2 ! r \<noteq> -1"
      show "0 \<le> mate_V s2 ! r" "mate_V s2 ! r < int (N s)" "mate_U s2 ! nat (mate_V s2 ! r) = int r"
        using Irow[OF r] m by auto
    next
      fix u assume u: "u < N s" and m: "mate_U s2 ! u \<noteq> -1"
      have "(0 \<le> mate_U s2 ! u \<and> mate_U s2 ! u < int (N s)) \<and> mate_V s2 ! nat (mate_U s2 ! u) = int u"
      proof (cases "u = e")
        case True
        thus ?thesis using MU[OF u] MV[OF v] v by simp
      next
        case False
        hence mu: "mate_U s ! u \<noteq> -1" using m MU[OF u] by simp
        note ii = II[OF u False mu]
        have "nat (mate_U s ! u) \<noteq> v" using ii True by auto
        thus ?thesis using MU[OF u] False ii MV[of "nat (mate_U s ! u)"] by auto
      qed
      thus "0 \<le> mate_U s2 ! u" "mate_U s2 ! u < int (N s)" "mate_V s2 ! nat (mate_U s2 ! u) = int u"
        by auto
    qed
    have fr: "free_rows s2 = free_rows s - {v}" "v \<in> free_rows s"
      unfolding s2_def using free_rows_upd_free[OF v dD(3) True, of "int e"] by simp_all
    have "finite (free_rows s)" by (simp add: free_rows_def)
    hence "0 < card (free_rows s)" using fr(2) by (auto simp: card_gt_0_iff)
    hence cf: "card (free_rows s2) + 1 = card (free_rows s)"
      unfolding fr(1) using fr(2) by (simp add: card_Diff_singleton)
    have "aug_post s s2"
      unfolding aug_post_def
    proof (intro conjI)
      show "s2 = s\<lparr>mate_V := mate_V s2, mate_U := mate_U s2\<rparr>" by (simp add: s2_def)
      show "length (mate_V s2) = N s" "length (mate_U s2) = N s" using dD by (simp_all add: s2_def)
      show "matching s2" by (rule m2)
      show "tight s2" by (rule tight2)
      show "card (free_rows s2) + 1 = card (free_rows s)" by (rule cf)
      show "\<forall>r<N s. mate_V s2 ! r = - 1 \<longrightarrow> mate_V s ! r = - 1" using MV by (auto split: if_splits)
      show "\<forall>u<N s. mate_U s2 ! u = - 1 \<longrightarrow> mate_U s ! u = - 1" using MU by (auto split: if_splits)
    qed
    thus ?thesis using res by blast
  next
    case False
    from tree_rowD(2)[OF tv False] have p: "0 \<le> parent s ! v" "nat (parent s ! v) < N s"
      "label_V s ! nat (parent s ! v)" "rank (nat (parent s ! v)) < rank v"
      "rc s (nat (parent s ! v)) (nat (mate_V s ! v)) = 0" by auto
    define p' where "p' = nat (parent s ! v)"
    define e1 where "e1 = nat (mate_V s ! v)"
    note iv = I[OF v False]
    have pi: "parent s ! v = int p'" and ei: "mate_V s ! v = int e1"
      using p(1) iv by (simp_all add: p'_def e1_def)
    have e1: "e1 < N s" "mate_U s ! e1 = int v" using iv by (simp_all add: e1_def)
    have ee1: "e \<noteq> e1" using III[OF v] ei by auto
    have res: "augment (int v) (int e) s = augment (int p') (int e1) s2"
      unfolding augment_unfold[OF v e] s2_def using p(1) pi ei by simp
    have pre2: "aug_pre rank p' e1 s2"
      unfolding aug_pre_def F in_range_def
    proof (intro conjI allI impI)
      show "dims s2" by (rule d2)
      show "length (parent s) = N s" "length (label_V s) = N s" by (rule lp, rule llv)
      show "p' < N s" "e1 < N s" "label_V s ! p'" using p e1 by (simp_all add: p'_def)
      show "tight s2" by (rule tight2)
      show "rc s2 p' e1 = 0" using p(5) by (simp add: rc2 p'_def e1_def)
    next
      fix r assume r: "r < N s" and m: "mate_V s2 ! r \<noteq> -1"
      show "0 \<le> mate_V s2 ! r" "mate_V s2 ! r < int (N s)" "mate_U s2 ! nat (mate_V s2 ! r) = int r"
        using Irow[OF r] m by auto
    next
      fix u assume u: "u < N s" "u \<noteq> e1" "mate_U s2 ! u \<noteq> -1"
      have "(0 \<le> mate_U s2 ! u \<and> mate_U s2 ! u < int (N s)) \<and> mate_V s2 ! nat (mate_U s2 ! u) = int u"
      proof (cases "u = e")
        case True
        thus ?thesis using MU[OF u(1)] MV[OF v] v by simp
      next
        case F2: False
        hence mu: "mate_U s ! u \<noteq> -1" using u(3) MU[OF u(1)] by simp
        note ii = II[OF u(1) F2 mu]
        have "nat (mate_U s ! u) \<noteq> v" using ii ei u(2) by auto
        thus ?thesis using MU[OF u(1)] F2 ii MV[of "nat (mate_U s ! u)"] by auto
      qed
      thus "0 \<le> mate_U s2 ! u" "mate_U s2 ! u < int (N s)" "mate_V s2 ! nat (mate_U s2 ! u) = int u"
        by auto
    next
      fix r assume r: "r < N s"
      show "mate_V s2 ! r \<noteq> int e1"
      proof (cases "r = v")
        case True
        thus ?thesis using MV[OF r] ee1 by simp
      next
        case F2: False
        show ?thesis
        proof
          assume a: "mate_V s2 ! r = int e1"
          hence m: "mate_V s ! r = int e1" using MV[OF r] F2 by simp
          hence "mate_U s ! e1 = int r" using I[OF r] by auto
          thus False using e1(2) F2 by simp
        qed
      qed
    next
      fix r assume r: "r < N s" "label_V s ! r" "rank r \<le> rank p'"
      hence rv: "r \<noteq> v" using p(4) by (auto simp: p'_def)
      have "tree_row rank s r" using tree[OF r(1,2)] r(3) p(4) by (simp add: p'_def)
      thus "tree_row rank s2 r"
        unfolding tree_row_def F rc2 in_range_def using MV[OF r(1)] rv by simp
    qed
    have "rank p' < rank v" using p(4) by (simp add: p'_def)
    from less.hyps[OF this pre2] obtain s' where
      s': "augment (int p') (int e1) s2 = Some (Inr s')" "aug_post s2 s'" by blast
    from s'(2) have po: "s' = s2\<lparr>mate_V := mate_V s', mate_U := mate_U s'\<rparr>"
      "length (mate_V s') = N s" "length (mate_U s') = N s" "matching s'" "tight s'"
      "card (free_rows s') + 1 = card (free_rows s2)"
      "\<forall>r<N s. mate_V s' ! r = -1 \<longrightarrow> mate_V s2 ! r = -1"
      "\<forall>u<N s. mate_U s' ! u = -1 \<longrightarrow> mate_U s2 ! u = -1"
      unfolding aug_post_def F by blast+
    have fr: "free_rows s2 = free_rows s"
      unfolding s2_def using free_rows_upd_matched[OF v dD(3) False, of "int e"] by simp
    have "aug_post s s'"
      unfolding aug_post_def
    proof (intro conjI)
      show "s' = s\<lparr>mate_V := mate_V s', mate_U := mate_U s'\<rparr>"
        by (subst po(1)) (simp add: s2_def)
      show "length (mate_V s') = N s" "length (mate_U s') = N s" "matching s'" "tight s'"
        using po by simp_all
      show "card (free_rows s') + 1 = card (free_rows s)" using po(6) fr by simp
      show "\<forall>r<N s. mate_V s' ! r = - 1 \<longrightarrow> mate_V s ! r = - 1"
        using po(7) MV by (auto split: if_splits)
      show "\<forall>u<N s. mate_U s' ! u = - 1 \<longrightarrow> mate_U s ! u = - 1"
        using po(8) MU by (auto split: if_splits)
    qed
    thus ?thesis using res s'(1) by auto
  qed
qed

subsection \<open>Labelling the roots\<close>

lemma root_step_inv:
  assumes b: "base_inv B s" and i: "i < N s" and R: "roots_inv s i t"
  shows "roots_inv s (Suc i) (root_step i t)"
proof -
  from R have F: "N t = N s" "c t = c s" "alpha t = alpha s" "beta t = beta s"
     "mate_V t = mate_V s" "mate_U t = mate_U s"
     "label_U t = replicate (N s) False" "parent t = replicate (N s) (-1)"
     "length (nhbor t) = N s" "length (slack t) = N s" "length (label_V t) = N s"
    and LV: "\<And>v. v < N s \<Longrightarrow> label_V t ! v \<longleftrightarrow> v < i \<and> mate_V s ! v = -1"
    and SL: "\<And>u v. u < N s \<Longrightarrow> v < N s \<Longrightarrow> label_V t ! v \<Longrightarrow> slack t ! u \<le> rc s v u"
    and NH: "\<And>u. u < N s \<Longrightarrow> (nhbor t ! u = -1 \<and> slack t ! u = LLONG_MAX) \<or>
         (0 \<le> nhbor t ! u \<and> nat (nhbor t ! u) < N s \<and> label_V t ! nat (nhbor t ! u) \<and>
          slack t ! u = rc s (nat (nhbor t ! u)) u)"
    unfolding roots_inv_def by auto
  show ?thesis
  proof (cases "mate_V s ! i = -1")
    case False
    hence "root_step i t = t" by (simp add: root_step_def unmatched_V_def F)
    moreover have "roots_inv s (Suc i) t"
      unfolding roots_inv_def using F LV SL NH False
      by (auto simp: less_Suc_eq)
    ultimately show ?thesis by simp
  next
    case True
    define t1 where "t1 = t\<lparr>label_V := (label_V t)[i := True]\<rparr>"
    define t' where "t' = update_slack i t1"
    have rs: "root_step i t = t'"
      using True by (simp add: root_step_def unmatched_V_def F t'_def t1_def)
    have tl: "length (slack t1) = N t1" "length (nhbor t1) = N t1" using F by (simp_all add: t1_def)
    have bt: "bound_of t1 i j = rc s i j" if "j < N s" for j
    proof -
      have "bound_of t1 i j = bound_of s i j" by (simp add: bound_of_def t1_def F)
      thus ?thesis using rc_bounds(1)[OF b i that] by simp
    qed
    define hit where "hit j = (rc s i j < slack t ! j)" for j
    have hit: "slack_hit t1 i j = hit j" if "j < N s" for j
      using rc_bounds(2)[OF b i that] bt[OF that] that
      by (auto simp: slack_hit_def hit_def t1_def F)
    have t'eq: "t' = t1\<lparr>slack := map (\<lambda>j. if slack_hit t1 i j then bound_of t1 i j else slack t1 ! j) [0..<N t1],
       nhbor := map (\<lambda>j. if slack_hit t1 i j then int i else nhbor t1 ! j) [0..<N t1]\<rparr>"
      unfolding t'_def by (rule update_slack_closed[OF tl])
    have G: "N t' = N s" "c t' = c s" "alpha t' = alpha s" "beta t' = beta s"
     "mate_V t' = mate_V s" "mate_U t' = mate_U s"
     "label_U t' = replicate (N s) False" "parent t' = replicate (N s) (-1)"
     "length (nhbor t') = N s" "length (slack t') = N s" "length (label_V t') = N s"
      by (simp_all add: t'eq t1_def F)
    have Gs: "slack t' ! j = (if hit j then rc s i j else slack t ! j)"
      and Gn: "nhbor t' ! j = (if hit j then int i else nhbor t ! j)" if "j < N s" for j
      using that hit[OF that] bt[OF that] by (simp_all add: t'eq t1_def F)
    have GL: "label_V t' ! v = (v = i \<or> label_V t ! v)" if "v < N s" for v
      using that i F(11) by (auto simp: t'eq t1_def nth_list_update)
    have "roots_inv s (Suc i) t'"
      unfolding roots_inv_def
    proof (intro conjI allI impI)
      show "N t' = N s" "c t' = c s" "alpha t' = alpha s" "beta t' = beta s"
       "mate_V t' = mate_V s" "mate_U t' = mate_U s"
       "label_U t' = replicate (N s) False" "parent t' = replicate (N s) (-1)"
       "length (nhbor t') = N s" "length (slack t') = N s" "length (label_V t') = N s"
        by (rule G)+
    next
      fix v assume v: "v < N s"
      show "label_V t' ! v = (v < Suc i \<and> mate_V s ! v = - 1)"
        using GL[OF v] LV[OF v] True by (auto simp: less_Suc_eq)
    next
      fix u v assume u: "u < N s" and v: "v < N s" and l: "label_V t' ! v"
      show "slack t' ! u \<le> rc s v u"
      proof (cases "v = i")
        case True
        thus ?thesis using Gs[OF u] by (auto simp: hit_def)
      next
        case False
        hence "label_V t ! v" using l GL[OF v] by simp
        hence "slack t ! u \<le> rc s v u" using SL[OF u v] by simp
        thus ?thesis using Gs[OF u] by (auto simp: hit_def)
      qed
    next
      fix u assume u: "u < N s"
      show "nhbor t' ! u = - 1 \<and> slack t' ! u = LLONG_MAX \<or>
         0 \<le> nhbor t' ! u \<and> nat (nhbor t' ! u) < N s \<and> label_V t' ! nat (nhbor t' ! u) \<and>
         slack t' ! u = rc s (nat (nhbor t' ! u)) u"
      proof (cases "hit u")
        case True
        thus ?thesis using Gs[OF u] Gn[OF u] i GL[OF i] by simp
      next
        case False
        from NH[OF u] show ?thesis
        proof
          assume "nhbor t ! u = - 1 \<and> slack t ! u = LLONG_MAX"
          thus ?thesis using Gs[OF u] Gn[OF u] False by simp
        next
          assume a: "0 \<le> nhbor t ! u \<and> nat (nhbor t ! u) < N s \<and> label_V t ! nat (nhbor t ! u) \<and>
            slack t ! u = rc s (nat (nhbor t ! u)) u"
          hence "label_V t' ! nat (nhbor t ! u)" using GL[of "nat (nhbor t ! u)"] by simp
          thus ?thesis using Gs[OF u] Gn[OF u] False a by simp
        qed
      qed
    qed
    thus ?thesis using rs by simp
  qed
qed

lemma label_roots_inv:
  assumes b: "base_inv B s" and fr: "v0 < N s" "mate_V s ! v0 = -1"
  shows "search_inv B (label_roots (initialize_search s))"
    "same_problem s (label_roots (initialize_search s))"
proof -
  define s0 where "s0 = initialize_search s"
  define t where "t = label_roots s0"
  have N0: "N s0 = N s" by (simp add: s0_def initialize_search_def)
  have R0: "roots_inv s 0 s0"
    unfolding roots_inv_def by (simp add: s0_def initialize_search_def)
  have R: "roots_inv s (N s) t"
    unfolding t_def label_roots_def N0
    by (rule fold_upt_rule[where P = "roots_inv s"]) (use R0 root_step_inv[OF b] in auto)
  hence F: "N t = N s" "c t = c s" "alpha t = alpha s" "beta t = beta s"
     "mate_V t = mate_V s" "mate_U t = mate_U s"
     "label_U t = replicate (N s) False" "parent t = replicate (N s) (-1)"
     "length (nhbor t) = N s" "length (slack t) = N s" "length (label_V t) = N s"
    and LV: "\<And>v. v < N s \<Longrightarrow> label_V t ! v \<longleftrightarrow> mate_V s ! v = -1"
    and SL: "\<And>u v. u < N s \<Longrightarrow> v < N s \<Longrightarrow> label_V t ! v \<Longrightarrow> slack t ! u \<le> rc s v u"
    and NH: "\<And>u. u < N s \<Longrightarrow> (nhbor t ! u = -1 \<and> slack t ! u = LLONG_MAX) \<or>
         (0 \<le> nhbor t ! u \<and> nat (nhbor t ! u) < N s \<and> label_V t ! nat (nhbor t ! u) \<and>
          slack t ! u = rc s (nat (nhbor t ! u)) u)"
    unfolding roots_inv_def by auto
  note bD = base_invD[OF b]
  have bt: "base_inv B t" using b base_inv_cong[of t s B] F by simp
  have rct: "rc t v u = rc s v u" for v u by (simp add: rc_def F)
  have dst: "dims_search t" by (simp add: dims_search_def F)
  have lot: "labels_ok t"
    unfolding labels_ok_def F
  proof (intro conjI allI impI)
    fix u assume "u < N s" "replicate (N s) False ! u"
    thus "mate_U s ! u \<noteq> - 1" by simp
  next
    fix v assume v: "v < N s"
    show "label_V t ! v = (mate_V s ! v = - 1 \<or> replicate (N s) False ! nat (mate_V s ! v))"
    proof (cases "mate_V s ! v = -1")
      case True
      thus ?thesis using LV[OF v] by simp
    next
      case False
      thus ?thesis using LV[OF v] matchingV(2)[OF bD(8) v False] by simp
    qed
  qed
  have sot: "slack_ok t"
    unfolding slack_ok_def F in_range_def rct
  proof (intro allI impI)
    fix u assume u: "u < N s"
    have "label_V t ! v0" using LV[OF fr(1)] fr(2) by simp
    hence "slack t ! u \<le> rc s v0 u" using SL[OF u fr(1)] by simp
    hence "slack t ! u < LLONG_MAX" using rc_bounds(3)[OF b fr(1) u] bD(2) by linarith
    with NH[OF u] have "0 \<le> nhbor t ! u \<and> nat (nhbor t ! u) < N s \<and> label_V t ! nat (nhbor t ! u) \<and>
          slack t ! u = rc s (nat (nhbor t ! u)) u" by auto
    thus "(0 \<le> nhbor t ! u \<and> nhbor t ! u < int (N s)) \<and> label_V t ! nat (nhbor t ! u) \<and>
       slack t ! u = rc s (nat (nhbor t ! u)) u \<and>
       (\<forall>v<N s. label_V t ! v \<longrightarrow> slack t ! u \<le> rc s v u)"
      using SL[OF u] by auto
  qed
  have tdt: "todo t = matched_cols t" by (auto simp: todo_def matched_cols_def F)
  have trt: "tree_ok (\<lambda>_. 0) t"
    unfolding tree_ok_def tdt
  proof (intro allI impI conjI)
    fix v assume v: "v < N t" "label_V t ! v"
    hence "mate_V s ! v = -1" using LV[of v] by (simp add: F)
    thus "tree_row (\<lambda>_. 0) t v" using v by (simp add: tree_row_def F)
  qed simp
  show "search_inv B (label_roots (initialize_search s))"
    unfolding search_inv_def s0_def[symmetric] t_def[symmetric]
    using bt dst lot sot trt fr by (auto simp: F)
  show "same_problem s (label_roots (initialize_search s))"
    unfolding s0_def[symmetric] t_def[symmetric] by (simp add: same_problem_def F)
qed

subsection \<open>One phase and the driver\<close>

lemma found_aug_pre:
  assumes f: "found_inv B u s" and tr: "tree_ok rank s"
  shows "aug_pre rank (nat (nhbor s ! u)) u s"
proof -
  from f have b: "base_inv B s" and ds: "dims_search s" and u: "u < N s" "mate_U s ! u = -1"
    and nh: "0 \<le> nhbor s ! u" "nat (nhbor s ! u) < N s" "label_V s ! nat (nhbor s ! u)"
    and rc0: "rc s (nat (nhbor s ! u)) u = 0"
    unfolding found_inv_def in_range_def by auto
  note bD = base_invD[OF b]
  note dsD = dims_searchD[OF ds]
  show ?thesis
    unfolding aug_pre_def in_range_def
  proof (intro conjI allI impI)
    show "dims s" "length (parent s) = N s" "length (label_V s) = N s"
      "nat (nhbor s ! u) < N s" "u < N s" "label_V s ! nat (nhbor s ! u)" "tight s"
      "rc s (nat (nhbor s ! u)) u = 0"
      using bD dsD nh u rc0 by simp_all
  next
    fix r assume r: "r < N s" "mate_V s ! r \<noteq> -1"
    show "0 \<le> mate_V s ! r" "mate_V s ! r < int (N s)" "mate_U s ! nat (mate_V s ! r) = int r"
      using matchingV[OF bD(8) r] by auto
  next
    fix j assume j: "j < N s" "j \<noteq> u" "mate_U s ! j \<noteq> -1"
    show "0 \<le> mate_U s ! j" "mate_U s ! j < int (N s)" "mate_V s ! nat (mate_U s ! j) = int j"
      using matchingU[OF bD(8) j(1,3)] by auto
  next
    fix r assume r: "r < N s"
    show "mate_V s ! r \<noteq> int u"
    proof
      assume a: "mate_V s ! r = int u"
      hence "mate_U s ! nat (mate_V s ! r) = int r" using matchingV(3)[OF bD(8) r] by simp
      thus False using a u(2) by simp
    qed
  next
    fix r assume "r < N s" "label_V s ! r"
    thus "tree_row rank s r" using tree_okD(1)[OF tr] by simp
  qed
qed

lemma phase_inv_free_row:
  assumes "phase_inv B k s" "k < N s"
  shows "\<exists>v<N s. mate_V s ! v = -1"
proof -
  from assms have "0 < card (free_rows s)" by (simp add: phase_inv_def)
  hence "free_rows s \<noteq> {}" by auto
  thus ?thesis by (auto simp: free_rows_def)
qed

lemma phase_correct:
  assumes p: "phase_inv B k s" and k: "k < N s"
  shows "\<exists>s'. phase s = Some (Inr s') \<and> phase_inv B (Suc k) s' \<and> N s' = N s \<and> c s' = c s"
proof -
  from p have b: "base_inv B s" and cf: "card (free_rows s) = N s - k" by (simp_all add: phase_inv_def)
  from phase_inv_free_row[OF p k] obtain v0 where v0: "v0 < N s" "mate_V s ! v0 = -1" by blast
  define t where "t = label_roots (initialize_search s)"
  note T = label_roots_inv[OF b v0, folded t_def]
  from search_terminates[OF T(1)] obtain u s2 where
    se: "search_augmenting_alternating_path t = Some (Inr (u, s2))" and f: "found_inv B u s2"
    and sp: "same_problem t s2" by blast
  have sp2: "same_problem s s2" using same_problem_trans[OF T(2) sp] .
  hence F: "N s2 = N s" "c s2 = c s" "mate_V s2 = mate_V s" by (simp_all add: same_problem_def)
  from f obtain rank where tr: "tree_ok rank s2" by (auto simp: found_inv_def)
  from f have b2: "base_inv B s2" and nh: "0 \<le> nhbor s2 ! u" by (auto simp: found_inv_def in_range_def)
  note bD = base_invD[OF b2]
  from augment_correct[OF found_aug_pre[OF f tr]] nh obtain s' where
    au: "augment (nhbor s2 ! u) (int u) s2 = Some (Inr s')" and po: "aug_post s2 s'" by auto
  from po have G: "s' = s2\<lparr>mate_V := mate_V s', mate_U := mate_U s'\<rparr>"
    and len: "length (mate_V s') = N s" "length (mate_U s') = N s"
    and m': "matching s'" and t': "tight s'"
    and cf': "card (free_rows s') + 1 = card (free_rows s2)"
    and mono: "\<And>r. r < N s \<Longrightarrow> mate_V s' ! r = -1 \<Longrightarrow> mate_V s2 ! r = -1"
       "\<And>j. j < N s \<Longrightarrow> mate_U s' ! j = -1 \<Longrightarrow> mate_U s2 ! j = -1"
    unfolding aug_post_def F by auto
  have H: "N s' = N s" "c s' = c s" "alpha s' = alpha s2" "beta s' = beta s2"
    by (subst G, simp add: F)+
  have ph: "phase s = Some (Inr s')"
    by (simp add: phase_def t_def[symmetric] se au)
  have b': "base_inv B s'"
    unfolding base_inv_def
  proof (intro conjI)
    show "0 \<le> B" "3 * B < LLONG_MAX" using bD by simp_all
    show "dims s'" using bD(3) len by (simp add: dims_def H F)
    show "costs_ok B s'" using bD(4) by (simp add: costs_ok_def H F)
    show "feasible s'" using bD(5) by (simp add: feasible_def H F)
    show "duals_even s'" using bD(6) by (simp add: duals_even_def H F)
    show "duals_bounded B s'" using bD(7) by (simp add: duals_bounded_def H F)
    show "matching s'" "tight s'" by (rule m', rule t')
    show "free_nonneg s'"
      using bD(10) mono unfolding free_nonneg_def H F by blast
  qed
  have "free_rows s2 = free_rows s" by (simp add: free_rows_def F)
  hence "card (free_rows s') = N s - Suc k" using cf' cf by simp
  hence "phase_inv B (Suc k) s'" using b' k by (simp add: phase_inv_def H)
  thus ?thesis using ph H by blast
qed

lemma phases_correct:
  assumes "phase_inv B 0 s0" "k \<le> N s0"
  shows "\<exists>s. phases k s0 = Some (Inr s) \<and> phase_inv B k s \<and> N s = N s0 \<and> c s = c s0"
  using assms(2)
proof (induction k)
  case 0
  then show ?case using assms(1) by simp
next
  case (Suc k)
  then obtain s where s: "phases k s0 = Some (Inr s)" "phase_inv B k s" "N s = N s0" "c s = c s0"
    by auto
  have "k < N s" using Suc.prems s(3) by simp
  from phase_correct[OF s(2) this] obtain s' where
    "phase s = Some (Inr s')" "phase_inv B (Suc k) s'" "N s' = N s" "c s' = c s" by blast
  thus ?case using s by simp
qed

subsection \<open>Valid inputs and the bound on the doubled costs\<close>

lemma valid_inputD:
  assumes "valid_input n inp"
  shows "length inp = n" "\<And>v. v < n \<Longrightarrow> length (inp ! v) = n"
    "\<And>v u. v < n \<Longrightarrow> u < n \<Longrightarrow> 0 \<le> inp ! v ! u"
    "\<And>v u. v < n \<Longrightarrow> u < n \<Longrightarrow> 4 * (int n + 1) * (inp ! v ! u) \<le> LLONG_MAX"
proof -
  from assms show l: "length inp = n" by (simp add: valid_input_def)
  have row: "length (inp ! v) = n \<and> (\<forall>x\<in>set (inp ! v). 0 \<le> x \<and> 4 * (int n + 1) * x \<le> LLONG_MAX)"
    if "v < n" for v
    using assms that l unfolding valid_input_def by (metis nth_mem)
  show "length (inp ! v) = n" if "v < n" for v using row[OF that] by simp
  show "0 \<le> inp ! v ! u" if "v < n" "u < n" for v u
    using row[OF that(1)] that(2) by (metis nth_mem)
  show "4 * (int n + 1) * (inp ! v ! u) \<le> LLONG_MAX" if "v < n" "u < n" for v u
    using row[OF that(1)] that(2) by (metis nth_mem)
qed

lemma cost_bound_props:
  "0 \<le> cost_bound n" "3 * cost_bound n < LLONG_MAX" "2 * int n * cost_bound n \<le> LLONG_MAX"
  "even (cost_bound n)"
proof -
  define K where "K = LLONG_MAX div (4 * (int n + 1))"
  have K0: "0 \<le> K" unfolding K_def by (simp add: LLONG_MAX_def pos_imp_zdiv_nonneg_iff)
  have Km: "K * (4 * (int n + 1)) \<le> LLONG_MAX"
  proof -
    define d where "d = 4 * (int n + 1)"
    have d: "0 < d" by (simp add: d_def)
    have "LLONG_MAX = (LLONG_MAX div d) * d + LLONG_MAX mod d" by simp
    moreover have "0 \<le> LLONG_MAX mod d" using d by (rule pos_mod_sign)
    ultimately have "(LLONG_MAX div d) * d \<le> LLONG_MAX" by linarith
    thus ?thesis by (simp add: K_def d_def)
  qed
  have e: "cost_bound n = (if n = 0 then 0 else 2 * K)" by (simp add: cost_bound_def K_def)
  show "0 \<le> cost_bound n" "even (cost_bound n)" using K0 by (simp_all add: e)
  have nK: "int n * K \<le> int n * K" by simp
  show "2 * int n * cost_bound n \<le> LLONG_MAX"
  proof (cases "n = 0")
    case True
    thus ?thesis by (simp add: cost_bound_def LLONG_MAX_def)
  next
    case False
    have "2 * int n * (2 * K) = K * (4 * int n)" by simp
    also have "\<dots> \<le> K * (4 * (int n + 1))" using K0 by (intro mult_left_mono) simp_all
    finally show ?thesis using Km False by (simp add: e)
  qed
  show "3 * cost_bound n < LLONG_MAX"
  proof (cases "n = 0")
    case True
    thus ?thesis by (simp add: cost_bound_def LLONG_MAX_def)
  next
    case False
    hence "8 \<le> 4 * (int n + 1)" by simp
    hence "K * 8 \<le> K * (4 * (int n + 1))" using K0 by (intro mult_left_mono) simp_all
    hence "8 * K \<le> LLONG_MAX" using Km by simp
    moreover have "0 < LLONG_MAX" by (simp add: LLONG_MAX_def)
    ultimately have "6 * K < LLONG_MAX" using K0 by linarith
    thus ?thesis using False by (simp add: e)
  qed
qed

lemma cost_bound_entry:
  assumes "0 < n" "0 \<le> x" "4 * (int n + 1) * x \<le> LLONG_MAX"
  shows "2 * x \<le> cost_bound n"
proof -
  have "x * (4 * (int n + 1)) \<le> LLONG_MAX" using assms(3) by (simp add: mult.commute)
  hence "x * (4 * (int n + 1)) div (4 * (int n + 1)) \<le> LLONG_MAX div (4 * (int n + 1))"
    by (rule zdiv_mono1) simp
  hence "x \<le> LLONG_MAX div (4 * (int n + 1))" by simp
  thus ?thesis using assms(1) by (simp add: cost_bound_def)
qed

subsection \<open>Reading the input\<close>

lemma read_cell_inv:
  assumes vi: "valid_input n inp" and v: "v < n" and u: "u < n" and I: "input_inv n inp v u t"
  shows "input_inv n inp v (Suc u) (read_cell inp v u t)"
proof -
  from I have F: "N t = n" "length (c t) = n" "length (min_col t) = n"
    and rl: "\<And>r. r < n \<Longrightarrow> length (c t ! r) = n"
    and C: "\<And>r j. r < n \<Longrightarrow> j < n \<Longrightarrow> r < v \<or> r = v \<and> j < u \<Longrightarrow> c t ! r ! j = 2 * inp ! r ! j"
    and M1: "\<And>r j. r < n \<Longrightarrow> j < n \<Longrightarrow> r < v \<or> r = v \<and> j < u \<Longrightarrow> min_col t ! j \<le> 2 * inp ! r ! j"
    and M2: "\<And>j. j < n \<Longrightarrow> min_col t ! j = LLONG_MAX \<or>
         (\<exists>r<n. (r < v \<or> r = v \<and> j < u) \<and> min_col t ! j = 2 * inp ! r ! j)"
    unfolding input_inv_def by auto
  define x where "x = 2 * inp ! v ! u"
  have x0: "0 \<le> inp ! v ! u" using valid_inputD(3)[OF vi v u] .
  have "4 * (int n + 1) * (inp ! v ! u) \<le> LLONG_MAX" using valid_inputD(4)[OF vi v u] .
  moreover have "2 * inp ! v ! u \<le> 4 * (int n + 1) * (inp ! v ! u)"
    using x0 by (intro mult_right_mono) simp_all
  ultimately have "ll (inp ! v ! u * 2) = x"
    unfolding x_def using x0 by (subst ll_id_max) simp_all
  hence rc: "read_cell inp v u t =
    t\<lparr>c := (c t)[v := (c t ! v)[u := x]], min_col := (min_col t)[u := min (min_col t ! u) x]\<rparr>"
    using v u F rl[OF v] by (simp add: read_cell_def Let_def)
  define t' where "t' = read_cell inp v u t"
  have G: "N t' = n" "length (c t') = n" "length (min_col t') = n"
    by (simp_all add: t'_def rc F)
  have Gc: "c t' ! r ! j = (if r = v \<and> j = u then x else c t ! r ! j)" if "r < n" "j < n" for r j
    using that F rl[OF v] v u by (auto simp: t'_def rc nth_list_update)
  have Gl: "length (c t' ! r) = n" if "r < n" for r
    using that F rl v by (auto simp: t'_def rc nth_list_update)
  have Gm: "min_col t' ! j = (if j = u then min (min_col t ! u) x else min_col t ! j)" if "j < n" for j
    using that F u by (auto simp: t'_def rc nth_list_update)
  have "input_inv n inp v (Suc u) t'"
    unfolding input_inv_def
  proof (intro conjI allI impI)
    show "N t' = n" "length (c t') = n" "length (min_col t') = n" by (rule G)+
  next
    fix r assume "r < n" thus "length (c t' ! r) = n" by (rule Gl)
  next
    fix r j assume a: "r < n" "j < n" "r < v \<or> r = v \<and> j < Suc u"
    show "c t' ! r ! j = 2 * inp ! r ! j"
    proof (cases "r = v \<and> j = u")
      case True
      thus ?thesis using Gc[OF a(1,2)] by (simp add: x_def)
    next
      case False
      hence "r < v \<or> r = v \<and> j < u" using a(3) by auto
      thus ?thesis using Gc[OF a(1,2)] False C[OF a(1,2)] by simp
    qed
  next
    fix j r assume a: "j < n" "r < n" "r < v \<or> r = v \<and> j < Suc u"
    show "min_col t' ! j \<le> 2 * inp ! r ! j"
    proof (cases "r = v \<and> j = u")
      case True
      thus ?thesis using Gm[OF a(1)] by (simp add: x_def)
    next
      case False
      hence "r < v \<or> r = v \<and> j < u" using a(3) by auto
      hence "min_col t ! j \<le> 2 * inp ! r ! j" using M1[OF a(2,1)] by simp
      thus ?thesis using Gm[OF a(1)] by auto
    qed
  next
    fix j assume j: "j < n"
    show "min_col t' ! j = LLONG_MAX \<or>
         (\<exists>r<n. (r < v \<or> r = v \<and> j < Suc u) \<and> min_col t' ! j = 2 * inp ! r ! j)"
    proof (cases "j = u")
      case False
      thus ?thesis using Gm[OF j] M2[OF j] by auto
    next
      case True
      show ?thesis
      proof (cases "x \<le> min_col t ! u")
        case x: True
        hence "min_col t' ! j = 2 * inp ! v ! j" using Gm[OF j] True by (simp add: x_def min_def)
        thus ?thesis using v True by auto
      next
        case x: False
        hence "min_col t' ! j = min_col t ! j" using Gm[OF j] True by (simp add: min_def)
        thus ?thesis using M2[OF j] by auto
      qed
    qed
  qed
  thus ?thesis by (simp add: t'_def)
qed

lemma read_input_inv:
  assumes vi: "valid_input n inp"
  shows "input_inv n inp n 0 (read_input n inp)"
proof -
  define s0 where "s0 = empty_state\<lparr>N := n, c := replicate n (replicate n 0),
                          min_col := replicate n LLONG_MAX\<rparr>"
  have I0: "input_inv n inp 0 0 s0"
    by (simp add: input_inv_def s0_def)
  have row: "input_inv n inp (Suc v) 0 (fold (read_cell inp v) [0..<n] t)"
    if v: "v < n" and I: "input_inv n inp v 0 t" for v t
  proof -
    have "input_inv n inp v n (fold (read_cell inp v) [0..<n] t)"
      by (rule fold_upt_rule[where P = "input_inv n inp v"])
         (use I read_cell_inv[OF vi v] in auto)
    thus ?thesis unfolding input_inv_def by (auto simp: less_Suc_eq)
  qed
  have "input_inv n inp n 0 (fold (\<lambda>v. fold (read_cell inp v) [0..<n]) [0..<n] s0)"
    by (rule fold_upt_rule[where P = "\<lambda>v. input_inv n inp v 0"]) (use I0 row in auto)
  thus ?thesis by (simp add: read_input_def s0_def Let_def)
qed

lemma start_state_props:
  assumes vi: "valid_input n inp"
  shows "phase_inv (cost_bound n) 0 (start_state n inp)" "N (start_state n inp) = n"
    "\<And>v u. v < n \<Longrightarrow> u < n \<Longrightarrow> c (start_state n inp) ! v ! u = 2 * inp ! v ! u"
    "\<And>v. v < n \<Longrightarrow> alpha (start_state n inp) ! v = 0"
    "\<And>u. u < n \<Longrightarrow> \<exists>v<n. beta (start_state n inp) ! u = 2 * inp ! v ! u"
    "\<And>v u. v < n \<Longrightarrow> u < n \<Longrightarrow> beta (start_state n inp) ! u \<le> 2 * inp ! v ! u"
proof -
  define t where "t = read_input n inp"
  define s where "s = start_state n inp"
  define B where "B = cost_bound n"
  from read_input_inv[OF vi] have F: "N t = n" "length (c t) = n" "length (min_col t) = n"
    and rl: "\<And>r. r < n \<Longrightarrow> length (c t ! r) = n"
    and C: "\<And>r j. r < n \<Longrightarrow> j < n \<Longrightarrow> c t ! r ! j = 2 * inp ! r ! j"
    and M1: "\<And>r j. r < n \<Longrightarrow> j < n \<Longrightarrow> min_col t ! j \<le> 2 * inp ! r ! j"
    and M2: "\<And>j. j < n \<Longrightarrow> min_col t ! j = LLONG_MAX \<or>
         (\<exists>r<n. min_col t ! j = 2 * inp ! r ! j)"
    unfolding input_inv_def t_def by auto
  note Bp = cost_bound_props[of n, folded B_def]
  have cB: "0 \<le> 2 * inp ! v ! u" "2 * inp ! v ! u \<le> B" if "v < n" "u < n" for v u
  proof -
    have n: "0 < n" using that by simp
    show "0 \<le> 2 * inp ! v ! u" using valid_inputD(3)[OF vi that] by simp
    show "2 * inp ! v ! u \<le> B"
      unfolding B_def using cost_bound_entry[OF n valid_inputD(3)[OF vi that] valid_inputD(4)[OF vi that]] .
  qed
  have M3: "\<exists>r<n. min_col t ! j = 2 * inp ! r ! j" if j: "j < n" for j
  proof -
    have "min_col t ! j \<le> 2 * inp ! 0 ! j" using M1[of 0 j] j by simp
    moreover have "2 * inp ! 0 ! j \<le> B" using cB(2)[of 0 j] j by simp
    ultimately have "min_col t ! j \<noteq> LLONG_MAX" using Bp(1,2) by linarith
    thus ?thesis using M2[OF j] by simp
  qed
  have seq: "s = t\<lparr>mate_V := replicate n (-1), mate_U := replicate n (-1),
       alpha := replicate n 0, beta := min_col t\<rparr>"
    unfolding s_def start_state_def t_def[symmetric]
    using initialize_alpha_beta_closed[of t] F by simp
  have G: "N s = n" "c s = c t" "mate_V s = replicate n (-1)" "mate_U s = replicate n (-1)"
    "alpha s = replicate n 0" "beta s = min_col t"
    by (simp_all add: seq F)
  show "N (start_state n inp) = n" using G(1) by (simp add: s_def)
  show "c (start_state n inp) ! v ! u = 2 * inp ! v ! u" if "v < n" "u < n" for v u
    using C[OF that] by (simp add: s_def[symmetric] G)
  show "alpha (start_state n inp) ! v = 0" if "v < n" for v
    using that by (simp add: s_def[symmetric] G)
  show "\<exists>v<n. beta (start_state n inp) ! u = 2 * inp ! v ! u" if "u < n" for u
    using M3[OF that] by (simp add: s_def[symmetric] G)
  show "beta (start_state n inp) ! u \<le> 2 * inp ! v ! u" if "v < n" "u < n" for v u
    using M1[OF that] by (simp add: s_def[symmetric] G)
  have b: "base_inv B s"
    unfolding base_inv_def
  proof (intro conjI)
    show "0 \<le> B" "3 * B < LLONG_MAX" using Bp by simp_all
    show "dims s" using F rl by (simp add: dims_def G)
    show "costs_ok B s" using C cB by (simp add: costs_ok_def G)
    show "feasible s" using M1 C by (simp add: feasible_def G)
    show "duals_even s"
      unfolding duals_even_def G
    proof (intro allI impI)
      fix v u assume "v < n" "u < n"
      moreover from this M3[of u] obtain r where "min_col t ! u = 2 * inp ! r ! u" by blast
      ultimately show "even (replicate n 0 ! v + min_col t ! u)" by simp
    qed
    show "duals_bounded B s"
      unfolding duals_bounded_def G
    proof (intro allI impI)
      fix i assume i: "i < n"
      from M3[OF i] obtain r where r: "r < n" "min_col t ! i = 2 * inp ! r ! i" by blast
      show "- B \<le> replicate n 0 ! i \<and> replicate n 0 ! i \<le> B \<and> - B \<le> min_col t ! i \<and> min_col t ! i \<le> B"
        using i Bp(1) cB[OF r(1) i] r(2) by simp
    qed
    show "matching s" by (simp add: matching_def G)
    show "tight s" by (simp add: tight_def G)
    show "free_nonneg s"
      unfolding free_nonneg_def G
    proof (intro conjI allI impI)
      fix v assume "v < n" thus "0 \<le> replicate n (0::int) ! v" by simp
    next
      fix u assume u: "u < n"
      from M3[OF u] obtain r where r: "r < n" "min_col t ! u = 2 * inp ! r ! u" by blast
      show "0 \<le> min_col t ! u" using cB(1)[OF r(1) u] r(2) by simp
    qed
  qed
  have "free_rows s = {..<n}" by (auto simp: free_rows_def G)
  hence "phase_inv B 0 s" using b by (simp add: phase_inv_def G)
  thus "phase_inv (cost_bound n) 0 (start_state n inp)" by (simp add: B_def s_def)
qed

subsection \<open>The states of a run and the final matching\<close>

lemma search_state_inv:
  assumes vi: "valid_input n inp" and st: "search_state n inp s"
  shows "search_inv (cost_bound n) s \<and> N s = n \<and> c s = c (start_state n inp)"
  using st
proof (induction rule: search_state.induct)
  case (first_round i s)
  note S = start_state_props[OF vi]
  have "i \<le> N (start_state n inp)" using first_round(1) S(2) by simp
  from phases_correct[OF S(1) this] first_round(2)
  have p: "phase_inv (cost_bound n) i s" and F: "N s = n" "c s = c (start_state n inp)"
    using S(2) by auto
  from phase_inv_free_row[OF p] first_round(1) F obtain v0 where v0: "v0 < N s" "mate_V s ! v0 = -1"
    by auto
  from p have b: "base_inv (cost_bound n) s" by (simp add: phase_inv_def)
  note L = label_roots_inv[OF b v0]
  show ?case using L F by (simp add: same_problem_def)
next
  case (next_round s s')
  hence inv: "search_inv (cost_bound n) s" and F: "N s = n" "c s = c (start_state n inp)" by auto
  from search_round_inv[OF inv] next_round(2) have "search_inv (cost_bound n) s'" "same_problem s s'"
    by auto
  thus ?case using F by (simp add: same_problem_def)
qed

lemma tree_reaches_root:
  assumes tr: "tree_ok rank s" and v: "v < N s" "label_V s ! v"
  shows "\<exists>k\<le>rank v. reaches_root s (int v) k"
  using v
proof (induction "rank v" arbitrary: v rule: less_induct)
  case less
  note row = tree_okD(1)[OF tr less.prems]
  have ir: "in_range s (int v)" using less.prems(1) by (simp add: in_range_def)
  show ?case
  proof (cases "mate_V s ! v = -1")
    case True
    hence "parent s ! nat (int v) = -1" using tree_rowD(1)[OF row] by simp
    hence "reaches_root s (int v) 0" using ir by (rule reaches_root.root[rotated])
    thus ?thesis by blast
  next
    case False
    from tree_rowD(2)[OF row False] have p: "0 \<le> parent s ! v" "nat (parent s ! v) < N s"
      "label_V s ! nat (parent s ! v)" "rank (nat (parent s ! v)) < rank v" by auto
    from less.hyps[OF p(4) p(2,3)] obtain k where
      k: "k \<le> rank (nat (parent s ! v))" "reaches_root s (int (nat (parent s ! v))) k" by blast
    have pe: "int (nat (parent s ! v)) = parent s ! nat (int v)" using p(1) by simp
    have "parent s ! nat (int v) \<noteq> -1" using p(1) by simp
    hence "reaches_root s (int v) (Suc k)"
      using ir k(2) unfolding pe by (intro reaches_root.step) simp_all
    moreover have "Suc k \<le> rank v" using k(1) p(4) by simp
    ultimately show ?thesis by blast
  qed
qed

lemma tree_rank_less:
  assumes tr: "tree_ok rank s" and v: "v < N s" "label_V s ! v" and m: "matching s"
    and fr: "v0 < N s" "mate_V s ! v0 = -1"
  shows "rank v < N s"
  using tree_okD(2)[OF tr v] matched_cols_less[OF m fr] by simp

lemma all_matched:
  assumes p: "phase_inv B (N s) s"
  shows "\<forall>v<N s. mate_V s ! v \<noteq> -1" "\<forall>u<N s. mate_U s ! u \<noteq> -1"
proof -
  from p have m: "matching s" and c0: "card (free_rows s) = 0"
    by (simp_all add: phase_inv_def base_inv_def)
  have "finite (free_rows s)" by (simp add: free_rows_def)
  hence "free_rows s = {}" using c0 by simp
  thus a: "\<forall>v<N s. mate_V s ! v \<noteq> -1" by (auto simp: free_rows_def)
  have "card (matched_cols s) = N s"
    using card_free_rows[of s] matching_cards[OF m] c0 by simp
  moreover have "matched_cols s \<subseteq> {..<N s}" by (auto simp: matched_cols_def)
  ultimately have "matched_cols s = {..<N s}" by (intro card_subset_eq) simp_all
  thus "\<forall>u<N s. mate_U s ! u \<noteq> -1" by (auto simp: matched_cols_def)
qed

lemma final_perfect:
  assumes p: "phase_inv B (N s) s"
  shows "perfect_matching s" "bij_betw (\<lambda>v. nat (mate_V s ! v)) {..<N s} {..<N s}"
proof -
  from p have b: "base_inv B s" by (simp add: phase_inv_def)
  note bD = base_invD[OF b]
  note dD = dimsD[OF bD(3)]
  note am = all_matched[OF p]
  have mV: "0 \<le> mate_V s ! v" "nat (mate_V s ! v) < N s" "mate_U s ! nat (mate_V s ! v) = int v"
    if "v < N s" for v using matchingV[OF bD(8) that] am(1) that by auto
  have mU: "0 \<le> mate_U s ! u" "nat (mate_U s ! u) < N s" "mate_V s ! nat (mate_U s ! u) = int u"
    if "u < N s" for u using matchingU[OF bD(8) that] am(2) that by auto
  have dV: "distinct (mate_V s)"
    unfolding distinct_conv_nth dD
  proof (intro allI impI)
    fix i j assume i: "i < N s" and j: "j < N s" and ne: "i \<noteq> j"
    show "mate_V s ! i \<noteq> mate_V s ! j"
    proof
      assume e: "mate_V s ! i = mate_V s ! j"
      have "int i = mate_U s ! nat (mate_V s ! i)" using mV(3)[OF i] by simp
      also have "\<dots> = int j" using mV(3)[OF j] e by simp
      finally show False using ne by simp
    qed
  qed
  have dU: "distinct (mate_U s)"
    unfolding distinct_conv_nth dD
  proof (intro allI impI)
    fix i j assume i: "i < N s" and j: "j < N s" and ne: "i \<noteq> j"
    show "mate_U s ! i \<noteq> mate_U s ! j"
    proof
      assume e: "mate_U s ! i = mate_U s ! j"
      have "int i = mate_V s ! nat (mate_U s ! i)" using mU(3)[OF i] by simp
      also have "\<dots> = int j" using mU(3)[OF j] e by simp
      finally show False using ne by simp
    qed
  qed
  have sym: "mate_V s ! v = int u \<longleftrightarrow> mate_U s ! u = int v" if "v < N s" "u < N s" for v u
  proof
    assume "mate_V s ! v = int u" thus "mate_U s ! u = int v" using mV(3)[OF that(1)] by simp
  next
    assume "mate_U s ! u = int v" thus "mate_V s ! v = int u" using mU(3)[OF that(2)] by simp
  qed
  have rV: "in_range s (mate_V s ! v)" if "v < N s" for v
    using mV(1,2)[OF that] by (auto simp: in_range_def)
  have rU: "in_range s (mate_U s ! u)" if "u < N s" for u
    using mU(1,2)[OF that] by (auto simp: in_range_def)
  show "perfect_matching s"
    unfolding perfect_matching_def
    using dD(3,4) dV dU sym rV rU by simp
  have inj: "inj_on (\<lambda>v. nat (mate_V s ! v)) {..<N s}"
  proof (rule inj_onI)
    fix x y assume "x \<in> {..<N s}" "y \<in> {..<N s}" and e: "nat (mate_V s ! x) = nat (mate_V s ! y)"
    hence x: "x < N s" and y: "y < N s" by simp_all
    have "int x = mate_U s ! nat (mate_V s ! x)" using mV(3)[OF x] by simp
    also have "\<dots> = int y" using mV(3)[OF y] e by simp
    finally show "x = y" by simp
  qed
  moreover have "(\<lambda>v. nat (mate_V s ! v)) ` {..<N s} \<subseteq> {..<N s}" using mV(2) by auto
  ultimately have "(\<lambda>v. nat (mate_V s ! v)) ` {..<N s} = {..<N s}"
    by (intro endo_inj_surj) simp_all
  thus "bij_betw (\<lambda>v. nat (mate_V s ! v)) {..<N s} {..<N s}"
    using inj by (simp add: bij_betw_def)
qed

lemma dual_sum_le:
  assumes f: "feasible s" and b: "bij_betw tau {..<N s} {..<N s}"
  shows "(\<Sum>i<N s. alpha s ! i + beta s ! i) \<le> (\<Sum>v<N s. c s ! v ! tau v)"
proof -
  have tv: "tau v < N s" if "v < N s" for v using b that by (auto simp: bij_betw_def)
  have "(\<Sum>i<N s. alpha s ! i + beta s ! i) = (\<Sum>i<N s. alpha s ! i) + (\<Sum>u<N s. beta s ! u)"
    by (simp add: sum.distrib)
  also have "(\<Sum>u<N s. beta s ! u) = (\<Sum>v<N s. beta s ! tau v)"
    using sum.reindex_bij_betw[OF b, of "\<lambda>u. beta s ! u"] by simp
  also have "(\<Sum>i<N s. alpha s ! i) + (\<Sum>v<N s. beta s ! tau v) = (\<Sum>v<N s. alpha s ! v + beta s ! tau v)"
    by (simp add: sum.distrib)
  also have "\<dots> \<le> (\<Sum>v<N s. c s ! v ! tau v)"
    using feasibleD[OF f _ tv] by (intro sum_mono) simp
  finally show ?thesis .
qed

lemma dual_sum_eq:
  assumes t: "tight s" and b: "bij_betw (\<lambda>v. nat (mate_V s ! v)) {..<N s} {..<N s}"
    and am: "\<forall>v<N s. mate_V s ! v \<noteq> -1"
  shows "(\<Sum>i<N s. alpha s ! i + beta s ! i) = (\<Sum>v<N s. c s ! v ! nat (mate_V s ! v))"
proof -
  have "(\<Sum>i<N s. alpha s ! i + beta s ! i) = (\<Sum>i<N s. alpha s ! i) + (\<Sum>u<N s. beta s ! u)"
    by (simp add: sum.distrib)
  also have "(\<Sum>u<N s. beta s ! u) = (\<Sum>v<N s. beta s ! nat (mate_V s ! v))"
    using sum.reindex_bij_betw[OF b, of "\<lambda>u. beta s ! u"] by simp
  also have "(\<Sum>i<N s. alpha s ! i) + (\<Sum>v<N s. beta s ! nat (mate_V s ! v))
      = (\<Sum>v<N s. alpha s ! v + beta s ! nat (mate_V s ! v))"
    by (simp add: sum.distrib)
  also have "\<dots> = (\<Sum>v<N s. c s ! v ! nat (mate_V s ! v))"
    using t am by (intro sum.cong) (simp_all add: tight_def)
  finally show ?thesis .
qed

subsection \<open>The printed cost\<close>

lemma opt_cost_sum:
  assumes db: "duals_bounded B s" and B: "0 \<le> B" "2 * int (N s) * B \<le> LLONG_MAX"
  shows "opt_cost s = (\<Sum>i<N s. alpha s ! i + beta s ! i)"
proof -
  let ?P = "\<lambda>i acc. acc = (\<Sum>j<i. alpha s ! j + beta s ! j) \<and> \<bar>acc\<bar> \<le> int i * (2 * B)"
  have "?P (N s) (fold (\<lambda>i acc. ll (acc + ll (alpha s ! i + beta s ! i))) [0..<N s] 0)"
  proof (rule fold_upt_rule[where P = ?P])
    show "?P 0 0" by simp
  next
    fix i acc assume i: "i < N s" and a: "?P i acc"
    note d = duals_boundedD[OF db i]
    have t: "\<bar>alpha s ! i + beta s ! i\<bar> \<le> 2 * B" using d by linarith
    have "int (Suc i) * (2 * B) \<le> int (N s) * (2 * B)"
      using i B(1) by (intro mult_right_mono) simp_all
    hence lim: "int (Suc i) * (2 * B) \<le> LLONG_MAX" using B(2) by (simp add: mult.assoc)
    have "2 * B \<le> int (Suc i) * (2 * B)" using B(1) by (simp add: algebra_simps)
    hence 1: "ll (alpha s ! i + beta s ! i) = alpha s ! i + beta s ! i"
      using t lim by (intro ll_id_max) linarith+
    have s: "\<bar>acc + (alpha s ! i + beta s ! i)\<bar> \<le> int (Suc i) * (2 * B)"
      using a t by (simp add: algebra_simps) linarith
    hence 2: "ll (acc + (alpha s ! i + beta s ! i)) = acc + (alpha s ! i + beta s ! i)"
      using lim by (intro ll_id_max) linarith+
    show "?P (Suc i) (ll (acc + ll (alpha s ! i + beta s ! i)))"
      unfolding 1 2 using a s by simp
  qed
  thus ?thesis by (simp add: opt_cost_def)
qed

lemma run_correct:
  assumes vi: "valid_input n inp"
  shows "\<exists>s. hungarian_algorithm (read_input n inp) = Some (Inr s) \<and>
     phase_inv (cost_bound n) n s \<and> N s = n \<and> (\<forall>v<n. \<forall>u<n. c s ! v ! u = 2 * inp ! v ! u)"
proof -
  note S = start_state_props[OF vi]
  have Nr: "N (read_input n inp) = n" using read_input_inv[OF vi] by (simp add: input_inv_def)
  have "n \<le> N (start_state n inp)" using S(2) by simp
  from phases_correct[OF S(1) this] obtain s where
    s: "phases n (start_state n inp) = Some (Inr s)" "phase_inv (cost_bound n) n s"
      "N s = N (start_state n inp)" "c s = c (start_state n inp)" by blast
  have "hungarian_algorithm (read_input n inp) = Some (Inr s)"
    using s(1) by (simp add: hungarian_algorithm_def Nr start_state_def)
  thus ?thesis using s S(2,3) by auto
qed

lemma final_cost:
  assumes vi: "valid_input n inp" and p: "phase_inv (cost_bound n) n s" and Ns: "N s = n"
    and cs: "\<forall>v<n. \<forall>u<n. c s ! v ! u = 2 * inp ! v ! u"
  shows "opt_cost s = 2 * assignment_cost n inp (\<lambda>v. nat (mate_V s ! v))"
    "(\<Sum>v<n. c s ! v ! nat (mate_V s ! v)) = 2 * assignment_cost n inp (\<lambda>v. nat (mate_V s ! v))"
    "0 \<le> assignment_cost n inp (\<lambda>v. nat (mate_V s ! v))"
    "optimal_cost n inp (assignment_cost n inp (\<lambda>v. nat (mate_V s ! v)))"
proof -
  let ?sg = "\<lambda>v. nat (mate_V s ! v)"
  from p have b: "base_inv (cost_bound n) s" by (simp add: phase_inv_def)
  note bD = base_invD[OF b]
  have pN: "phase_inv (cost_bound n) (N s) s" using p Ns by simp
  note fp = final_perfect[OF pN]
  note am = all_matched[OF pN]
  have sg: "?sg v < n" if "v < n" for v using fp(2) that Ns by (auto simp: bij_betw_def)
  have oc: "opt_cost s = (\<Sum>i<N s. alpha s ! i + beta s ! i)"
    using opt_cost_sum[OF bD(7) cost_bound_props(1)] cost_bound_props(3)[of n] Ns by simp
  have ds: "(\<Sum>i<N s. alpha s ! i + beta s ! i) = (\<Sum>v<N s. c s ! v ! ?sg v)"
    using dual_sum_eq[OF bD(9) fp(2) am(1)] .
  have cs2: "(\<Sum>v<n. c s ! v ! tau v) = 2 * assignment_cost n inp tau"
    if "\<And>v. v < n \<Longrightarrow> tau v < n" for tau
  proof -
    have "(\<Sum>v<n. c s ! v ! tau v) = (\<Sum>v<n. 2 * inp ! v ! tau v)"
      using cs that by (intro sum.cong) simp_all
    thus ?thesis by (simp add: assignment_cost_def sum_distrib_left)
  qed
  show 2: "(\<Sum>v<n. c s ! v ! ?sg v) = 2 * assignment_cost n inp ?sg"
    using cs2[of ?sg] sg by simp
  show 1: "opt_cost s = 2 * assignment_cost n inp ?sg"
    using oc ds 2 Ns by simp
  have "0 \<le> inp ! v ! ?sg v" if "v < n" for v
    using valid_inputD(3)[OF vi that sg[OF that]] .
  thus "0 \<le> assignment_cost n inp ?sg"
    unfolding assignment_cost_def by (intro sum_nonneg) simp
  show "optimal_cost n inp (assignment_cost n inp ?sg)"
    unfolding optimal_cost_def is_assignment_def
  proof (intro conjI exI[of _ ?sg] allI impI)
    show "bij_betw ?sg {..<n} {..<n}" using fp(2) Ns by simp
    show "assignment_cost n inp ?sg = assignment_cost n inp ?sg" ..
  next
    fix tau assume bt: "bij_betw tau {..<n} {..<n}"
    hence tv: "tau v < n" if "v < n" for v using that by (auto simp: bij_betw_def)
    have "(\<Sum>i<N s. alpha s ! i + beta s ! i) \<le> (\<Sum>v<N s. c s ! v ! tau v)"
      using dual_sum_le[OF bD(5)] bt Ns by simp
    hence "2 * assignment_cost n inp ?sg \<le> 2 * assignment_cost n inp tau"
      using ds 2 cs2[of tau] tv Ns by simp
    thus "assignment_cost n inp ?sg \<le> assignment_cost n inp tau" by simp
  qed
qed

lemma main_cost_correct:
  assumes vi: "valid_input n inp"
  shows "\<exists>x. main_cost n inp = Some (Inr x) \<and> optimal_cost n inp x"
proof -
  from run_correct[OF vi] obtain s where
    s: "hungarian_algorithm (read_input n inp) = Some (Inr s)" "phase_inv (cost_bound n) n s"
      "N s = n" "\<forall>v<n. \<forall>u<n. c s ! v ! u = 2 * inp ! v ! u" by blast
  note fc = final_cost[OF vi s(2,3,4)]
  have "ll_div (opt_cost s) 2 = assignment_cost n inp (\<lambda>v. nat (mate_V s ! v))"
    using fc(1,3) by (simp add: ll_div_2)
  hence "main_cost n inp = Some (Inr (assignment_cost n inp (\<lambda>v. nat (mate_V s ! v))))"
    by (simp add: main_cost_def s(1))
  thus ?thesis using fc(4) by blast
qed

subsection \<open>Phases of a run on a valid input\<close>

lemma phases_props:
  assumes vi: "valid_input n inp" and k: "k \<le> n"
  shows "\<exists>s. phases k (start_state n inp) = Some (Inr s) \<and> phase_inv (cost_bound n) k s \<and>
     N s = n \<and> (\<forall>v<n. \<forall>u<n. c s ! v ! u = 2 * inp ! v ! u)"
proof -
  note S = start_state_props[OF vi]
  have "k \<le> N (start_state n inp)" using k S(2) by simp
  from phases_correct[OF S(1) this] obtain s where
    s: "phases k (start_state n inp) = Some (Inr s)" "phase_inv (cost_bound n) k s"
      "N s = N (start_state n inp)" "c s = c (start_state n inp)" by blast
  thus ?thesis using S(2,3) by auto
qed

lemma search_state_costs:
  assumes vi: "valid_input n inp" and st: "search_state n inp s"
  shows "\<forall>v<n. \<forall>u<n. c s ! v ! u = 2 * inp ! v ! u"
  using search_state_inv[OF vi st] start_state_props(3)[OF vi] by simp

lemma search_state_shift:
  assumes vi: "valid_input n inp" and st: "search_state n inp s"
  shows "base_inv (cost_bound n) (snd (update_alpha_beta s))"
    "2 * fst (update_alpha_beta s) = min_slack s" "0 \<le> fst (update_alpha_beta s)"
    "\<forall>u<n. \<not> label_U s ! u \<longrightarrow> 2 * fst (update_alpha_beta s) \<le> slack s ! u"
    "shifted (fst (update_alpha_beta s)) s (snd (update_alpha_beta s))"
proof -
  from search_state_inv[OF vi st] have inv: "search_inv (cost_bound n) s" and Ns: "N s = n" by auto
  from update_alpha_beta_shifted[OF inv] obtain theta s1 where
    ua: "update_alpha_beta s = (theta, s1)" and sh: "shifted theta s s1" and t0: "0 \<le> theta"
    and t2: "2 * theta = min_slack s"
    and le: "\<forall>u<N s. \<not> label_U s ! u \<longrightarrow> 2 * theta \<le> slack s ! u"
    by blast
  note I = shifted_inv[OF inv sh t0 le]
  show "base_inv (cost_bound n) (snd (update_alpha_beta s))" using I(1) by (simp add: ua)
  show "2 * fst (update_alpha_beta s) = min_slack s" "0 \<le> fst (update_alpha_beta s)"
    using t2 t0 by (simp_all add: ua)
  show "\<forall>u<n. \<not> label_U s ! u \<longrightarrow> 2 * fst (update_alpha_beta s) \<le> slack s ! u"
    using le Ns by (simp add: ua)
  show "shifted (fst (update_alpha_beta s)) s (snd (update_alpha_beta s))"
    using sh by (simp add: ua)
qed

lemma valid_example: "valid_input 2 [[1, 2], [3, 1]]"
  by (simp add: valid_input_def LLONG_MAX_def)

subsection \<open>The other two formulations\<close>

lemma search_round_scan:
  "search_round s =
     (case scan_round s of
        Inl (u, s2) \<Rightarrow> Inr (Found u s2)
      | Inr (adm, s2) \<Rightarrow>
          (case label_admissibles adm s2 of Inl e \<Rightarrow> Inl e | Inr s3 \<Rightarrow> Inr (Again s3)))"
  by (simp add: search_round_def scan_round_def split: prod.splits)

lemma search_p2_scan:
  "search_p2 s =
     (case scan_round s of
        Inl (u, s2) \<Rightarrow> augment (nhbor s2 ! u) (int u) s2
      | Inr (adm, s2) \<Rightarrow>
          (case label_admissibles adm s2 of Inl e \<Rightarrow> Some (Inl e) | Inr s3 \<Rightarrow> search_p2 s3))"
  by (subst search_p2.simps) (simp add: scan_round_def split: prod.splits)

lemma scan_round_inv:
  assumes inv: "search_inv B s"
  shows "case scan_round s of
           Inl (u, s2) \<Rightarrow> found_inv B u s2 \<and> same_problem s s2
         | Inr (adm, s2) \<Rightarrow> search_inv B s2 \<and> same_problem s s2 \<and> adm \<noteq> [] \<and> distinct adm \<and>
             (\<forall>u\<in>set adm. u < N s2 \<and> \<not> label_U s2 ! u \<and> slack s2 ! u = 0 \<and> mate_U s2 ! u \<noteq> -1) \<and>
             todo s2 = todo s"
proof -
  obtain theta s1 where ua: "update_alpha_beta s = (theta, s1)" by (cases "update_alpha_beta s")
  show ?thesis using scan_inv[OF inv ua] by (simp add: scan_round_def ua)
qed

lemma search_round_Found:
  assumes "search_round s = Inr (Found u s2)"
  shows "scan_round s = Inl (u, s2)"
  using assms unfolding search_round_scan
  by (auto split: sum.splits prod.splits)

lemma search_round_Again:
  assumes "search_round s = Inr (Again s3)"
  shows "\<exists>adm s2. scan_round s = Inr (adm, s2) \<and> label_admissibles adm s2 = Inr s3"
  using assms unfolding search_round_scan
  by (auto split: sum.splits prod.splits)

lemma search_p2_eq:
  assumes "search_inv B s"
  shows "\<exists>u s2. search_augmenting_alternating_path s = Some (Inr (u, s2)) \<and>
     search_p2 s = augment (nhbor s2 ! u) (int u) s2"
  using assms
proof (induction "card (todo s)" arbitrary: s rule: less_induct)
  case less
  from search_round_inv[OF less.prems] show ?case
  proof (elim disjE exE conjE)
    fix u s2 assume r: "search_round s = Inr (Found u s2)"
    have "search_augmenting_alternating_path s = Some (Inr (u, s2))"
      by (subst search_augmenting_alternating_path.simps) (simp add: r)
    moreover have "search_p2 s = augment (nhbor s2 ! u) (int u) s2"
      by (subst search_p2_scan) (simp add: search_round_Found[OF r])
    ultimately show ?thesis by blast
  next
    fix s3 assume r: "search_round s = Inr (Again s3)" and i3: "search_inv B s3"
      and c: "card (todo s3) < card (todo s)"
    from less.hyps[OF c i3] obtain u s2 where
      ih: "search_augmenting_alternating_path s3 = Some (Inr (u, s2))"
        "search_p2 s3 = augment (nhbor s2 ! u) (int u) s2" by blast
    from search_round_Again[OF r] obtain adm t where
      sc: "scan_round s = Inr (adm, t)" "label_admissibles adm t = Inr s3" by blast
    have "search_augmenting_alternating_path s = Some (Inr (u, s2))"
      by (subst search_augmenting_alternating_path.simps) (simp add: r ih(1))
    moreover have "search_p2 s = augment (nhbor s2 ! u) (int u) s2"
      by (subst search_p2_scan) (simp add: sc ih(2))
    ultimately show ?thesis by blast
  qed
qed

lemma phase_p2_eq:
  assumes p: "phase_inv B k s" and k: "k < N s"
  shows "phase_p2 s = phase s"
proof -
  from p have b: "base_inv B s" by (simp add: phase_inv_def)
  from phase_inv_free_row[OF p k] obtain v0 where v0: "v0 < N s" "mate_V s ! v0 = -1" by blast
  note T = label_roots_inv[OF b v0]
  from search_p2_eq[OF T(1)] show ?thesis by (auto simp: phase_p2_def phase_def)
qed

lemma phases_p2_eq:
  assumes "phase_inv B 0 s0" "k \<le> N s0"
  shows "phases_p2 k s0 = phases k s0"
  using assms(2)
proof (induction k)
  case 0
  then show ?case by simp
next
  case (Suc k)
  hence e: "phases_p2 k s0 = phases k s0" by simp
  from phases_correct[OF assms(1), of k] Suc.prems obtain s where
    s: "phases k s0 = Some (Inr s)" "phase_inv B k s" "N s = N s0" by auto
  have "k < N s" using Suc.prems s(3) by simp
  from phase_p2_eq[OF s(2) this] show ?case by (simp add: e s(1))
qed

lemma main_cost_p2_eq:
  assumes vi: "valid_input n inp"
  shows "main_cost_p2 n inp = main_cost n inp"
proof -
  note S = start_state_props[OF vi]
  have Nr: "N (read_input n inp) = n" using read_input_inv[OF vi] by (simp add: input_inv_def)
  have "phases_p2 n (start_state n inp) = phases n (start_state n inp)"
    using phases_p2_eq[OF S(1)] S(2) by simp
  thus ?thesis
    by (simp add: main_cost_p2_def main_cost_def hungarian_algorithm_p2_def hungarian_algorithm_def
        Nr start_state_def)
qed

lemma label_order:
  "s\<lparr>label_V := a, label_U := b, parent := p\<rparr> = s\<lparr>label_U := b, label_V := a, parent := p\<rparr>"
  by (rule state.equality) simp_all

lemma label_admissibles_p1_eq: "label_admissibles_p1 us s = label_admissibles us s"
  by (induction us arbitrary: s) (simp_all add: Let_def label_order)

lemma shift_p1_eq:
  assumes inv: "search_inv B s"
  shows "shift_p1 s = update_alpha_beta s"
proof -
  from update_alpha_beta_shifted[OF inv] obtain theta where
    t: "0 \<le> theta" "2 * theta = min_slack s" by blast
  show ?thesis
  proof (cases "min_slack s > 0")
    case True
    have ms: "min_slack s = 2 * theta" using t(2) by simp
    have "ll_div (min_slack s) 2 = theta" unfolding ms using t(1) by (simp add: ll_div_2)
    moreover have "theta > 0" using True ms by simp
    ultimately show ?thesis using True by (simp add: shift_p1_def update_alpha_beta_def Let_def)
  next
    case False
    hence "min_slack s = 0" using t by simp
    thus ?thesis by (simp add: shift_p1_def update_alpha_beta_def Let_def ll_div_def)
  qed
qed

lemma search_loop_p1_scan:
  assumes "search_inv B s"
  shows "search_loop_p1 (Suc i) s =
     (case scan_round s of
        Inl (u, s2) \<Rightarrow>
          (case augment (nhbor s2 ! u) (int u) s2 of
             None \<Rightarrow> None
           | Some (Inl e) \<Rightarrow> Some (Inl e)
           | Some (Inr s3) \<Rightarrow> Some (Inr (True, s3)))
      | Inr (adm, s2) \<Rightarrow>
          (case label_admissibles adm s2 of Inl e \<Rightarrow> Some (Inl e) | Inr s3 \<Rightarrow> search_loop_p1 i s3))"
  by (simp add: shift_p1_eq[OF assms] scan_round_def label_admissibles_p1_eq
      split: prod.splits sum.splits)

lemma search_loop_p1_eq:
  assumes "search_inv B s" "card (todo s) < k"
  shows "\<exists>u s2. search_augmenting_alternating_path s = Some (Inr (u, s2)) \<and>
     search_loop_p1 k s =
       (case augment (nhbor s2 ! u) (int u) s2 of
          None \<Rightarrow> None
        | Some (Inl e) \<Rightarrow> Some (Inl e)
        | Some (Inr s3) \<Rightarrow> Some (Inr (True, s3)))"
  using assms
proof (induction k arbitrary: s)
  case 0
  then show ?case by simp
next
  case (Suc k)
  from search_round_inv[OF Suc.prems(1)] show ?case
  proof (elim disjE exE conjE)
    fix u s2 assume r: "search_round s = Inr (Found u s2)"
    have "search_augmenting_alternating_path s = Some (Inr (u, s2))"
      by (subst search_augmenting_alternating_path.simps) (simp add: r)
    moreover have "search_loop_p1 (Suc k) s =
       (case augment (nhbor s2 ! u) (int u) s2 of
          None \<Rightarrow> None
        | Some (Inl e) \<Rightarrow> Some (Inl e)
        | Some (Inr s3) \<Rightarrow> Some (Inr (True, s3)))"
      unfolding search_loop_p1_scan[OF Suc.prems(1)] by (simp add: search_round_Found[OF r])
    ultimately show ?thesis by blast
  next
    fix s3 assume r: "search_round s = Inr (Again s3)" and i3: "search_inv B s3"
      and c: "card (todo s3) < card (todo s)"
    have "card (todo s3) < k" using c Suc.prems(2) by simp
    from Suc.IH[OF i3 this] obtain u s2 where
      ih: "search_augmenting_alternating_path s3 = Some (Inr (u, s2))"
        "search_loop_p1 k s3 =
       (case augment (nhbor s2 ! u) (int u) s2 of
          None \<Rightarrow> None
        | Some (Inl e) \<Rightarrow> Some (Inl e)
        | Some (Inr s3) \<Rightarrow> Some (Inr (True, s3)))" by blast
    from search_round_Again[OF r] obtain adm t where
      sc: "scan_round s = Inr (adm, t)" "label_admissibles adm t = Inr s3" by blast
    have "search_augmenting_alternating_path s = Some (Inr (u, s2))"
      by (subst search_augmenting_alternating_path.simps) (simp add: r ih(1))
    moreover have "search_loop_p1 (Suc k) s = search_loop_p1 k s3"
      unfolding search_loop_p1_scan[OF Suc.prems(1)] by (simp add: sc)
    ultimately show ?thesis using ih(2) by auto
  qed
qed

lemma phase_p1_eq:
  assumes p: "phase_inv B k s" and k: "k < N s"
  shows "phase_p1 s = phase s"
    "\<exists>s'. search_p1 (label_roots (initialize_search s)) = Some (Inr (True, s'))"
proof -
  from p have b: "base_inv B s" by (simp add: phase_inv_def)
  from phase_inv_free_row[OF p k] obtain v0 where v0: "v0 < N s" "mate_V s ! v0 = -1" by blast
  define t where "t = label_roots (initialize_search s)"
  note T = label_roots_inv[OF b v0, folded t_def]
  have Nt: "N t = N s" using T(2) by (simp add: same_problem_def)
  from search_loop_p1_eq[OF T(1) todo_less[OF T(1)]] obtain u s2 where
    e: "search_augmenting_alternating_path t = Some (Inr (u, s2))"
      "search_loop_p1 (N t) t =
       (case augment (nhbor s2 ! u) (int u) s2 of
          None \<Rightarrow> None
        | Some (Inl e) \<Rightarrow> Some (Inl e)
        | Some (Inr s3) \<Rightarrow> Some (Inr (True, s3)))" by blast
  from phase_correct[OF p k] obtain s' where s': "phase s = Some (Inr s')" by blast
  hence au: "augment (nhbor s2 ! u) (int u) s2 = Some (Inr s')"
    by (simp add: phase_def t_def[symmetric] e(1))
  have sp: "search_p1 t = Some (Inr (True, s'))" using e(2) au by (simp add: search_p1_def)
  show "phase_p1 s = phase s" using sp s' by (simp add: phase_p1_def t_def[symmetric])
  show "\<exists>s'. search_p1 (label_roots (initialize_search s)) = Some (Inr (True, s'))"
    using sp by (auto simp: t_def)
qed

lemma phases_p1_eq:
  assumes "phase_inv B 0 s0" "k \<le> N s0"
  shows "phases_p1 k s0 = phases k s0"
  using assms(2)
proof (induction k)
  case 0
  then show ?case by simp
next
  case (Suc k)
  hence e: "phases_p1 k s0 = phases k s0" by simp
  from phases_correct[OF assms(1), of k] Suc.prems obtain s where
    s: "phases k s0 = Some (Inr s)" "phase_inv B k s" "N s = N s0" by auto
  have "k < N s" using Suc.prems s(3) by simp
  from phase_p1_eq(1)[OF s(2) this] show ?case by (simp add: e s(1))
qed

lemma min_cost_p1_sum:
  assumes co: "costs_ok B s" and B: "0 \<le> B" "int (N s) * B \<le> LLONG_MAX"
    and m: "\<forall>v<N s. in_range s (mate_V s ! v)"
  shows "min_cost_p1 [0..<N s] 0 s = Inr (\<Sum>v<N s. c s ! v ! nat (mate_V s ! v))"
proof -
  have "k \<le> N s \<Longrightarrow> 0 \<le> acc \<Longrightarrow> acc + int k * B \<le> LLONG_MAX \<Longrightarrow>
     min_cost_p1 [N s - k..<N s] acc s = Inr (acc + (\<Sum>v=N s - k..<N s. c s ! v ! nat (mate_V s ! v)))"
    for k acc
  proof (induction k arbitrary: acc)
    case 0
    then show ?case by simp
  next
    case (Suc k)
    define v where "v = N s - Suc k"
    have v: "v < N s" "N s - k = Suc v" using Suc.prems(1) by (simp_all add: v_def)
    have ir: "in_range s (mate_V s ! v)" using m v(1) by simp
    hence u: "nat (mate_V s ! v) < N s" by (auto simp: in_range_def)
    note cc = costs_okD(1,2)[OF co v(1) u]
    define x where "x = c s ! v ! nat (mate_V s ! v)"
    have "int (Suc k) * B = int k * B + B" by (simp add: algebra_simps)
    hence lim: "acc + x + int k * B \<le> LLONG_MAX" using Suc.prems(3) cc by (simp add: x_def)
    have kb: "0 \<le> int k * B" using B(1) by simp
    have x0: "0 \<le> x" using cc by (simp add: x_def)
    have 1: "ll (acc + x) = acc + x" using lim Suc.prems(2) x0 kb
      by (intro ll_id_max) linarith+
    have upt: "[v..<N s] = v # [Suc v..<N s]" using v(1) by (simp add: upt_conv_Cons)
    have "min_cost_p1 [v..<N s] acc s = min_cost_p1 [Suc v..<N s] (acc + x) s"
      unfolding upt using ir 1 by (simp add: x_def)
    also have "\<dots> = Inr (acc + x + (\<Sum>v=Suc v..<N s. c s ! v ! nat (mate_V s ! v)))"
      using Suc.IH[of "acc + x"] Suc.prems(1,2) lim cc v(2) by (simp add: x_def)
    also have "acc + x + (\<Sum>v=Suc v..<N s. c s ! v ! nat (mate_V s ! v))
        = acc + (\<Sum>v=v..<N s. c s ! v ! nat (mate_V s ! v))"
      using v(1) by (simp add: sum.atLeast_Suc_lessThan x_def)
    finally show ?case by (simp add: v_def)
  qed
  from this[of "N s" 0] B show ?thesis by (simp add: lessThan_atLeast0)
qed

lemma main_p1_eq:
  assumes vi: "valid_input n inp"
  shows "main_p1 n inp = main_cost n inp"
proof -
  note S = start_state_props[OF vi]
  from run_correct[OF vi] obtain s where
    s: "hungarian_algorithm (read_input n inp) = Some (Inr s)" "phase_inv (cost_bound n) n s"
      "N s = n" "\<forall>v<n. \<forall>u<n. c s ! v ! u = 2 * inp ! v ! u" by blast
  have Nr: "N (read_input n inp) = n" using read_input_inv[OF vi] by (simp add: input_inv_def)
  have ph: "phases n (start_state n inp) = Some (Inr s)"
    using s(1) by (simp add: hungarian_algorithm_def Nr start_state_def)
  have p1: "phases_p1 n (start_state n inp) = Some (Inr s)"
    using phases_p1_eq[OF S(1)] S(2) ph by simp
  note fc = final_cost[OF vi s(2,3,4)]
  from s(2) have b: "base_inv (cost_bound n) s" by (simp add: phase_inv_def)
  note bD = base_invD[OF b]
  have pN: "phase_inv (cost_bound n) (N s) s" using s(2,3) by simp
  have pm: "perfect_matching s" using final_perfect(1)[OF pN] .
  hence ir: "\<forall>v<N s. in_range s (mate_V s ! v)" by (simp add: perfect_matching_def)
  have "int n * cost_bound n \<le> 2 * int n * cost_bound n"
    using cost_bound_props(1)[of n] by (simp add: mult_nonneg_nonneg)
  hence lim: "int (N s) * cost_bound n \<le> LLONG_MAX"
    using cost_bound_props(3)[of n] s(3) by simp
  have mc: "min_cost_p1 [0..<N s] 0 s = Inr (2 * assignment_cost n inp (\<lambda>v. nat (mate_V s ! v)))"
    using min_cost_p1_sum[OF bD(4) cost_bound_props(1) lim ir] fc(2) s(3) by simp
  have "main_p1 n inp = Some (Inr (assignment_cost n inp (\<lambda>v. nat (mate_V s ! v))))"
    using fc(3) by (simp add: main_p1_def start_state_def[symmetric] p1 mc ll_div_2)
  moreover have "main_cost n inp = Some (Inr (assignment_cost n inp (\<lambda>v. nat (mate_V s ! v))))"
    using fc(1,3) by (simp add: main_cost_def s(1) ll_div_2)
  ultimately show ?thesis by simp
qed

subsection \<open>An input that overflows\<close>

lemma search_not_stuck:
  assumes "search_round t = Inr (Again t)" and "search_augmenting_alternating_path x = Some z"
  shows "x \<noteq> t"
proof (rule search_augmenting_alternating_path.raw_induct[where P = "\<lambda>x _. x \<noteq> t", OF _ assms(2)])
  fix f :: "state \<Rightarrow> (error + nat \<times> state) option" and x y
  assume IH: "\<And>x y. f x = Some y \<Longrightarrow> x \<noteq> t"
    and st: "(case search_round x of Inl e \<Rightarrow> Some (Inl e)
              | Inr (Found u s2) \<Rightarrow> Some (Inr (u, s2))
              | Inr (Again s3) \<Rightarrow> f s3) = Some y"
  show "x \<noteq> t"
  proof
    assume "x = t"
    with st assms(1) have "f t = Some y" by simp
    from IH[OF this] show False by simp
  qed
qed

lemma search_stuck:
  assumes "search_round t = Inr (Again t)"
  shows "search_augmenting_alternating_path t = None"
proof (cases "search_augmenting_alternating_path t")
  case None
  then show ?thesis .
next
  case (Some z)
  from search_not_stuck[OF assms Some] show ?thesis by simp
qed

lemma overflow_run1: "phases (Suc 0) (start_state 2 overflow_input) = Some (Inr overflow_phase1)"
  by code_simp

lemma overflow_round1:
  "search_round (label_roots (initialize_search overflow_phase1)) = Inr (Again overflow_stuck)"
  by code_simp

lemma overflow_round2: "search_round overflow_stuck = Inr (Again overflow_stuck)"
  by code_simp

lemma overflow_search:
  "search_augmenting_alternating_path (label_roots (initialize_search overflow_phase1)) = None"
  by (subst search_augmenting_alternating_path.simps)
     (simp add: overflow_round1 search_stuck[OF overflow_round2])

lemma overflow_phases2: "phases 2 (start_state 2 overflow_input) = None"
proof -
  have "phases (Suc (Suc 0)) (start_state 2 overflow_input) = phase overflow_phase1"
    by (simp only: phases.simps(2)[of "Suc 0"] overflow_run1 option.case sum.case)
  also have "\<dots> = None" by (simp add: phase_def overflow_search)
  finally show ?thesis by (simp only: numeral_2_eq_2)
qed

lemma overflow_N: "N (read_input 2 overflow_input) = 2"
  by code_simp

lemma overflow_diverges: "hungarian_algorithm (read_input 2 overflow_input) = None"
  using overflow_phases2 by (simp add: hungarian_algorithm_def overflow_N start_state_def)

lemma overflow_p1: "main_p1 2 overflow_input = Some (Inl IndexOutOfRange)"
  by code_simp

lemma overflow_one: "main_cost 1 [[4611686018427387904]] = Some (Inr (- 4611686018427387904))"
  by code_simp

lemma not_optimal_one: "\<not> optimal_cost 1 [[4611686018427387904]] (- 4611686018427387904)"
proof
  assume "optimal_cost 1 [[4611686018427387904]] (- 4611686018427387904)"
  then obtain sigma where s: "is_assignment 1 sigma"
    "assignment_cost 1 [[4611686018427387904]] sigma = - 4611686018427387904"
    by (auto simp: optimal_cost_def)
  from s(1) have "sigma 0 < 1" by (auto simp: is_assignment_def bij_betw_def)
  hence "sigma 0 = 0" by simp
  thus False using s(2) by (simp add: assignment_cost_def)
qed

subsection \<open>Facts about the rounds of a run\<close>

lemma search_state_first:
  assumes "0 < n"
  shows "search_state n inp (label_roots (initialize_search (start_state n inp)))"
  by (rule search_state.first_round[of 0]) (use assms in simp_all)

lemma min_slack_zero:
  assumes "\<forall>j<N s. \<not> label_U s ! j \<longrightarrow> 0 \<le> slack s ! j"
    and "j0 < N s" "\<not> label_U s ! j0" "slack s ! j0 = 0"
  shows "min_slack s = 0"
proof -
  from min_slack_spec[of s] have le: "\<forall>u<N s. \<not> label_U s ! u \<longrightarrow> min_slack s \<le> slack s ! u"
    and ca: "min_slack s = LLONG_MAX \<or> (\<exists>u<N s. \<not> label_U s ! u \<and> min_slack s = slack s ! u)"
    by blast+
  have "min_slack s \<le> 0" using le assms(2,3,4) by auto
  moreover have "0 \<le> min_slack s" using ca assms(1) by (auto simp: LLONG_MAX_def)
  ultimately show ?thesis by simp
qed

lemma found_depth:
  assumes f: "found_inv B u s"
  shows "\<exists>k<N s. reaches_root s (nhbor s ! u) k"
proof -
  from f obtain rank where tr: "tree_ok rank s" by (auto simp: found_inv_def)
  from f have u: "u < N s" "mate_U s ! u = -1"
    and nh: "0 \<le> nhbor s ! u" "nat (nhbor s ! u) < N s" "label_V s ! nat (nhbor s ! u)"
    unfolding found_inv_def in_range_def by auto
  from tree_reaches_root[OF tr nh(2,3)] obtain k where
    k: "k \<le> rank (nat (nhbor s ! u))" "reaches_root s (int (nat (nhbor s ! u))) k" by blast
  have "matched_cols s \<subseteq> {..<N s} - {u}" using u by (auto simp: matched_cols_def)
  hence "card (matched_cols s) \<le> card ({..<N s} - {u})" by (intro card_mono) simp_all
  also have "\<dots> < N s" using u(1) by (simp add: card_Diff_singleton)
  finally have "rank (nat (nhbor s ! u)) < N s" using tree_okD(2)[OF tr nh(2,3)] by simp
  hence "k < N s" using k(1) by simp
  moreover have "reaches_root s (nhbor s ! u) k" using k(2) nh(1) by simp
  ultimately show ?thesis by blast
qed

lemma found_augment:
  assumes f: "found_inv B u s"
  shows "\<exists>s'. augment (nhbor s ! u) (int u) s = Some (Inr s')"
proof -
  from f obtain rank where tr: "tree_ok rank s" by (auto simp: found_inv_def)
  from f have nh: "0 \<le> nhbor s ! u" by (auto simp: found_inv_def in_range_def)
  from augment_correct[OF found_aug_pre[OF f tr]] nh show ?thesis by auto
qed

lemma found_tree_tight:
  assumes f: "found_inv B u s" and v: "v < N s" "label_V s ! v" "mate_V s ! v \<noteq> -1"
  shows "in_range s (parent s ! v)" "in_range s (mate_V s ! v)"
    "alpha s ! nat (parent s ! v) + beta s ! nat (mate_V s ! v)
       = c s ! nat (parent s ! v) ! nat (mate_V s ! v)"
proof -
  from f obtain rank where tr: "tree_ok rank s" and b: "base_inv B s"
    by (auto simp: found_inv_def)
  from tree_rowD(2)[OF tree_okD(1)[OF tr v(1,2)] v(3)]
  show "in_range s (parent s ! v)"
    "alpha s ! nat (parent s ! v) + beta s ! nat (mate_V s ! v)
       = c s ! nat (parent s ! v) ! nat (mate_V s ! v)"
    by (auto simp: in_range_def rc_zero_iff)
  show "in_range s (mate_V s ! v)"
    using matchingV[OF base_invD(8)[OF b] v(1,3)] by (auto simp: in_range_def)
qed

lemma phase_run:
  assumes vi: "valid_input n inp" and i: "i < n"
    and ph: "phases i (start_state n inp) = Some (Inr s)"
  shows "\<exists>u s2 s'. search_augmenting_alternating_path (label_roots (initialize_search s)) = Some (Inr (u, s2)) \<and>
     search_within n (label_roots (initialize_search s)) = Some (Inr (u, s2)) \<and>
     found_inv (cost_bound n) u s2 \<and> N s2 = n \<and>
     augment (nhbor s2 ! u) (int u) s2 = Some (Inr s') \<and>
     search_p1 (label_roots (initialize_search s)) = Some (Inr (True, s'))"
proof -
  note S = start_state_props[OF vi]
  have "i \<le> N (start_state n inp)" using i S(2) by simp
  from phases_correct[OF S(1) this] ph
  have p: "phase_inv (cost_bound n) i s" and Ns: "N s = n" using S(2) by auto
  have i': "i < N s" using i Ns by simp
  from p have b: "base_inv (cost_bound n) s" by (simp add: phase_inv_def)
  from phase_inv_free_row[OF p i'] obtain v0 where v0: "v0 < N s" "mate_V s ! v0 = -1" by blast
  define t where "t = label_roots (initialize_search s)"
  note T = label_roots_inv[OF b v0, folded t_def]
  have Nt: "N t = n" using T(2) Ns by (simp add: same_problem_def)
  from search_terminates[OF T(1)] obtain u s2 where
    se: "search_augmenting_alternating_path t = Some (Inr (u, s2))" "found_inv (cost_bound n) u s2"
      "search_within (Suc (card (todo t))) t = Some (Inr (u, s2))" "same_problem t s2" by blast
  have "Suc (card (todo t)) \<le> n" using todo_less[OF T(1)] Nt by simp
  from search_within_mono[OF se(3) this] have sw: "search_within n t = Some (Inr (u, s2))" .
  have N2: "N s2 = n" using se(4) Nt by (simp add: same_problem_def)
  from found_augment[OF se(2)] obtain s' where au: "augment (nhbor s2 ! u) (int u) s2 = Some (Inr s')"
    by blast
  from search_loop_p1_eq[OF T(1) todo_less[OF T(1)]] se(1) au
  have "search_p1 t = Some (Inr (True, s'))" by (auto simp: search_p1_def)
  thus ?thesis using se(1,2) sw N2 au unfolding t_def by blast
qed

lemma slack_decrement:
  assumes vi: "valid_input n inp" and st: "search_state n inp s"
    and u: "u < n" "\<not> label_U s ! u"
  shows "even (slack s ! u)" "0 \<le> slack s ! u"
    "ll (slack s ! u - ll (2 * fst (update_alpha_beta s))) = slack s ! u - min_slack s"
    "min_slack s \<le> slack s ! u" "min_slack s < LLONG_MAX"
proof -
  from search_state_inv[OF vi st] have inv: "search_inv (cost_bound n) s" and Ns: "N s = n" by auto
  have u': "u < N s" using u Ns by simp
  note f = slack_ok_facts[OF inv u' u(2)]
  note sh = search_state_shift[OF vi st]
  note B = cost_bound_props[of n]
  show "even (slack s ! u)" "0 \<le> slack s ! u" using f by simp_all
  have le: "min_slack s \<le> slack s ! u" using sh(2,4) u by auto
  thus "min_slack s \<le> slack s ! u" .
  show "min_slack s < LLONG_MAX" using le f(2) B(2) by linarith
  have m0: "0 \<le> min_slack s" using sh(2,3) by linarith
  have "ll (2 * fst (update_alpha_beta s)) = min_slack s"
    unfolding sh(2) using m0 le f(2) B(2) by (intro ll_id_max) linarith+
  moreover have "ll (slack s ! u - min_slack s) = slack s ! u - min_slack s"
    using m0 le f(2) B(2) by (intro ll_id_max) linarith+
  ultimately show "ll (slack s ! u - ll (2 * fst (update_alpha_beta s))) = slack s ! u - min_slack s"
    by simp
qed

lemma valid_input_doubled:
  assumes vi: "valid_input n inp" and v: "v < n" "u < n"
  shows "c (read_input n inp) ! v ! u = 2 * inp ! v ! u"
  using read_input_inv[OF vi] v by (simp add: input_inv_def)

subsection \<open>What holds on every input: the shape of the search tree\<close>

lemma even_ll: "even (ll x) \<longleftrightarrow> even x"
proof -
  have "even ((x + 9223372036854775808) mod 18446744073709551616) \<longleftrightarrow> even (x + 9223372036854775808)"
    by (rule dvd_mod_iff) simp
  thus ?thesis by (simp add: ll_def)
qed

lemma odd_decrement: "odd x \<Longrightarrow> odd (ll (x - ll (2 * t)))"
  by (simp add: even_ll)

lemma in_rangeD:
  assumes "in_range s i"
  shows "0 \<le> i" "nat i < N s" "int (nat i) = i"
  using assms unfolding in_range_def by auto

lemma in_rangeI: "i < N s \<Longrightarrow> in_range s (int i)"
  unfolding in_range_def by simp

lemma struct_invD:
  assumes "struct_inv s"
  shows "length (mate_V s) = N s" "length (mate_U s) = N s" "length (alpha s) = N s"
    "length (beta s) = N s" "dims_search s" "matching s" "labels_ok s" "nh_ok s"
    "\<exists>rank. tree_sk rank s"
  using assms unfolding struct_inv_def by blast+

lemma nh_okD:
  assumes "nh_ok s" "u < N s"
  shows "(nhbor s ! u = -1 \<and> odd (slack s ! u)) \<or>
     (in_range s (nhbor s ! u) \<and> label_V s ! nat (nhbor s ! u))"
  using assms unfolding nh_ok_def by blast

lemma nh_ok_even:
  assumes "nh_ok s" "u < N s" "even (slack s ! u)"
  shows "in_range s (nhbor s ! u)" "label_V s ! nat (nhbor s ! u)"
  using nh_okD[OF assms(1,2)] assms(3) by blast+

lemma tree_skD:
  assumes "tree_sk rank s" "v < N s" "label_V s ! v"
  shows "mate_V s ! v = -1 \<Longrightarrow> parent s ! v = -1"
    "mate_V s ! v \<noteq> -1 \<Longrightarrow> in_range s (parent s ! v) \<and>
       label_V s ! nat (parent s ! v) \<and> rank (nat (parent s ! v)) < rank v"
    "rank v + card (todo s) \<le> card (matched_cols s)"
proof -
  from assms have a: "(if mate_V s ! v = -1 then parent s ! v = -1
         else in_range s (parent s ! v) \<and> label_V s ! nat (parent s ! v) \<and>
              rank (nat (parent s ! v)) < rank v) \<and>
        rank v + card (todo s) \<le> card (matched_cols s)"
    unfolding tree_sk_def by blast
  show "mate_V s ! v = -1 \<Longrightarrow> parent s ! v = -1" using a by simp
  show "mate_V s ! v \<noteq> -1 \<Longrightarrow> in_range s (parent s ! v) \<and>
       label_V s ! nat (parent s ! v) \<and> rank (nat (parent s ! v)) < rank v" using a by simp
  show "rank v + card (todo s) \<le> card (matched_cols s)" using a by simp
qed

lemma struct_cong:
  assumes "N s' = N s" "mate_V s' = mate_V s" "mate_U s' = mate_U s" "nhbor s' = nhbor s"
    "parent s' = parent s" "slack s' = slack s" "label_V s' = label_V s" "label_U s' = label_U s"
  shows "dims_search s' = dims_search s" "matching s' = matching s" "labels_ok s' = labels_ok s"
    "nh_ok s' = nh_ok s" "tree_sk rank s' = tree_sk rank s"
  unfolding dims_search_def matching_def labels_ok_def nh_ok_def tree_sk_def todo_def
    matched_cols_def in_range_def assms by (rule refl)+

lemma tree_sk_cong:
  assumes "N s' = N s" "mate_V s' = mate_V s" "mate_U s' = mate_U s"
    "parent s' = parent s" "label_V s' = label_V s" "label_U s' = label_U s"
  shows "tree_sk rank s' = tree_sk rank s"
  unfolding tree_sk_def todo_def matched_cols_def in_range_def assms by (rule refl)

lemma struct_inv_duals:
  assumes "struct_inv s" "length A = N s" "length B = N s"
  shows "struct_inv (s\<lparr>alpha := A, beta := B\<rparr>)"
proof -
  have C: "dims_search (s\<lparr>alpha := A, beta := B\<rparr>) = dims_search s"
    "matching (s\<lparr>alpha := A, beta := B\<rparr>) = matching s"
    "labels_ok (s\<lparr>alpha := A, beta := B\<rparr>) = labels_ok s"
    "nh_ok (s\<lparr>alpha := A, beta := B\<rparr>) = nh_ok s"
    "\<And>rank. tree_sk rank (s\<lparr>alpha := A, beta := B\<rparr>) = tree_sk rank s"
    by (rule struct_cong; simp)+
  show ?thesis using assms unfolding struct_inv_def C by simp
qed

lemma update_alpha_beta_frame:
  assumes "length (alpha s) = N s" "length (beta s) = N s"
  shows "\<exists>A B. snd (update_alpha_beta s) = s\<lparr>alpha := A, beta := B\<rparr> \<and>
     length A = N s \<and> length B = N s"
proof (cases "0 < min_slack s")
  case True
  define th where "th = ll_div (min_slack s) 2"
  have "snd (update_alpha_beta s) = fold (shift_step th) [0..<N s] s"
    using True by (simp add: update_alpha_beta_def Let_def th_def)
  also note shift_closed[OF assms, of th]
  finally have eq: "snd (update_alpha_beta s) =
     s\<lparr>alpha := map (\<lambda>i. if label_V s ! i then ll (alpha s ! i + th) else ll (alpha s ! i - th)) [0..<N s],
       beta := map (\<lambda>i. if label_U s ! i then ll (beta s ! i - th) else ll (beta s ! i + th)) [0..<N s]\<rparr>" .
  have "length (map (\<lambda>i. if label_V s ! i then ll (alpha s ! i + th) else ll (alpha s ! i - th)) [0..<N s]) = N s"
    "length (map (\<lambda>i. if label_U s ! i then ll (beta s ! i - th) else ll (beta s ! i + th)) [0..<N s]) = N s"
    by simp_all
  with eq show ?thesis by blast
next
  case False
  hence "snd (update_alpha_beta s) = s\<lparr>alpha := alpha s, beta := beta s\<rparr>"
    by (simp add: update_alpha_beta_def Let_def)
  thus ?thesis using assms by blast
qed

lemma slack_update_struct:
  assumes inv: "struct_inv s1" and len: "length X = N s1"
    and X: "\<forall>j<N s1. X ! j = slack s1 ! j \<or> X ! j = ll (slack s1 ! j - ll (2 * theta))"
  shows "struct_inv (s1\<lparr>slack := X\<rparr>)"
proof -
  define s2 where "s2 = s1\<lparr>slack := X\<rparr>"
  note I = struct_invD[OF inv]
  have F: "N s2 = N s1" "mate_V s2 = mate_V s1" "mate_U s2 = mate_U s1" "nhbor s2 = nhbor s1"
    "parent s2 = parent s1" "label_V s2 = label_V s1" "label_U s2 = label_U s1"
    "alpha s2 = alpha s1" "beta s2 = beta s1" "slack s2 = X"
    by (simp_all add: s2_def)
  have ds: "dims_search s2" using I(5) len by (simp add: dims_search_def F)
  have m: "matching s2" using I(6) by (simp add: matching_def in_range_def F)
  have lo: "labels_ok s2" using I(7) by (simp add: labels_ok_def F)
  have tr: "\<exists>rank. tree_sk rank s2"
    using I(9) tree_sk_cong[of s2 s1] F by simp
  have nh: "nh_ok s2"
    unfolding nh_ok_def F in_range_def
  proof (intro allI impI)
    fix u assume u: "u < N s1"
    from nh_okD[OF I(8) u] show "nhbor s1 ! u = - 1 \<and> odd (X ! u) \<or>
      (0 \<le> nhbor s1 ! u \<and> nhbor s1 ! u < int (N s1)) \<and> label_V s1 ! nat (nhbor s1 ! u)"
    proof
      assume a: "nhbor s1 ! u = - 1 \<and> odd (slack s1 ! u)"
      hence "odd (ll (slack s1 ! u - ll (2 * theta)))" by (intro odd_decrement) simp
      hence "odd (X ! u)" using X u a by auto
      thus ?thesis using a by simp
    next
      assume "in_range s1 (nhbor s1 ! u) \<and> label_V s1 ! nat (nhbor s1 ! u)"
      thus ?thesis by (simp add: in_range_def)
    qed
  qed
  show ?thesis
    unfolding s2_def[symmetric] struct_inv_def using I(1-4) ds m lo nh tr by (simp add: F)
qed

lemma scan_struct:
  assumes inv: "struct_inv s1"
  shows "case scan_columns theta [0..<N s1] [] s1 of
           Inl (u, s2) \<Rightarrow> found_sk u s2 \<and> s2 = s1\<lparr>slack := slack s2\<rparr>
         | Inr (adm, s2) \<Rightarrow> struct_inv s2 \<and> s2 = s1\<lparr>slack := slack s2\<rparr> \<and> distinct adm \<and>
             (\<forall>u\<in>set adm. ready s2 u \<and> slack s2 ! u = 0)"
proof -
  note I = struct_invD[OF inv]
  have len: "length (slack s1) = N s1" using dims_searchD(3)[OF I(5)] .
  have pre: "distinct [0..<N s1]" "\<forall>u\<in>set [0..<N s1]. u < length (slack s1)"
    using len by simp_all
  show ?thesis
  proof (cases "scan_columns theta [0..<N s1] [] s1")
    case (Inl p)
    obtain u s2 where p: "p = (u, s2)" by (cases p)
    from scan_columns_Inl[OF Inl[unfolded p] pre] have
      sc: "u \<in> set [0..<N s1]" "\<not> label_U s1 ! u" "mate_U s1 ! u = -1"
        "slack s2 ! u = 0" "s2 = s1\<lparr>slack := slack s2\<rparr>" "length (slack s2) = length (slack s1)"
        "\<forall>j<length (slack s1). slack s2 ! j = slack s1 ! j \<or>
           (j \<in> set [0..<N s1] \<and> \<not> label_U s1 ! j \<and> slack s2 ! j = ll (slack s1 ! j - ll (2 * theta)))"
      by blast+
    have X: "\<forall>j<N s1. slack s2 ! j = slack s1 ! j \<or> slack s2 ! j = ll (slack s1 ! j - ll (2 * theta))"
      using sc(7) len by auto
    have i2: "struct_inv s2"
      using slack_update_struct[OF inv _ X] sc(5,6) len by simp
    note G = slack_only_fields[OF sc(5)]
    have u: "u < N s2" using sc(1) by (simp add: G)
    have "even (slack s2 ! u)" using sc(4) by simp
    note nh = nh_ok_even[OF struct_invD(8)[OF i2] u this]
    have "found_sk u s2"
      unfolding found_sk_def using i2 u sc(2,3,4) nh by (simp add: G)
    thus ?thesis using sc(5) by (simp add: Inl p)
  next
    case (Inr p)
    obtain adm s2 where p: "p = (adm, s2)" by (cases p)
    from scan_columns_Inr[OF Inr[unfolded p] pre] have
      sc: "s2 = s1\<lparr>slack := slack s2\<rparr>" "length (slack s2) = length (slack s1)"
        "\<forall>j<length (slack s1). slack s2 ! j =
          (if j \<in> set [0..<N s1] \<and> \<not> label_U s1 ! j then ll (slack s1 ! j - ll (2 * theta)) else slack s1 ! j)"
        "adm = [] @ filter (\<lambda>u. \<not> label_U s1 ! u \<and> ll (slack s1 ! u - ll (2 * theta)) = 0) [0..<N s1]"
        "\<forall>u\<in>set [0..<N s1]. \<not> label_U s1 ! u \<and> ll (slack s1 ! u - ll (2 * theta)) = 0 \<longrightarrow> mate_U s1 ! u \<noteq> -1"
      by blast+
    have X: "\<forall>j<N s1. slack s2 ! j = slack s1 ! j \<or> slack s2 ! j = ll (slack s1 ! j - ll (2 * theta))"
      using sc(3) len by auto
    have i2: "struct_inv s2"
      using slack_update_struct[OF inv _ X] sc(1,2) len by simp
    note G = slack_only_fields[OF sc(1)]
    have da: "distinct adm" by (simp add: sc(4))
    have aa: "\<forall>u\<in>set adm. ready s2 u \<and> slack s2 ! u = 0"
    proof
      fix u assume "u \<in> set adm"
      hence u: "u < N s1" "\<not> label_U s1 ! u" "ll (slack s1 ! u - ll (2 * theta)) = 0"
        by (simp_all add: sc(4))
      have z: "slack s2 ! u = 0" using sc(3) u len by simp
      have m: "mate_U s1 ! u \<noteq> -1" using sc(5) u by simp
      have u2: "u < N s2" using u(1) by (simp add: G)
      have "even (slack s2 ! u)" using z by simp
      note nh = nh_ok_even[OF struct_invD(8)[OF i2] u2 this]
      show "ready s2 u \<and> slack s2 ! u = 0"
        unfolding ready_def using u2 u(2) m nh z by (simp add: G)
    qed
    show ?thesis using i2 sc(1) da aa by (simp add: Inr p)
  qed
qed

lemma label_step_struct:
  assumes inv: "struct_inv s" and tr: "tree_sk rank s" and u: "ready s u"
  shows "struct_inv (label_step u s)" "in_range s (mate_U s ! u)"
    "same_problem s (label_step u s)"
    "\<forall>j. j \<noteq> u \<longrightarrow> ready s j \<longrightarrow> ready (label_step u s) j"
    "todo (label_step u s) = todo s - {u}" "u \<in> todo s"
proof -
  note I = struct_invD[OF inv]
  note dsD = dims_searchD[OF I(5)]
  from u have u1: "u < N s" and u2: "\<not> label_U s ! u" and u4: "mate_U s ! u \<noteq> -1"
    and nr: "in_range s (nhbor s ! u)" and nl: "label_V s ! nat (nhbor s ! u)"
    by (simp_all add: ready_def)
  define m where "m = nat (mate_U s ! u)"
  define r where "r = nat (nhbor s ! u)"
  note mu = matchingU[OF I(6) u1 u4, folded m_def]
  have r: "r < N s" "label_V s ! r" "nhbor s ! u = int r"
    using in_rangeD[OF nr] nl by (simp_all add: r_def)
  have nlm: "\<not> label_V s ! m"
    using labels_okD(3)[OF I(7) mu(2)] mu(3) u2 by simp
  have rm: "r \<noteq> m" using r(2) nlm by auto
  define t where "t = s\<lparr>label_U := (label_U s)[u := True],
          label_V := (label_V s)[m := True],
          parent := (parent s)[m := nhbor s ! u]\<rparr>"
  define s' where "s' = label_step u s"
  have s't: "s' = update_slack m t" by (simp add: s'_def label_step_def t_def m_def)
  have tl: "length (slack t) = N t" "length (nhbor t) = N t" using dsD by (simp_all add: t_def)
  define hit where "hit j = slack_hit t m j" for j
  have s'eq: "s' = t\<lparr>slack := map (\<lambda>j. if hit j then bound_of t m j else slack t ! j) [0..<N t],
       nhbor := map (\<lambda>j. if hit j then int m else nhbor t ! j) [0..<N t]\<rparr>"
    unfolding s't hit_def by (rule update_slack_closed[OF tl])
  have F: "N s' = N s" "c s' = c s" "alpha s' = alpha s" "beta s' = beta s"
    "mate_V s' = mate_V s" "mate_U s' = mate_U s"
    "label_U s' = (label_U s)[u := True]" "label_V s' = (label_V s)[m := True]"
    "parent s' = (parent s)[m := nhbor s ! u]"
    by (simp_all add: s'eq t_def)
  have Fs: "slack s' ! j = (if hit j then bound_of t m j else slack s ! j)"
    and Fn: "nhbor s' ! j = (if hit j then int m else nhbor s ! j)" if "j < N s" for j
    using that by (simp_all add: s'eq t_def)
  have Fl: "length (slack s') = N s" "length (nhbor s') = N s"
    by (simp_all add: s'eq t_def)
  have LU: "label_U s' ! j = (j = u \<or> label_U s ! j)" if "j < N s" for j
    using that dsD(5) u1 by (auto simp: F nth_list_update)
  have LV: "label_V s' ! v = (v = m \<or> label_V s ! v)" if "v < N s" for v
    using that dsD(4) mu(2) by (auto simp: F nth_list_update)
  have PA: "parent s' ! v = (if v = m then nhbor s ! u else parent s ! v)" if "v < N s" for v
    using that dsD(2) mu(2) by (auto simp: F nth_list_update)
  have ds': "dims_search s'" using dsD Fl by (simp add: dims_search_def F)
  have m': "matching s'" using I(6) by (simp add: matching_def in_range_def F)
  have mate_ne: "nat (mate_V s ! v) \<noteq> u" if v: "v < N s" "v \<noteq> m" "mate_V s ! v \<noteq> -1" for v
  proof
    assume e: "nat (mate_V s ! v) = u"
    have "mate_U s ! nat (mate_V s ! v) = int v" using matchingV(3)[OF I(6) v(1,3)] .
    hence "mate_U s ! u = int v" using e by simp
    thus False using v(2) by (simp add: m_def)
  qed
  have lo': "labels_ok s'"
    unfolding labels_ok_def F(1,5,6)
  proof (intro conjI allI impI)
    fix j assume j: "j < N s" "label_U s' ! j"
    show "mate_U s ! j \<noteq> -1" using j LU[OF j(1)] u4 labels_okD(1)[OF I(7) j(1)] by auto
  next
    fix v assume v: "v < N s"
    show "label_V s' ! v = (mate_V s ! v = -1 \<or> label_U s' ! nat (mate_V s ! v))"
    proof (cases "v = m")
      case True
      thus ?thesis using LV[OF v] mu(3) LU[OF u1] by simp
    next
      case False
      show ?thesis
      proof (cases "mate_V s ! v = -1")
        case True
        thus ?thesis using LV[OF v] labels_okD(2)[OF I(7) v] by simp
      next
        case F2: False
        note mv = matchingV[OF I(6) v F2]
        show ?thesis using LV[OF v] LU[OF mv(2)] mate_ne[OF v False F2] False F2
          labels_okD(3)[OF I(7) v F2] by simp
      qed
    qed
  qed
  have nhj: "(nhbor s' ! j = -1 \<and> odd (slack s' ! j)) \<or>
      (in_range s' (nhbor s' ! j) \<and> label_V s' ! nat (nhbor s' ! j))" if j: "j < N s" for j
  proof (cases "hit j")
    case True
    thus ?thesis using Fn[OF j] mu(2) LV[OF mu(2)] by (simp add: in_range_def F)
  next
    case False
    from nh_okD[OF I(8) j] show ?thesis
    proof
      assume "nhbor s ! j = - 1 \<and> odd (slack s ! j)"
      thus ?thesis using Fn[OF j] Fs[OF j] False by simp
    next
      assume a: "in_range s (nhbor s ! j) \<and> label_V s ! nat (nhbor s ! j)"
      hence "label_V s' ! nat (nhbor s ! j)" using LV[OF in_rangeD(2)] by blast
      thus ?thesis using a Fn[OF j] False by (simp add: in_range_def F)
    qed
  qed
  have nh': "nh_ok s'" unfolding nh_ok_def using nhj by (simp add: F)
  have ut: "u \<in> todo s" using u1 u2 u4 by (simp add: todo_def)
  have td: "todo s' = todo s - {u}"
    using dsD(5) u1 by (auto simp: todo_def F nth_list_update)
  have mc: "matched_cols s' = matched_cols s" by (simp add: matched_cols_def F)
  have fin: "finite (todo s)" by (simp add: todo_def)
  have "0 < card (todo s)" using ut fin by (auto simp: card_gt_0_iff)
  hence ctd: "card (todo s') + 1 = card (todo s)"
    unfolding td using ut fin by (simp add: card_Diff_singleton)
  define rank' where "rank' = rank(m := Suc (rank r))"
  have tr': "tree_sk rank' s'"
    unfolding tree_sk_def F(1) mc
  proof (intro allI impI)
    fix v assume v: "v < N s" and lv: "label_V s' ! v"
    show "(if mate_V s' ! v = - 1 then parent s' ! v = - 1
          else in_range s' (parent s' ! v) \<and> label_V s' ! nat (parent s' ! v) \<and>
               rank' (nat (parent s' ! v)) < rank' v) \<and>
         rank' v + card (todo s') \<le> card (matched_cols s)"
    proof (cases "v = m")
      case True
      have 1: "rank r + card (todo s) \<le> card (matched_cols s)" using tree_skD(3)[OF tr r(1,2)] .
      have "mate_V s' ! m \<noteq> -1" using mu(3) by (simp add: F)
      moreover have "in_range s' (parent s' ! m) \<and> label_V s' ! nat (parent s' ! m) \<and>
               rank' (nat (parent s' ! m)) < rank' m"
        using PA[OF mu(2)] r LV[OF r(1)] rm by (simp add: rank'_def in_range_def F)
      moreover have "rank' m + card (todo s') \<le> card (matched_cols s)"
        using 1 ctd by (simp add: rank'_def)
      ultimately show ?thesis using True by simp
    next
      case False
      hence lv0: "label_V s ! v" using lv LV[OF v] by simp
      note tv = tree_skD[OF tr v lv0]
      have rk: "rank' v + card (todo s') \<le> card (matched_cols s)"
        using tv(3) ctd False by (simp add: rank'_def)
      show ?thesis
      proof (cases "mate_V s ! v = -1")
        case True
        thus ?thesis using tv(1) PA[OF v] False rk by (simp add: F)
      next
        case F2: False
        from tv(2)[OF F2] have p: "in_range s (parent s ! v)"
          "label_V s ! nat (parent s ! v)" "rank (nat (parent s ! v)) < rank v" by auto
        note pr = in_rangeD[OF p(1)]
        have pm: "nat (parent s ! v) \<noteq> m" using p(2) nlm by auto
        show ?thesis
          using F2 PA[OF v] False p LV[OF pr(2)] pm rk by (simp add: rank'_def in_range_def F)
      qed
    qed
  qed
  show "struct_inv (label_step u s)"
    unfolding s'_def[symmetric] struct_inv_def using I(1-4) ds' m' lo' nh' tr' by (auto simp: F)
  show "in_range s (mate_U s ! u)" using mu unfolding in_range_def m_def by linarith
  show "same_problem s (label_step u s)"
    unfolding s'_def[symmetric] by (simp add: same_problem_def F)
  show "\<forall>j. j \<noteq> u \<longrightarrow> ready s j \<longrightarrow> ready (label_step u s) j"
    unfolding s'_def[symmetric]
  proof (intro allI impI)
    fix j assume ju: "j \<noteq> u" and rj: "ready s j"
    hence j: "j < N s" "\<not> label_U s ! j" "mate_U s ! j \<noteq> -1" by (simp_all add: ready_def)
    have ev: "in_range s' (nhbor s' ! j) \<and> label_V s' ! nat (nhbor s' ! j)"
    proof (cases "hit j")
      case True
      thus ?thesis using Fn[OF j(1)] mu(2) LV[OF mu(2)] by (simp add: in_range_def F)
    next
      case False
      from rj have a: "in_range s (nhbor s ! j)" "label_V s ! nat (nhbor s ! j)"
        by (simp_all add: ready_def)
      hence "label_V s' ! nat (nhbor s ! j)" using LV[OF in_rangeD(2)] by blast
      thus ?thesis using a Fn[OF j(1)] False by (simp add: in_range_def F)
    qed
    show "ready s' j" unfolding ready_def using j ju LU[OF j(1)] ev by (simp add: F)
  qed
  show "todo (label_step u s) = todo s - {u}" "u \<in> todo s"
    unfolding s'_def[symmetric] using td ut by simp_all
qed

lemma label_admissibles_struct:
  assumes "struct_inv s" "distinct us" "\<forall>u\<in>set us. ready s u"
  shows "\<exists>s'. label_admissibles us s = Inr s' \<and> struct_inv s' \<and> same_problem s s' \<and>
     todo s' = todo s - set us"
  using assms
proof (induction us arbitrary: s)
  case Nil
  then show ?case by (simp add: same_problem_refl)
next
  case (Cons u us)
  from Cons.prems(3) have u: "ready s u" by simp
  from Cons.prems(1) obtain rank where tr: "tree_sk rank s" by (auto simp: struct_inv_def)
  note L = label_step_struct[OF Cons.prems(1) tr u]
  have d: "distinct us" "u \<notin> set us" using Cons.prems(2) by auto
  have pre: "\<forall>j\<in>set us. ready (label_step u s) j"
    using L(4) Cons.prems(3) d(2) by auto
  from Cons.IH[OF L(1) d(1) pre] obtain s' where
    s': "label_admissibles us (label_step u s) = Inr s'" "struct_inv s'"
      "same_problem (label_step u s) s'" "todo s' = todo (label_step u s) - set us" by blast
  have "label_admissibles (u # us) s = Inr s'"
    using s'(1) L(2) by (simp only: label_admissibles_Cons if_not_P not_not)
  moreover have "same_problem s s'" using same_problem_trans[OF L(3) s'(3)] .
  moreover have "todo s' = todo s - set (u # us)" using s'(4) L(5) by auto
  ultimately show ?case using s'(2) by blast
qed

lemma scan_round_struct:
  assumes inv: "struct_inv s"
  shows "case scan_round s of
           Inl (u, s2) \<Rightarrow> found_sk u s2 \<and> same_problem s s2
         | Inr (adm, s2) \<Rightarrow> struct_inv s2 \<and> same_problem s s2 \<and> distinct adm \<and>
             (\<forall>u\<in>set adm. ready s2 u \<and> slack s2 ! u = 0)"
proof -
  note I = struct_invD[OF inv]
  obtain theta s1 where ua: "update_alpha_beta s = (theta, s1)" by (cases "update_alpha_beta s")
  from update_alpha_beta_frame[OF I(3,4)] ua obtain A B where
    s1: "s1 = s\<lparr>alpha := A, beta := B\<rparr>" "length A = N s" "length B = N s" by auto
  have i1: "struct_inv s1" unfolding s1(1) by (rule struct_inv_duals[OF inv s1(2,3)])
  have sp1: "same_problem s s1" by (simp add: same_problem_def s1(1))
  have sr: "scan_round s = scan_columns theta [0..<N s1] [] s1" by (simp add: scan_round_def ua)
  note sc = scan_struct[OF i1, of theta]
  show ?thesis
  proof (cases "scan_columns theta [0..<N s1] [] s1")
    case (Inl p)
    obtain u s2 where p: "p = (u, s2)" by (cases p)
    from sc have f: "found_sk u s2" and e: "s2 = s1\<lparr>slack := slack s2\<rparr>" by (simp_all add: Inl p)
    have "same_problem s1 s2" by (subst e) (simp add: same_problem_def)
    hence "same_problem s s2" using sp1 same_problem_trans by blast
    thus ?thesis using f by (simp add: sr Inl p)
  next
    case (Inr p)
    obtain adm s2 where p: "p = (adm, s2)" by (cases p)
    from sc have f: "struct_inv s2" "distinct adm" "\<forall>u\<in>set adm. ready s2 u \<and> slack s2 ! u = 0"
      and e: "s2 = s1\<lparr>slack := slack s2\<rparr>" by (simp_all add: Inr p)
    have "same_problem s1 s2" by (subst e) (simp add: same_problem_def)
    hence "same_problem s s2" using sp1 same_problem_trans by blast
    thus ?thesis using f by (simp add: sr Inr p)
  qed
qed

lemma search_round_struct:
  assumes inv: "struct_inv s"
  shows "(\<exists>u s2. search_round s = Inr (Found u s2) \<and> found_sk u s2 \<and> same_problem s s2) \<or>
         (\<exists>s3. search_round s = Inr (Again s3) \<and> struct_inv s3 \<and> same_problem s s3)"
proof -
  note sc = scan_round_struct[OF inv]
  have sr: "search_round s =
     (case scan_round s of
        Inl (u, s2) \<Rightarrow> Inr (Found u s2)
      | Inr (admissibles, s2) \<Rightarrow>
          (case label_admissibles admissibles s2 of Inl e \<Rightarrow> Inl e | Inr s3 \<Rightarrow> Inr (Again s3)))"
    by (simp add: search_round_def scan_round_def split: prod.splits)
  show ?thesis
  proof (cases "scan_round s")
    case (Inl p)
    obtain u s2 where p: "p = (u, s2)" by (cases p)
    show ?thesis using sc by (simp add: sr Inl p)
  next
    case (Inr p)
    obtain adm s2 where p: "p = (adm, s2)" by (cases p)
    from sc have i2: "struct_inv s2" and sp: "same_problem s s2" and da: "distinct adm"
      and aa: "\<forall>u\<in>set adm. ready s2 u" by (simp_all add: Inr p)
    from label_admissibles_struct[OF i2 da aa] obtain s3 where
      s3: "label_admissibles adm s2 = Inr s3" "struct_inv s3" "same_problem s2 s3" by blast
    have "same_problem s s3" using sp s3(3) by (rule same_problem_trans)
    thus ?thesis using s3(1,2) by (simp add: sr Inr p)
  qed
qed

lemma search_struct:
  assumes "search_augmenting_alternating_path s = Some r" and "struct_inv s"
  shows "\<exists>u s2. r = Inr (u, s2) \<and> found_sk u s2 \<and> same_problem s s2"
proof -
  have "struct_inv s \<longrightarrow> (\<exists>u s2. r = Inr (u, s2) \<and> found_sk u s2 \<and> same_problem s s2)"
  proof (rule search_augmenting_alternating_path.raw_induct[where
        P = "\<lambda>x y. struct_inv x \<longrightarrow> (\<exists>u s2. y = Inr (u, s2) \<and> found_sk u s2 \<and> same_problem x s2)",
        OF _ assms(1)])
    fix f :: "state \<Rightarrow> (error + nat \<times> state) option" and x y
    assume IH: "\<And>x y. f x = Some y \<Longrightarrow>
        struct_inv x \<longrightarrow> (\<exists>u s2. y = Inr (u, s2) \<and> found_sk u s2 \<and> same_problem x s2)"
      and st: "(case search_round x of Inl e \<Rightarrow> Some (Inl e)
                | Inr (Found u s2) \<Rightarrow> Some (Inr (u, s2))
                | Inr (Again s3) \<Rightarrow> f s3) = Some y"
    show "struct_inv x \<longrightarrow> (\<exists>u s2. y = Inr (u, s2) \<and> found_sk u s2 \<and> same_problem x s2)"
    proof
      assume inv: "struct_inv x"
      from search_round_struct[OF inv]
      show "\<exists>u s2. y = Inr (u, s2) \<and> found_sk u s2 \<and> same_problem x s2"
      proof (elim disjE exE conjE)
        fix u s2 assume "search_round x = Inr (Found u s2)" "found_sk u s2" "same_problem x s2"
        thus ?thesis using st by auto
      next
        fix s3 assume r: "search_round x = Inr (Again s3)" and i3: "struct_inv s3"
          and sp: "same_problem x s3"
        from st r have "f s3 = Some y" by simp
        from IH[OF this] i3 obtain u s2 where
          "y = Inr (u, s2)" "found_sk u s2" "same_problem s3 s2" by blast
        thus ?thesis using same_problem_trans[OF sp] by blast
      qed
    qed
  qed
  thus ?thesis using assms(2) by blast
qed

subsection \<open>What holds on every input: the matching\<close>

lemma label_roots_struct:
  assumes b: "base_sk s"
  shows "struct_inv (label_roots (initialize_search s))"
    "same_problem s (label_roots (initialize_search s))"
proof -
  from b have L: "length (mate_V s) = N s" "length (mate_U s) = N s"
    "length (alpha s) = N s" "length (beta s) = N s" and m: "matching s"
    by (simp_all add: base_sk_def)
  define s0 where "s0 = initialize_search s"
  define t where "t = label_roots s0"
  define P where "P i t \<longleftrightarrow> N t = N s \<and> c t = c s \<and> alpha t = alpha s \<and> beta t = beta s \<and>
     mate_V t = mate_V s \<and> mate_U t = mate_U s \<and>
     label_U t = replicate (N s) False \<and> parent t = replicate (N s) (-1) \<and>
     length (nhbor t) = N s \<and> length (slack t) = N s \<and> length (label_V t) = N s \<and>
     (\<forall>v<N s. label_V t ! v \<longleftrightarrow> v < i \<and> mate_V s ! v = -1) \<and>
     (\<forall>u<N s. (nhbor t ! u = -1 \<and> slack t ! u = LLONG_MAX) \<or>
         (0 \<le> nhbor t ! u \<and> nat (nhbor t ! u) < N s \<and> label_V t ! nat (nhbor t ! u)))" for i and t :: state
  have N0: "N s0 = N s" by (simp add: s0_def initialize_search_def)
  have P0: "P 0 s0" unfolding P_def by (simp add: s0_def initialize_search_def)
  have step: "P (Suc i) (root_step i t)" if i: "i < N s" and R: "P i t" for i t
  proof -
    from R have F: "N t = N s" "c t = c s" "alpha t = alpha s" "beta t = beta s"
       "mate_V t = mate_V s" "mate_U t = mate_U s"
       "label_U t = replicate (N s) False" "parent t = replicate (N s) (-1)"
       "length (nhbor t) = N s" "length (slack t) = N s" "length (label_V t) = N s"
      and LV: "\<And>v. v < N s \<Longrightarrow> label_V t ! v \<longleftrightarrow> v < i \<and> mate_V s ! v = -1"
      and NH: "\<And>u. u < N s \<Longrightarrow> (nhbor t ! u = -1 \<and> slack t ! u = LLONG_MAX) \<or>
           (0 \<le> nhbor t ! u \<and> nat (nhbor t ! u) < N s \<and> label_V t ! nat (nhbor t ! u))"
      unfolding P_def by blast+
    show ?thesis
    proof (cases "mate_V s ! i = -1")
      case False
      hence "root_step i t = t" by (simp add: root_step_def unmatched_V_def F)
      moreover have "P (Suc i) t"
        unfolding P_def using F LV NH False by (auto simp: less_Suc_eq)
      ultimately show ?thesis by simp
    next
      case True
      define t1 where "t1 = t\<lparr>label_V := (label_V t)[i := True]\<rparr>"
      define t' where "t' = update_slack i t1"
      have rs: "root_step i t = t'"
        using True by (simp add: root_step_def unmatched_V_def F t'_def t1_def)
      have tl: "length (slack t1) = N t1" "length (nhbor t1) = N t1" using F by (simp_all add: t1_def)
      define hit where "hit j = slack_hit t1 i j" for j
      have t'eq: "t' = t1\<lparr>slack := map (\<lambda>j. if hit j then bound_of t1 i j else slack t1 ! j) [0..<N t1],
         nhbor := map (\<lambda>j. if hit j then int i else nhbor t1 ! j) [0..<N t1]\<rparr>"
        unfolding t'_def hit_def by (rule update_slack_closed[OF tl])
      have G: "N t' = N s" "c t' = c s" "alpha t' = alpha s" "beta t' = beta s"
       "mate_V t' = mate_V s" "mate_U t' = mate_U s"
       "label_U t' = replicate (N s) False" "parent t' = replicate (N s) (-1)"
       "length (nhbor t') = N s" "length (slack t') = N s" "length (label_V t') = N s"
        by (simp_all add: t'eq t1_def F)
      have Gs: "slack t' ! j = (if hit j then bound_of t1 i j else slack t ! j)"
        and Gn: "nhbor t' ! j = (if hit j then int i else nhbor t ! j)" if "j < N s" for j
        using that by (simp_all add: t'eq t1_def F)
      have GL: "label_V t' ! v = (v = i \<or> label_V t ! v)" if "v < N s" for v
        using that i F(11) by (auto simp: t'eq t1_def nth_list_update)
      have "P (Suc i) t'"
        unfolding P_def
      proof (intro conjI allI impI)
        show "N t' = N s" "c t' = c s" "alpha t' = alpha s" "beta t' = beta s"
         "mate_V t' = mate_V s" "mate_U t' = mate_U s"
         "label_U t' = replicate (N s) False" "parent t' = replicate (N s) (-1)"
         "length (nhbor t') = N s" "length (slack t') = N s" "length (label_V t') = N s"
          by (rule G)+
      next
        fix v assume v: "v < N s"
        show "label_V t' ! v = (v < Suc i \<and> mate_V s ! v = - 1)"
          using GL[OF v] LV[OF v] True by (auto simp: less_Suc_eq)
      next
        fix u assume u: "u < N s"
        show "nhbor t' ! u = - 1 \<and> slack t' ! u = LLONG_MAX \<or>
           0 \<le> nhbor t' ! u \<and> nat (nhbor t' ! u) < N s \<and> label_V t' ! nat (nhbor t' ! u)"
        proof (cases "hit u")
          case True
          thus ?thesis using Gn[OF u] i GL[OF i] by simp
        next
          case False
          from NH[OF u] show ?thesis
          proof
            assume "nhbor t ! u = - 1 \<and> slack t ! u = LLONG_MAX"
            thus ?thesis using Gs[OF u] Gn[OF u] False by simp
          next
            assume a: "0 \<le> nhbor t ! u \<and> nat (nhbor t ! u) < N s \<and> label_V t ! nat (nhbor t ! u)"
            hence "label_V t' ! nat (nhbor t ! u)" using GL[of "nat (nhbor t ! u)"] by simp
            thus ?thesis using Gn[OF u] False a by simp
          qed
        qed
      qed
      thus ?thesis using rs by simp
    qed
  qed
  have R: "P (N s) t"
    unfolding t_def label_roots_def N0
    by (rule fold_upt_rule[where P = P]) (use P0 step in auto)
  hence F: "N t = N s" "c t = c s" "alpha t = alpha s" "beta t = beta s"
     "mate_V t = mate_V s" "mate_U t = mate_U s"
     "label_U t = replicate (N s) False" "parent t = replicate (N s) (-1)"
     "length (nhbor t) = N s" "length (slack t) = N s" "length (label_V t) = N s"
    and LV: "\<And>v. v < N s \<Longrightarrow> label_V t ! v \<longleftrightarrow> mate_V s ! v = -1"
    and NH: "\<And>u. u < N s \<Longrightarrow> (nhbor t ! u = -1 \<and> slack t ! u = LLONG_MAX) \<or>
         (0 \<le> nhbor t ! u \<and> nat (nhbor t ! u) < N s \<and> label_V t ! nat (nhbor t ! u))"
    unfolding P_def by auto
  have dst: "dims_search t" by (simp add: dims_search_def F)
  have mt: "matching t" using m by (simp add: matching_def in_range_def F)
  have lot: "labels_ok t"
    unfolding labels_ok_def F
  proof (intro conjI allI impI)
    fix u assume "u < N s" "replicate (N s) False ! u"
    thus "mate_U s ! u \<noteq> - 1" by simp
  next
    fix v assume v: "v < N s"
    show "label_V t ! v = (mate_V s ! v = - 1 \<or> replicate (N s) False ! nat (mate_V s ! v))"
    proof (cases "mate_V s ! v = -1")
      case True
      thus ?thesis using LV[OF v] by simp
    next
      case False
      thus ?thesis using LV[OF v] matchingV(2)[OF m v False] by simp
    qed
  qed
  have nht: "nh_ok t"
    unfolding nh_ok_def F in_range_def
  proof (intro allI impI)
    fix u assume u: "u < N s"
    from NH[OF u] show "nhbor t ! u = - 1 \<and> odd (slack t ! u) \<or>
      (0 \<le> nhbor t ! u \<and> nhbor t ! u < int (N s)) \<and> label_V t ! nat (nhbor t ! u)"
      by (auto simp: LLONG_MAX_def)
  qed
  have tdt: "todo t = matched_cols t" by (auto simp: todo_def matched_cols_def F)
  have trt: "tree_sk (\<lambda>_. 0) t"
    unfolding tree_sk_def tdt
  proof (intro allI impI conjI)
    fix v assume v: "v < N t" "label_V t ! v"
    hence "mate_V s ! v = -1" using LV[of v] by (simp add: F)
    thus "if mate_V t ! v = - 1 then parent t ! v = - 1
         else in_range t (parent t ! v) \<and> label_V t ! nat (parent t ! v) \<and> 0 < (0::nat)"
      using v by (simp add: F)
  qed simp
  show "struct_inv (label_roots (initialize_search s))"
    unfolding struct_inv_def s0_def[symmetric] t_def[symmetric]
    using L dst mt lot nht trt by (auto simp: F)
  show "same_problem s (label_roots (initialize_search s))"
    unfolding s0_def[symmetric] t_def[symmetric] by (simp add: same_problem_def F)
qed

lemma augment_frame:
  assumes "augment v e s = Some (Inr s')"
  shows "augment v e (s\<lparr>c := X, alpha := A, beta := B\<rparr>)
     = Some (Inr (s'\<lparr>c := X, alpha := A, beta := B\<rparr>))"
proof -
  have "\<forall>s'. y = Inr s' \<longrightarrow> augment v e (s\<lparr>c := X, alpha := A, beta := B\<rparr>)
     = Some (Inr (s'\<lparr>c := X, alpha := A, beta := B\<rparr>))" if "augment v e s = Some y" for y
  proof (rule augment.raw_induct[where
        P = "\<lambda>v e s y. \<forall>s'. y = Inr s' \<longrightarrow> augment v e (s\<lparr>c := X, alpha := A, beta := B\<rparr>)
     = Some (Inr (s'\<lparr>c := X, alpha := A, beta := B\<rparr>))", OF _ that])
    fix f :: "int \<Rightarrow> int \<Rightarrow> state \<Rightarrow> (error + state) option" and v e s va
    assume IH: "\<And>v e s y. f v e s = Some y \<Longrightarrow>
        \<forall>s'. y = Inr s' \<longrightarrow> augment v e (s\<lparr>c := X, alpha := A, beta := B\<rparr>)
          = Some (Inr (s'\<lparr>c := X, alpha := A, beta := B\<rparr>))"
      and body: "(if \<not> in_range s v \<or> \<not> in_range s e then Some (Inl IndexOutOfRange)
        else let aux = mate_V s ! nat v;
                 s1 = s\<lparr>mate_V := (mate_V s)[nat v := e]\<rparr>;
                 s2 = s1\<lparr>mate_U := (mate_U s1)[nat e := v]\<rparr>
             in if parent s2 ! nat v \<noteq> - 1 then f (parent s2 ! nat v) aux s2 else Some (Inr s2)) = Some va"
    define s2 where "s2 = s\<lparr>mate_V := (mate_V s)[nat v := e], mate_U := (mate_U s)[nat e := v]\<rparr>"
    define t where "t = s\<lparr>c := X, alpha := A, beta := B\<rparr>"
    have t2: "t\<lparr>mate_V := (mate_V s)[nat v := e], mate_U := (mate_U s)[nat e := v]\<rparr>
        = s2\<lparr>c := X, alpha := A, beta := B\<rparr>"
      by (simp add: t_def s2_def)
    have ir: "in_range t i = in_range s i" for i by (simp add: in_range_def t_def)
    have p2: "parent s2 = parent s" "parent t = parent s" "mate_V t = mate_V s"
      "mate_U t = mate_U s"
      by (simp_all add: s2_def t_def)
    have unf: "augment v e t =
      (if \<not> in_range s v \<or> \<not> in_range s e then Some (Inl IndexOutOfRange)
       else if parent s ! nat v \<noteq> - 1
            then augment (parent s ! nat v) (mate_V s ! nat v) (s2\<lparr>c := X, alpha := A, beta := B\<rparr>)
            else Some (Inr (s2\<lparr>c := X, alpha := A, beta := B\<rparr>)))"
      by (subst augment.simps) (simp add: Let_def ir t2 p2)
    show "\<forall>s'. va = Inr s' \<longrightarrow> augment v e (s\<lparr>c := X, alpha := A, beta := B\<rparr>)
          = Some (Inr (s'\<lparr>c := X, alpha := A, beta := B\<rparr>))"
      unfolding t_def[symmetric]
    proof (intro allI impI)
      fix s' assume va: "va = Inr s'"
      show "augment v e t = Some (Inr (s'\<lparr>c := X, alpha := A, beta := B\<rparr>))"
      proof (cases "\<not> in_range s v \<or> \<not> in_range s e")
        case True
        with body va show ?thesis by simp
      next
        case False
        show ?thesis
        proof (cases "parent s ! nat v \<noteq> -1")
          case True
          with body False have "f (parent s ! nat v) (mate_V s ! nat v) s2 = Some va"
            by (simp add: Let_def s2_def)
          from IH[OF this] va show ?thesis using unf False True by simp
        next
          case F2: False
          with body False have "s2 = s'" using va by (simp add: Let_def s2_def)
          thus ?thesis using unf False F2 by simp
        qed
      qed
    qed
  qed
  from this[OF assms] show ?thesis by simp
qed

lemma no_costs_fields:
  "N (no_costs s) = N s" "mate_V (no_costs s) = mate_V s" "mate_U (no_costs s) = mate_U s"
  "nhbor (no_costs s) = nhbor s" "parent (no_costs s) = parent s" "slack (no_costs s) = slack s"
  "label_V (no_costs s) = label_V s" "label_U (no_costs s) = label_U s"
  "v < N s \<Longrightarrow> u < N s \<Longrightarrow> rc (no_costs s) v u = 0"
  "no_costs s\<lparr>c := c s, alpha := alpha s, beta := beta s\<rparr> = s"
  by (simp_all add: no_costs_def rc_def)

lemma no_costs_base:
  assumes "base_sk s"
  shows "dims (no_costs s)" "matching (no_costs s)" "tight (no_costs s)"
    "base_inv 0 (no_costs s)"
proof -
  from assms have L: "length (mate_V s) = N s" "length (mate_U s) = N s" and m: "matching s"
    by (simp_all add: base_sk_def)
  show d: "dims (no_costs s)" using L by (simp add: dims_def no_costs_def)
  show m': "matching (no_costs s)"
    using m by (simp add: matching_def in_range_def no_costs_fields)
  show t: "tight (no_costs s)"
    unfolding tight_rc no_costs_fields
  proof (intro allI impI)
    fix v assume v: "v < N s" "mate_V s ! v \<noteq> - 1"
    show "rc (no_costs s) v (nat (mate_V s ! v)) = 0"
      using no_costs_fields(9)[OF v(1) matchingV(2)[OF m v]] .
  qed
  have "costs_ok 0 (no_costs s)" "feasible (no_costs s)" "duals_even (no_costs s)"
    "duals_bounded 0 (no_costs s)" "free_nonneg (no_costs s)"
    by (simp_all add: costs_ok_def feasible_def duals_even_def duals_bounded_def free_nonneg_def
        no_costs_def)
  thus "base_inv 0 (no_costs s)"
    unfolding base_inv_def using d m' t by (simp add: LLONG_MAX_def)
qed

lemma tree_ok_no_costs:
  assumes tr: "tree_sk rank s" and m: "matching s"
  shows "tree_ok rank (no_costs s)"
  unfolding tree_ok_def no_costs_fields
proof (intro allI impI conjI)
  fix v assume v: "v < N s" "label_V s ! v"
  note T = tree_skD[OF tr v]
  have td: "todo (no_costs s) = todo s" "matched_cols (no_costs s) = matched_cols s"
    by (simp_all add: todo_def matched_cols_def no_costs_fields)
  show "rank v + card (todo (no_costs s)) \<le> card (matched_cols (no_costs s))"
    using T(3) by (simp add: td)
  show "tree_row rank (no_costs s) v"
  proof (cases "mate_V s ! v = -1")
    case True
    thus ?thesis using T(1) by (simp add: tree_row_def no_costs_fields)
  next
    case False
    from T(2)[OF False] have p: "in_range s (parent s ! v)" "label_V s ! nat (parent s ! v)"
      "rank (nat (parent s ! v)) < rank v" by auto
    have "rc (no_costs s) (nat (parent s ! v)) (nat (mate_V s ! v)) = 0"
      using no_costs_fields(9)[OF in_rangeD(2)[OF p(1)] matchingV(2)[OF m v(1) False]] .
    thus ?thesis using False p by (simp add: tree_row_def no_costs_fields in_range_def)
  qed
qed



lemma found_sk_augment:
  assumes f: "found_sk u s"
  shows "\<exists>s'. augment (nhbor s ! u) (int u) s = Some (Inr s') \<and> base_sk s' \<and> N s' = N s \<and>
     c s' = c s \<and> card (free_rows s') + 1 = card (free_rows s)"
proof -
  from f have inv: "struct_inv s" and u: "u < N s" "mate_U s ! u = -1"
    and nr: "in_range s (nhbor s ! u)" and nl: "label_V s ! nat (nhbor s ! u)"
    by (simp_all add: found_sk_def)
  note I = struct_invD[OF inv]
  note dsD = dims_searchD[OF I(5)]
  from I(9) obtain rank where tr: "tree_sk rank s" by blast
  note nh = in_rangeD[OF nr]
  have b: "base_sk s" using I by (simp add: base_sk_def)
  note nb = no_costs_base[OF b]
  note tk = tree_ok_no_costs[OF tr I(6)]
  define z where "z = no_costs s"
  have pre: "aug_pre rank (nat (nhbor s ! u)) u z"
    unfolding aug_pre_def z_def no_costs_fields in_range_def
  proof (intro conjI allI impI)
    show "dims (no_costs s)" "tight (no_costs s)" by (rule nb)+
    show "length (parent s) = N s" "length (label_V s) = N s" using dsD by simp_all
    show "nat (nhbor s ! u) < N s" "u < N s" "label_V s ! nat (nhbor s ! u)"
      using nh u nl by simp_all
    show "rc (no_costs s) (nat (nhbor s ! u)) u = 0"
      using no_costs_fields(9)[OF nh(2) u(1)] .
  next
    fix r assume r: "r < N s" "mate_V s ! r \<noteq> -1"
    show "0 \<le> mate_V s ! r" "mate_V s ! r < int (N s)" "mate_U s ! nat (mate_V s ! r) = int r"
      using matchingV[OF I(6) r] by auto
  next
    fix j assume j: "j < N s" "j \<noteq> u" "mate_U s ! j \<noteq> -1"
    show "0 \<le> mate_U s ! j" "mate_U s ! j < int (N s)" "mate_V s ! nat (mate_U s ! j) = int j"
      using matchingU[OF I(6) j(1,3)] by auto
  next
    fix r assume r: "r < N s"
    show "mate_V s ! r \<noteq> int u"
    proof
      assume a: "mate_V s ! r = int u"
      hence "mate_U s ! nat (mate_V s ! r) = int r" using matchingV(3)[OF I(6) r] by simp
      thus False using a u(2) by simp
    qed
  next
    fix r assume "r < N s" "label_V s ! r"
    thus "tree_row rank (no_costs s) r" using tree_okD(1)[OF tk] by (simp add: no_costs_fields)
  qed
  from augment_correct[OF pre] obtain z' where
    z': "augment (int (nat (nhbor s ! u))) (int u) z = Some (Inr z')" "aug_post z z'" by blast
  define s' where "s' = z'\<lparr>c := c s, alpha := alpha s, beta := beta s\<rparr>"
  have "augment (nhbor s ! u) (int u) (z\<lparr>c := c s, alpha := alpha s, beta := beta s\<rparr>) = Some (Inr s')"
    unfolding s'_def using augment_frame[OF z'(1)] nh(3) by simp
  hence au: "augment (nhbor s ! u) (int u) s = Some (Inr s')"
    by (simp add: z_def no_costs_fields(10))
  from z'(2) have po: "z' = z\<lparr>mate_V := mate_V z', mate_U := mate_U z'\<rparr>"
    "length (mate_V z') = N s" "length (mate_U z') = N s" "matching z'"
    "card (free_rows z') + 1 = card (free_rows z)"
    unfolding aug_post_def z_def no_costs_fields by blast+
  have Nz: "N z' = N s" by (subst po(1)) (simp add: z_def no_costs_fields)
  have F: "N s' = N s" "mate_V s' = mate_V z'" "mate_U s' = mate_U z'"
    "alpha s' = alpha s" "beta s' = beta s" "c s' = c s"
    by (simp_all add: s'_def Nz)
  have "matching s'" using po(4) by (simp add: matching_def in_range_def F Nz)
  hence "base_sk s'" using po(2,3) I(3,4) by (simp add: base_sk_def F)
  moreover have "free_rows s' = free_rows z'" "free_rows z = free_rows s"
    by (simp_all add: free_rows_def F Nz z_def no_costs_fields)
  ultimately show ?thesis using au po(5) F(1,6) by auto
qed

lemma phase_struct:
  assumes b: "base_sk s" and ph: "phase s = Some r"
  shows "\<exists>s'. r = Inr s' \<and> base_sk s' \<and> N s' = N s \<and> c s' = c s \<and>
     card (free_rows s') + 1 = card (free_rows s)"
proof -
  define t where "t = label_roots (initialize_search s)"
  note T = label_roots_struct[OF b, folded t_def]
  from ph obtain x where x: "search_augmenting_alternating_path t = Some x"
    by (cases "search_augmenting_alternating_path t") (simp_all add: phase_def t_def)
  from search_struct[OF x T(1)] obtain u s2 where
    s2: "x = Inr (u, s2)" "found_sk u s2" "same_problem t s2" by blast
  from found_sk_augment[OF s2(2)] obtain s' where
    s': "augment (nhbor s2 ! u) (int u) s2 = Some (Inr s')" "base_sk s'" "N s' = N s2"
      "c s' = c s2" "card (free_rows s') + 1 = card (free_rows s2)" by blast
  have sp: "same_problem s s2" using T(2) s2(3) by (rule same_problem_trans)
  have "phase s = Some (Inr s')" by (simp add: phase_def t_def[symmetric] x s2(1) s'(1))
  hence "r = Inr s'" using ph by simp
  moreover have "free_rows s2 = free_rows s" "N s2 = N s" "c s2 = c s"
    using sp by (simp_all add: free_rows_def same_problem_def)
  ultimately show ?thesis using s'(2,3,4,5) by simp
qed

lemma phases_struct:
  assumes "base_sk s0" "phases k s0 = Some r"
  shows "\<exists>s. r = Inr s \<and> base_sk s \<and> N s = N s0 \<and> c s = c s0 \<and>
     card (free_rows s) + k = card (free_rows s0)"
  using assms(2)
proof (induction k arbitrary: r)
  case 0
  then show ?case using assms(1) by auto
next
  case (Suc k)
  from Suc.prems obtain x where x: "phases k s0 = Some x"
    by (cases "phases k s0") simp_all
  from Suc.IH[OF x] obtain s where
    s: "x = Inr s" "base_sk s" "N s = N s0" "c s = c s0"
      "card (free_rows s) + k = card (free_rows s0)" by blast
  from Suc.prems have "phase s = Some r" by (simp add: x s(1))
  from phase_struct[OF s(2) this] obtain s' where
    "r = Inr s'" "base_sk s'" "N s' = N s" "c s' = c s"
    "card (free_rows s') + 1 = card (free_rows s)" by blast
  thus ?case using s(3,4,5) by auto
qed

lemma read_input_shape:
  "N (read_input n inp) = n" "length (min_col (read_input n inp)) = n"
proof -
  define s0 where "s0 = empty_state\<lparr>N := n, c := replicate n (replicate n 0),
                          min_col := replicate n LLONG_MAX\<rparr>"
  define P where "P t \<longleftrightarrow> N t = n \<and> length (min_col t) = n" for t :: state
  have cell: "P (read_cell inp v u t)" if "P t" for v u t
    using that by (simp add: P_def read_cell_def Let_def)
  have row: "P (fold (read_cell inp v) [0..<n] t)" if "P t" for v t
    by (rule fold_upt_rule[where P = "\<lambda>_. P"]) (use that cell in auto)
  have "P (fold (\<lambda>v. fold (read_cell inp v) [0..<n]) [0..<n] s0)"
    by (rule fold_upt_rule[where P = "\<lambda>_. P"]) (use row in \<open>auto simp: P_def s0_def\<close>)
  thus "N (read_input n inp) = n" "length (min_col (read_input n inp)) = n"
    by (simp_all add: read_input_def s0_def P_def)
qed

lemma start_state_struct:
  "base_sk (start_state n inp)" "N (start_state n inp) = n"
  "card (free_rows (start_state n inp)) = n"
proof -
  define s where "s = read_input n inp"
  have S: "N s = n" "length (min_col s) = N s" using read_input_shape[of n inp] by (simp_all add: s_def)
  have e: "start_state n inp = s\<lparr>mate_V := replicate (N s) (-1), mate_U := replicate (N s) (-1),
       alpha := replicate (N s) 0, beta := min_col s\<rparr>"
    unfolding start_state_def s_def[symmetric] by (rule initialize_alpha_beta_closed[OF S(2)])
  show "base_sk (start_state n inp)"
    unfolding e using S by (simp add: base_sk_def matching_def)
  show "N (start_state n inp) = n" unfolding e using S by simp
  have "free_rows (start_state n inp) = {..<n}"
    unfolding e using S by (auto simp: free_rows_def)
  thus "card (free_rows (start_state n inp)) = n" by simp
qed

lemma perfect_struct:
  assumes b: "base_sk s" and c0: "card (free_rows s) = 0"
  shows "perfect_matching s"
proof -
  have "free_rows (no_costs s) = free_rows s" by (simp add: free_rows_def no_costs_fields)
  hence "phase_inv 0 (N (no_costs s)) (no_costs s)"
    unfolding phase_inv_def using no_costs_base(4)[OF b] c0 by (simp add: no_costs_fields)
  hence "perfect_matching (no_costs s)" by (rule final_perfect(1))
  thus ?thesis by (simp add: perfect_matching_def in_range_def no_costs_fields)
qed

lemma run_struct:
  assumes "hungarian_algorithm (read_input n inp) = Some r"
  shows "\<exists>s. r = Inr s \<and> N s = n \<and> perfect_matching s"
proof -
  have "phases n (start_state n inp) = Some r"
    using assms by (simp add: hungarian_algorithm_def start_state_def read_input_shape)
  from phases_struct[OF start_state_struct(1) this] obtain s where
    s: "r = Inr s" "base_sk s" "N s = N (start_state n inp)"
      "card (free_rows s) + n = card (free_rows (start_state n inp))" by blast
  have "card (free_rows s) = 0" using s(4) by (simp add: start_state_struct)
  hence "perfect_matching s" by (rule perfect_struct[OF s(2)])
  thus ?thesis using s(1,3) by (simp add: start_state_struct)
qed

lemma search_state_struct:
  assumes "search_state n inp s"
  shows "struct_inv s \<and> N s = n"
  using assms
proof (induction rule: search_state.induct)
  case (first_round i s)
  from phases_struct[OF start_state_struct(1) first_round(2)]
  have b: "base_sk s" and Ns: "N s = n" by (simp_all add: start_state_struct)
  note L = label_roots_struct[OF b]
  show ?case using L Ns by (simp add: same_problem_def)
next
  case (next_round s s')
  hence inv: "struct_inv s" and Ns: "N s = n" by auto
  from search_round_struct[OF inv] next_round(2) have "struct_inv s'" "same_problem s s'"
    by auto
  thus ?case using Ns by (simp add: same_problem_def)
qed

lemma search_state_pos:
  assumes "search_state n inp s"
  shows "0 < n"
  using assms by (induction rule: search_state.induct) simp_all

lemma overflow_one_p1: "main_p1 1 [[4611686018427387904]] = Some (Inr (- 4611686018427387904))"
  by code_simp

lemma overflow_one_p2: "main_cost_p2 1 [[4611686018427387904]] = Some (Inr (- 4611686018427387904))"
  by code_simp

subsection \<open>More runs that overflow\<close>

lemma overflow3_run: "phases 3 (start_state 3 overflow_input3) = Some (Inr overflow_final3)"
  by code_simp

lemma overflow3_cost: "main_cost 3 overflow_input3 = Some (Inr 1)"
  by code_simp

lemma overflow3_cost_p1: "main_p1 3 overflow_input3 = Some (Inr 1)"
  by code_simp

lemma overflow3_cost_p2: "main_cost_p2 3 overflow_input3 = Some (Inr 1)"
  by code_simp

lemma not_optimal3: "\<not> optimal_cost 3 overflow_input3 1"
proof
  assume "optimal_cost 3 overflow_input3 1"
  hence a: "\<forall>sigma. is_assignment 3 sigma \<longrightarrow> 1 \<le> assignment_cost 3 overflow_input3 sigma"
    by (simp add: optimal_cost_def)
  have "bij_betw (\<lambda>v::nat. v) {..<3} {..<3}" by (rule bij_betw_imageI) simp_all
  hence "is_assignment 3 (\<lambda>v. v)" by (simp add: is_assignment_def)
  with a have "1 \<le> assignment_cost 3 overflow_input3 (\<lambda>v. v)" by blast
  moreover have "assignment_cost 3 overflow_input3 (\<lambda>v. v) = 0"
    by (simp add: assignment_cost_def overflow_input3_def lessThan_nat_numeral lessThan_Suc)
  ultimately show False by simp
qed

lemma overflow3_infeasible:
  "alpha overflow_final3 ! 1 + beta overflow_final3 ! 1 = 4" "c overflow_final3 ! 1 ! 1 = 0"
  "overflow_input3 ! 1 ! 1 = 0" "\<not> feasible overflow_final3"
proof -
  show a: "alpha overflow_final3 ! 1 + beta overflow_final3 ! 1 = 4"
    and b: "c overflow_final3 ! 1 ! 1 = 0" and "overflow_input3 ! 1 ! 1 = 0"
    by (simp_all add: overflow_final3_def overflow_input3_def)
  show "\<not> feasible overflow_final3"
  proof
    assume "feasible overflow_final3"
    hence "alpha overflow_final3 ! 1 + beta overflow_final3 ! 1 \<le> c overflow_final3 ! 1 ! 1"
      by (rule feasibleD) (simp_all add: overflow_final3_def)
    thus False unfolding a b by simp
  qed
qed

lemma overflow3_not_tight:
  "mate_V overflow_final3 ! 0 = 1"
  "alpha overflow_final3 ! 0 + beta overflow_final3 ! 1 = 9223372036854775808"
  "c overflow_final3 ! 0 ! 1 = - 9223372036854775808" "\<not> tight overflow_final3"
proof -
  show a: "mate_V overflow_final3 ! 0 = 1"
    and b: "alpha overflow_final3 ! 0 + beta overflow_final3 ! 1 = 9223372036854775808"
    and d: "c overflow_final3 ! 0 ! 1 = - 9223372036854775808"
    by (simp_all add: overflow_final3_def)
  show "\<not> tight overflow_final3"
  proof
    assume "tight overflow_final3"
    hence "\<forall>v<N overflow_final3. mate_V overflow_final3 ! v \<noteq> -1 \<longrightarrow>
        alpha overflow_final3 ! v + beta overflow_final3 ! nat (mate_V overflow_final3 ! v)
          = c overflow_final3 ! v ! nat (mate_V overflow_final3 ! v)"
      by (simp add: tight_def)
    moreover have "0 < N overflow_final3" by (simp add: overflow_final3_def)
    ultimately have "mate_V overflow_final3 ! 0 \<noteq> -1 \<longrightarrow>
        alpha overflow_final3 ! 0 + beta overflow_final3 ! nat (mate_V overflow_final3 ! 0)
          = c overflow_final3 ! 0 ! nat (mate_V overflow_final3 ! 0)" by blast
    thus False unfolding a using b d by simp
  qed
qed

lemma overflow1_run:
  "hungarian_algorithm (read_input 1 [[4611686018427387904]]) = Some (Inr overflow_final1)"
  by code_simp

lemma overflow1_not_tight:
  "mate_V overflow_final1 ! 0 = 0" "alpha overflow_final1 ! 0 + beta overflow_final1 ! 0 = - 9223372036854775808"
  "c overflow_final1 ! 0 ! 0 = - 9223372036854775808"
  by (simp_all add: overflow_final1_def)

lemma overflow_stuck_state: "search_state 2 overflow_input overflow_stuck"
proof -
  have "phases 1 (start_state 2 overflow_input) = Some (Inr overflow_phase1)"
    using overflow_run1 by (simp only: One_nat_def)
  hence "search_state 2 overflow_input (label_roots (initialize_search overflow_phase1))"
    by (rule search_state.first_round[of 1, rotated]) simp
  thus ?thesis using overflow_round1 by (rule search_state.next_round)
qed

lemma overflow_stuck_min: "min_slack overflow_stuck = 1"
  by code_simp

lemma overflow_stuck_theta: "update_alpha_beta overflow_stuck = (0, overflow_stuck)"
  by code_simp

lemma overflow_stuck_scan: "scan_round overflow_stuck = Inr ([], overflow_stuck)"
  by code_simp

lemma overflow_stuck_slack:
  "unlabelled_U overflow_stuck 0" "unlabelled_U overflow_stuck 1"
  "slack overflow_stuck ! 0 = 1" "slack overflow_stuck ! 1 = 1"
  by (simp_all add: overflow_stuck_def unlabelled_U_def)

lemma overflow_search_p1:
  "search_p1 (label_roots (initialize_search overflow_phase1)) = Some (Inr (False, overflow_stuck))"
  by code_simp

lemma overflow_stuck_nhbor:
  "nhbor overflow_stuck ! 0 = - 1" "slack overflow_stuck ! 0 < LLONG_MAX"
  "admissible_U overflow_stuck 0 = False"
  by (simp_all add: overflow_stuck_def LLONG_MAX_def admissible_U_def)

lemma overflow_match: "main_match 2 overflow_input = None"
  using overflow_diverges by (simp add: main_match_def)

lemma update_slack_sets_nhbor:
  assumes "length (slack t) = N t" "length (nhbor t) = N t" "u < N t"
    "slack (update_slack v t) ! u \<noteq> slack t ! u"
  shows "nhbor (update_slack v t) ! u = int v"
proof -
  note e = update_slack_closed[OF assms(1,2), of v]
  have s: "slack (update_slack v t) ! u = (if slack_hit t v u then bound_of t v u else slack t ! u)"
    and n: "nhbor (update_slack v t) ! u = (if slack_hit t v u then int v else nhbor t ! u)"
    using assms(3) by (simp_all add: e)
  from s assms(4) have "slack_hit t v u" by (cases "slack_hit t v u") simp_all
  thus ?thesis using n by simp
qed

lemma struct_parity:
  assumes "struct_inv s" "u < N s" "nhbor s ! u = -1"
  shows "odd (slack s ! u)"
  using nh_okD[OF struct_invD(8)[OF assms(1)] assms(2)] assms(3) by (auto simp: in_range_def)

lemma search_inv_nhbor:
  assumes "search_inv B s" "u < N s" "\<not> label_U s ! u"
  shows "nhbor s ! u \<noteq> -1"
proof -
  from assms(1) have "slack_ok s" by (simp add: search_inv_def)
  from slack_okD(1)[OF this assms(2,3)] show ?thesis by simp
qed

lemma found_inv_nhbor:
  assumes "found_inv B u0 s" "u < N s" "\<not> label_U s ! u"
  shows "nhbor s ! u \<noteq> -1"
proof -
  from assms have "in_range s (nhbor s ! u)" by (simp add: found_inv_def)
  thus ?thesis by (simp add: in_range_def)
qed


section \<open>The claims\<close>

text \<open>
  C1, as amended. For every \<open>N \<ge> 0\<close> and every \<open>N \<times> N\<close> matrix of non-negative costs
  \<open>x\<close> with \<open>4 (N + 1) x \<le> LLONG_MAX\<close>, the run in cost mode ends and prints the minimum, over
  all bijections from rows to columns, of the total cost in unscaled units.
\<close>

theorem C1_optimal_cost:
  assumes "valid_input n inp"
  shows "\<exists>x. main_cost n inp = Some (Inr x) \<and> optimal_cost n inp x"
  using main_cost_correct[OF assms] .

theorem C1_optimal_cost_witness:
  "valid_input 2 [[1, 2], [3, 1]] \<and>
   (\<exists>x. main_cost 2 [[1, 2], [3, 1]] = Some (Inr x) \<and> optimal_cost 2 [[1, 2], [3, 1]] x)"
  using C1_optimal_cost[OF valid_example] valid_example by blast

text \<open>
  C1, as stated, fails where the doubling of a cost overflows 64 bits: on the \<open>1 \<times> 1\<close>
  matrix with the single cost \<open>2^62\<close> the program prints \<open>-2^62\<close>, which is not the cost of
  the only assignment, and on \<open>overflow_input3\<close>, where the diagonal is an assignment of
  cost 0, it prints 1.
\<close>

theorem C1_overflow_counterexample:
  "main_cost 1 [[4611686018427387904]] = Some (Inr (- 4611686018427387904)) \<and>
   \<not> optimal_cost 1 [[4611686018427387904]] (- 4611686018427387904) \<and>
   main_cost 3 overflow_input3 = Some (Inr 1) \<and> \<not> optimal_cost 3 overflow_input3 1"
  using overflow_one not_optimal_one overflow3_cost not_optimal3 by blast

text \<open>
  C2, as amended. For every \<open>N \<times> N\<close> matrix of non-negative integers \<open>x\<close> with
  \<open>4 (N + 1) x \<le> LLONG_MAX\<close> the driver completes, and the matching it leaves is a bijection
  between rows and columns: every \<open>mate_V[v]\<close> is a column in \<open>[0, N)\<close>, all distinct, every
  \<open>mate_U[u]\<close> is a row in \<open>[0, N)\<close>, all distinct, and \<open>mate_V[v] = u\<close> holds if and only if
  \<open>mate_U[u] = v\<close>; in match mode the program prints \<open>mate_V\<close>. On every other input the
  driver uses no index out of range, and if it completes, the matching it leaves is such a
  bijection as well.
\<close>

theorem C2_perfect_matching:
  "(\<forall>r. hungarian_algorithm (read_input n inp) = Some r \<longrightarrow>
      (\<exists>s. r = Inr s \<and> N s = n \<and> perfect_matching s \<and>
         main_match n inp = Some (Inr (mate_V s)))) \<and>
   (valid_input n inp \<longrightarrow>
      (\<exists>s. hungarian_algorithm (read_input n inp) = Some (Inr s) \<and> N s = n \<and>
         perfect_matching s \<and> main_match n inp = Some (Inr (mate_V s))))"
proof -
  have 1: "\<exists>s. r = Inr s \<and> N s = n \<and> perfect_matching s \<and>
         main_match n inp = Some (Inr (mate_V s))"
    if h: "hungarian_algorithm (read_input n inp) = Some r" for r
  proof -
    from run_struct[OF h] obtain s where s: "r = Inr s" "N s = n" "perfect_matching s" by blast
    from s(3) have "length (mate_V s) = N s" by (simp add: perfect_matching_def)
    hence "map (\<lambda>v. mate_V s ! v) [0..<N s] = mate_V s" using map_nth[of "mate_V s"] by simp
    hence "main_match n inp = Some (Inr (mate_V s))" using h s(1) by (simp add: main_match_def)
    thus ?thesis using s by blast
  qed
  have 2: "\<exists>s. hungarian_algorithm (read_input n inp) = Some (Inr s) \<and> N s = n \<and>
         perfect_matching s \<and> main_match n inp = Some (Inr (mate_V s))"
    if vi: "valid_input n inp"
  proof -
    from run_correct[OF vi] obtain s where
      s: "hungarian_algorithm (read_input n inp) = Some (Inr s)" by blast
    from 1[OF s] show ?thesis using s by auto
  qed
  show ?thesis using 1 2 by blast
qed

theorem C2_perfect_matching_witness:
  "valid_input 2 [[1, 2], [3, 1]] \<and>
   (\<exists>s. hungarian_algorithm (read_input 2 [[1, 2], [3, 1]]) = Some (Inr s) \<and> perfect_matching s)"
proof -
  have h: "valid_input 2 [[1, 2], [3, 1]]" by (rule valid_example)
  note T = C2_perfect_matching[of 2 "[[1, 2], [3, 1]]"]
  from T h obtain s where s: "hungarian_algorithm (read_input 2 [[1, 2], [3, 1]]) = Some (Inr s)"
    "perfect_matching s" by blast
  thus ?thesis using h by blast
qed

text \<open>
  C2, as stated, fails where the arithmetic overflows: on \<open>overflow_input\<close>, a \<open>2 \<times> 2\<close>
  matrix of non-negative integers, the search of the second phase never returns, so the
  driver does not complete, leaves no matching, and match mode prints nothing.
\<close>

theorem C2_overflow_counterexample:
  "hungarian_algorithm (read_input 2 overflow_input) = None \<and> main_match 2 overflow_input = None"
  using overflow_diverges overflow_match by (rule conjI)

text \<open>
  C3, as amended. For every \<open>N\<close> and every \<open>N \<times> N\<close> matrix of non-negative costs \<open>x\<close> with
  \<open>4 (N + 1) x \<le> LLONG_MAX\<close>, the three formulations print the same cost, the optimal one:
  part\_001 as the sum of the matched edge costs divided by 2, hungarian.cpp and part\_002 as
  the sum of \<open>alpha\<close> and \<open>beta\<close> divided by 2.
\<close>

theorem C3_formulations_agree:
  assumes "valid_input n inp"
  shows "main_cost_p2 n inp = main_cost n inp \<and> main_p1 n inp = main_cost n inp \<and>
     (\<exists>x. main_cost n inp = Some (Inr x) \<and> optimal_cost n inp x)"
  using main_cost_p2_eq[OF assms] main_p1_eq[OF assms] main_cost_correct[OF assms] by simp

theorem C3_formulations_agree_witness:
  "valid_input 2 [[1, 2], [3, 1]] \<and>
   main_cost_p2 2 [[1, 2], [3, 1]] = main_cost 2 [[1, 2], [3, 1]] \<and>
   main_p1 2 [[1, 2], [3, 1]] = main_cost 2 [[1, 2], [3, 1]]"
  using C3_formulations_agree[OF valid_example] valid_example by blast

text \<open>
  C3, as stated, fails where the arithmetic overflows. On \<open>overflow_input\<close> hungarian.cpp
  never returns, while the bounded loop of part\_001 falls through and the program then
  reads \<open>c[v][-1]\<close>. On \<open>overflow_input3\<close> the three programs agree, on 1, which is not the
  optimal cost.
\<close>

theorem C3_overflow_counterexample:
  "main_cost 2 overflow_input = None \<and> main_p1 2 overflow_input = Some (Inl IndexOutOfRange) \<and>
   main_cost 3 overflow_input3 = Some (Inr 1) \<and> main_p1 3 overflow_input3 = Some (Inr 1) \<and>
   main_cost_p2 3 overflow_input3 = Some (Inr 1) \<and> \<not> optimal_cost 3 overflow_input3 1"
  using overflow_diverges overflow_p1 overflow3_cost overflow3_cost_p1 overflow3_cost_p2 not_optimal3
  by (simp add: main_cost_def)

text \<open>
  C4, as amended. Dual feasibility is an invariant on the inputs that leave the 64-bit
  arithmetic its room (\<open>valid_input\<close>). On every such input, \<open>alpha\<close> starts at zero and
  \<open>beta[u]\<close> at the minimum doubled cost of column \<open>u\<close>; at the end of every phase,
  at the head of every round of the search, and after every dual update,
  \<open>alpha[v] + beta[u] \<le> c[v][u]\<close> holds for all rows and columns, where \<open>c\<close> is twice the
  input, so that the same holds in unscaled costs.
\<close>

theorem C4_dual_feasibility:
  assumes "valid_input n inp"
  shows "(\<forall>v<n. alpha (start_state n inp) ! v = 0) \<and>
    (\<forall>u<n. (\<exists>v<n. beta (start_state n inp) ! u = c (start_state n inp) ! v ! u) \<and>
            (\<forall>v<n. beta (start_state n inp) ! u \<le> c (start_state n inp) ! v ! u)) \<and>
    (\<forall>k\<le>n. \<exists>s. phases k (start_state n inp) = Some (Inr s) \<and> N s = n \<and> feasible s \<and>
        (\<forall>v<n. \<forall>u<n. c s ! v ! u = 2 * inp ! v ! u \<and>
           alpha s ! v + beta s ! u \<le> 2 * inp ! v ! u)) \<and>
    (\<forall>s. search_state n inp s \<longrightarrow> feasible s \<and> feasible (snd (update_alpha_beta s)))"
proof (intro conjI allI impI)
  note S = start_state_props[OF assms]
  show "alpha (start_state n inp) ! v = 0" if "v < n" for v using S(4)[OF that] .
  show "\<exists>v<n. beta (start_state n inp) ! u = c (start_state n inp) ! v ! u" if "u < n" for u
    using S(5)[OF that] S(3) that by auto
  show "beta (start_state n inp) ! u \<le> c (start_state n inp) ! v ! u" if "u < n" "v < n" for u v
    using S(6)[OF that(2,1)] S(3)[OF that(2,1)] by simp
next
  fix k assume "k \<le> n"
  from phases_props[OF assms this] obtain s where
    s: "phases k (start_state n inp) = Some (Inr s)" "phase_inv (cost_bound n) k s" "N s = n"
      "\<forall>v<n. \<forall>u<n. c s ! v ! u = 2 * inp ! v ! u" by blast
  from s(2) have f: "feasible s" by (simp add: phase_inv_def base_inv_def)
  have "\<forall>v<n. \<forall>u<n. c s ! v ! u = 2 * inp ! v ! u \<and> alpha s ! v + beta s ! u \<le> 2 * inp ! v ! u"
    using s(3,4) feasibleD[OF f] by auto
  thus "\<exists>s. phases k (start_state n inp) = Some (Inr s) \<and> N s = n \<and> feasible s \<and>
        (\<forall>v<n. \<forall>u<n. c s ! v ! u = 2 * inp ! v ! u \<and>
           alpha s ! v + beta s ! u \<le> 2 * inp ! v ! u)"
    using s(1,3) f by blast
next
  fix s assume st: "search_state n inp s"
  show "feasible s" using search_state_inv[OF assms st] by (simp add: search_inv_def base_inv_def)
  show "feasible (snd (update_alpha_beta s))"
    using search_state_shift(1)[OF assms st] by (simp add: base_inv_def)
qed

theorem C4_dual_feasibility_witness:
  "valid_input 2 [[1, 2], [3, 1]] \<and>
   (\<exists>s. phases 2 (start_state 2 [[1, 2], [3, 1]]) = Some (Inr s) \<and> feasible s)"
proof -
  have h: "valid_input 2 [[1, 2], [3, 1]]" by (rule valid_example)
  from C4_dual_feasibility[OF h] have
    "\<forall>k\<le>2. \<exists>s. phases k (start_state 2 [[1, 2], [3, 1]]) = Some (Inr s) \<and> N s = 2 \<and> feasible s \<and>
        (\<forall>v<2. \<forall>u<2. c s ! v ! u = 2 * [[1, 2], [3, 1]] ! v ! u \<and>
           alpha s ! v + beta s ! u \<le> 2 * [[1, 2], [3, 1]] ! v ! u)"
    by blast
  hence "\<exists>s. phases 2 (start_state 2 [[1, 2], [3, 1]]) = Some (Inr s) \<and> feasible s" by blast
  thus ?thesis using h by blast
qed

text \<open>
  C4, as stated, fails where the arithmetic overflows: the run on \<open>overflow_input3\<close>, a matrix
  of non-negative integers, ends in a state with \<open>alpha[1] + beta[1] = 4\<close> and
  \<open>c[1][1] = 0\<close>, for the input cost 0.
\<close>

theorem C4_overflow_counterexample:
  "phases 3 (start_state 3 overflow_input3) = Some (Inr overflow_final3) \<and>
   alpha overflow_final3 ! 1 + beta overflow_final3 ! 1 = 4 \<and> c overflow_final3 ! 1 ! 1 = 0 \<and>
   overflow_input3 ! 1 ! 1 = 0 \<and> \<not> feasible overflow_final3"
  using overflow3_run overflow3_infeasible by blast

text \<open>
  C5, as amended. Tightness on matched edges is an invariant on the inputs that leave the
  64-bit arithmetic its room (\<open>valid_input\<close>). On every such input, at the end of every
  phase, at the head of every round of the search and after every dual update, every matched
  pair satisfies \<open>alpha[v] + beta[mate_V[v]] = c[v][mate_V[v]]\<close>, where \<open>c\<close> is twice the input.
  When the search returns column \<open>u\<close>, the edges that \<open>augment\<close> is about to put into the
  matching are tight: the edge from \<open>nhbor[u]\<close> to \<open>u\<close>, whose slack is zero, and for every
  labelled matched row \<open>v\<close> the edge from \<open>parent[v]\<close> to the column of \<open>v\<close>.
\<close>

theorem C5_tightness:
  assumes "valid_input n inp"
  shows "(\<forall>k\<le>n. \<exists>s. phases k (start_state n inp) = Some (Inr s) \<and> N s = n \<and> tight s \<and>
        (\<forall>v<n. \<forall>u<n. c s ! v ! u = 2 * inp ! v ! u)) \<and>
    (\<forall>s. search_state n inp s \<longrightarrow> tight s \<and> tight (snd (update_alpha_beta s))) \<and>
    (\<forall>s u s2. search_state n inp s \<and> search_round s = Inr (Found u s2) \<longrightarrow>
        admissible_U s2 u \<and> in_range s2 (nhbor s2 ! u) \<and>
        alpha s2 ! nat (nhbor s2 ! u) + beta s2 ! u = c s2 ! nat (nhbor s2 ! u) ! u \<and>
        (\<forall>v<n. label_V s2 ! v \<and> mate_V s2 ! v \<noteq> -1 \<longrightarrow>
           in_range s2 (parent s2 ! v) \<and> in_range s2 (mate_V s2 ! v) \<and>
           alpha s2 ! nat (parent s2 ! v) + beta s2 ! nat (mate_V s2 ! v)
             = c s2 ! nat (parent s2 ! v) ! nat (mate_V s2 ! v)))"
proof (intro conjI allI impI)
  fix k assume "k \<le> n"
  from phases_props[OF assms this] obtain s where
    s: "phases k (start_state n inp) = Some (Inr s)" "phase_inv (cost_bound n) k s" "N s = n"
      "\<forall>v<n. \<forall>u<n. c s ! v ! u = 2 * inp ! v ! u" by blast
  from s(2) have "tight s" by (simp add: phase_inv_def base_inv_def)
  thus "\<exists>s. phases k (start_state n inp) = Some (Inr s) \<and> N s = n \<and> tight s \<and>
        (\<forall>v<n. \<forall>u<n. c s ! v ! u = 2 * inp ! v ! u)"
    using s(1,3,4) by blast
next
  fix s assume st: "search_state n inp s"
  show "tight s" using search_state_inv[OF assms st] by (simp add: search_inv_def base_inv_def)
  show "tight (snd (update_alpha_beta s))"
    using search_state_shift(1)[OF assms st] by (simp add: base_inv_def)
next
  fix s u s2 assume a: "search_state n inp s \<and> search_round s = Inr (Found u s2)"
  from search_state_inv[OF assms] a have inv: "search_inv (cost_bound n) s" and Ns: "N s = n"
    by auto
  from search_round_inv[OF inv] a have f: "found_inv (cost_bound n) u s2"
    and sp: "same_problem s s2" by auto
  have N2: "N s2 = n" using sp Ns by (simp add: same_problem_def)
  show "admissible_U s2 u" "in_range s2 (nhbor s2 ! u)"
    "alpha s2 ! nat (nhbor s2 ! u) + beta s2 ! u = c s2 ! nat (nhbor s2 ! u) ! u"
    using f by (simp_all add: found_inv_def admissible_U_def rc_zero_iff)
  fix v assume v: "v < n" "label_V s2 ! v \<and> mate_V s2 ! v \<noteq> -1"
  hence v': "v < N s2" "label_V s2 ! v" "mate_V s2 ! v \<noteq> -1" using N2 by simp_all
  show "in_range s2 (parent s2 ! v)" "in_range s2 (mate_V s2 ! v)"
    "alpha s2 ! nat (parent s2 ! v) + beta s2 ! nat (mate_V s2 ! v)
             = c s2 ! nat (parent s2 ! v) ! nat (mate_V s2 ! v)"
    using found_tree_tight[OF f v'] by simp_all
qed

theorem C5_tightness_witness:
  "valid_input 2 [[1, 2], [3, 1]] \<and>
   (\<exists>s. phases 2 (start_state 2 [[1, 2], [3, 1]]) = Some (Inr s) \<and> tight s)"
proof -
  have h: "valid_input 2 [[1, 2], [3, 1]]" by (rule valid_example)
  from C5_tightness[OF h] have
    "\<forall>k\<le>2. \<exists>s. phases k (start_state 2 [[1, 2], [3, 1]]) = Some (Inr s) \<and> N s = 2 \<and> tight s \<and>
        (\<forall>v<2. \<forall>u<2. c s ! v ! u = 2 * [[1, 2], [3, 1]] ! v ! u)"
    by blast
  hence "\<exists>s. phases 2 (start_state 2 [[1, 2], [3, 1]]) = Some (Inr s) \<and> tight s" by blast
  thus ?thesis using h by blast
qed

text \<open>
  C5, as stated, fails where the arithmetic overflows. The run on \<open>overflow_input3\<close> ends
  with row 0 matched to column 1, \<open>alpha[0] + beta[1] = 2^63\<close> and \<open>c[0][1] = -2^63\<close>: the
  two agree only modulo \<open>2^64\<close>. The run on the \<open>1 \<times> 1\<close> matrix with the cost \<open>2^62\<close> ends
  with \<open>alpha[0] + beta[0] = c[0][0] = -2^63\<close>, which is not twice the input cost.
\<close>

theorem C5_overflow_counterexample:
  "phases 3 (start_state 3 overflow_input3) = Some (Inr overflow_final3) \<and>
   mate_V overflow_final3 ! 0 = 1 \<and>
   alpha overflow_final3 ! 0 + beta overflow_final3 ! 1 = 9223372036854775808 \<and>
   c overflow_final3 ! 0 ! 1 = - 9223372036854775808 \<and> \<not> tight overflow_final3 \<and>
   hungarian_algorithm (read_input 1 [[4611686018427387904]]) = Some (Inr overflow_final1) \<and>
   mate_V overflow_final1 ! 0 = 0 \<and>
   alpha overflow_final1 ! 0 + beta overflow_final1 ! 0 = - 9223372036854775808"
  using overflow3_run overflow3_not_tight overflow1_run overflow1_not_tight(1,2) by blast

text \<open>
  C6, as amended. The costs are doubled on load. In every round of the search on an input
  that leaves the 64-bit arithmetic its room (\<open>valid_input\<close>) the
  minimum slack over the unlabelled columns is even, non-negative and finite, so halving it
  is exact, and the decrement of an unlabelled slack by \<open>2 * theta\<close> subtracts exactly that
  minimum, without wrapping. Every slack of an unlabelled column is even and
  \<open>alpha[v] + beta[u]\<close> is even for all rows and columns, before and after the dual update.
\<close>

theorem C6_theta_even:
  assumes "valid_input n inp"
  shows "(\<forall>v<n. \<forall>u<n. c (read_input n inp) ! v ! u = 2 * inp ! v ! u) \<and>
    (\<forall>s. search_state n inp s \<longrightarrow>
       even (min_slack s) \<and> 0 \<le> min_slack s \<and> min_slack s < LLONG_MAX \<and>
       (0 < min_slack s \<longrightarrow> 2 * ll_div (min_slack s) 2 = min_slack s) \<and>
       2 * fst (update_alpha_beta s) = min_slack s \<and>
       (\<forall>u<n. unlabelled_U s u \<longrightarrow> even (slack s ! u) \<and>
          ll (slack s ! u - ll (2 * fst (update_alpha_beta s))) = slack s ! u - min_slack s) \<and>
       duals_even s \<and> duals_even (snd (update_alpha_beta s)))"
proof (intro conjI allI impI)
  fix v u assume "v < n" "u < n"
  thus "c (read_input n inp) ! v ! u = 2 * inp ! v ! u" by (rule valid_input_doubled[OF assms])
next
  fix s assume st: "search_state n inp s"
  from search_state_inv[OF assms st] have inv: "search_inv (cost_bound n) s" and Ns: "N s = n"
    by auto
  note sh = search_state_shift[OF assms st]
  from search_inv_free_col[OF inv] obtain u0 where u0: "u0 < n" "\<not> label_U s ! u0"
    using Ns by auto
  show t2: "2 * fst (update_alpha_beta s) = min_slack s" by (rule sh(2))
  show e: "even (min_slack s)" unfolding t2[symmetric] by simp
  show m0: "0 \<le> min_slack s" using sh(2,3) by linarith
  show "min_slack s < LLONG_MAX" using slack_decrement(5)[OF assms st u0] .
  show "2 * ll_div (min_slack s) 2 = min_slack s" if "0 < min_slack s"
    using e m0 by (simp add: ll_div_2)
  show "duals_even s" using inv by (simp add: search_inv_def base_inv_def)
  show "duals_even (snd (update_alpha_beta s))" using sh(1) by (simp add: base_inv_def)
  fix u assume u: "u < n" "unlabelled_U s u"
  hence nl: "\<not> label_U s ! u" by (simp add: unlabelled_U_def)
  show "even (slack s ! u)"
    "ll (slack s ! u - ll (2 * fst (update_alpha_beta s))) = slack s ! u - min_slack s"
    using slack_decrement(1,3)[OF assms st u(1) nl] by simp_all
qed

theorem C6_theta_even_witness:
  "valid_input 2 [[1, 2], [3, 1]] \<and>
   (\<exists>s. search_state 2 [[1, 2], [3, 1]] s \<and> even (min_slack s) \<and> duals_even s)"
proof -
  have h: "valid_input 2 [[1, 2], [3, 1]]" by (rule valid_example)
  have st: "search_state 2 [[1, 2], [3, 1]]
      (label_roots (initialize_search (start_state 2 [[1, 2], [3, 1]])))"
    by (rule search_state_first) simp
  from C6_theta_even[OF h] st
  have "even (min_slack (label_roots (initialize_search (start_state 2 [[1, 2], [3, 1]])))) \<and>
     duals_even (label_roots (initialize_search (start_state 2 [[1, 2], [3, 1]])))"
    by blast
  thus ?thesis using h st by blast
qed

text \<open>
  C6, as stated, fails where the arithmetic overflows: in the second phase of the run on
  \<open>overflow_input\<close> the search comes to a round in which the minimum slack over the
  unlabelled columns is 1, positive, finite and odd, and its half is 0.
\<close>

theorem C6_overflow_counterexample:
  "search_state 2 overflow_input overflow_stuck \<and> min_slack overflow_stuck = 1 \<and>
   update_alpha_beta overflow_stuck = (0, overflow_stuck)"
  using overflow_stuck_state overflow_stuck_min overflow_stuck_theta by blast

text \<open>
  C7, as amended. On every valid input (\<open>valid_input\<close>: the entries leave the 64-bit
  arithmetic its room) every phase is reached, and in every phase the search returns an unmatched admissible
  column within at most \<open>N\<close> rounds: the \<open>while (true)\<close> loop of hungarian.cpp terminates,
  and the \<open>for\<close> loop of part\_001, bounded by \<open>N\<close>, is left by the \<open>return\<close> that follows
  \<open>augment\<close>, never by its end.
\<close>

theorem C7_search_terminates:
  assumes "valid_input n inp"
  shows "(\<forall>i\<le>n. \<exists>s. phases i (start_state n inp) = Some (Inr s) \<and>
        phases_p1 i (start_state n inp) = Some (Inr s)) \<and>
    (\<forall>i<n. \<forall>s. phases i (start_state n inp) = Some (Inr s) \<longrightarrow>
       (\<exists>u s2. search_augmenting_alternating_path (label_roots (initialize_search s)) = Some (Inr (u, s2)) \<and>
          search_within n (label_roots (initialize_search s)) = Some (Inr (u, s2)) \<and>
          u < n \<and> unmatched_U s2 u \<and> admissible_U s2 u)) \<and>
    (\<forall>i<n. \<forall>s. phases_p1 i (start_state n inp) = Some (Inr s) \<longrightarrow>
       (\<exists>s'. search_p1 (label_roots (initialize_search s)) = Some (Inr (True, s'))))"
proof -
  note S = start_state_props[OF assms]
  have eq: "phases_p1 i (start_state n inp) = phases i (start_state n inp)" if "i \<le> n" for i
    using phases_p1_eq[OF S(1)] S(2) that by simp
  have 1: "\<exists>s. phases i (start_state n inp) = Some (Inr s) \<and>
        phases_p1 i (start_state n inp) = Some (Inr s)" if "i \<le> n" for i
    using phases_props[OF assms that] eq[OF that] by auto
  have 2: "\<exists>u s2. search_augmenting_alternating_path (label_roots (initialize_search s)) = Some (Inr (u, s2)) \<and>
          search_within n (label_roots (initialize_search s)) = Some (Inr (u, s2)) \<and>
          u < n \<and> unmatched_U s2 u \<and> admissible_U s2 u"
    if "i < n" "phases i (start_state n inp) = Some (Inr s)" for i s
  proof -
    from phase_run[OF assms that] obtain u s2 where
      r: "search_augmenting_alternating_path (label_roots (initialize_search s)) = Some (Inr (u, s2))"
        "search_within n (label_roots (initialize_search s)) = Some (Inr (u, s2))"
        "found_inv (cost_bound n) u s2" "N s2 = n" by blast
    from r(3,4) have "u < n" "unmatched_U s2 u" "admissible_U s2 u"
      by (simp_all add: found_inv_def unmatched_U_def admissible_U_def)
    thus ?thesis using r(1,2) by blast
  qed
  have 3: "\<exists>s'. search_p1 (label_roots (initialize_search s)) = Some (Inr (True, s'))"
    if "i < n" "phases_p1 i (start_state n inp) = Some (Inr s)" for i s
  proof -
    have "phases i (start_state n inp) = Some (Inr s)" using that eq[of i] by simp
    from phase_run[OF assms that(1) this] show ?thesis by blast
  qed
  show ?thesis using 1 2 3 by blast
qed

theorem C7_search_terminates_witness:
  "valid_input 2 [[1, 2], [3, 1]] \<and>
   (\<exists>u s2. search_within 2 (label_roots (initialize_search (start_state 2 [[1, 2], [3, 1]])))
        = Some (Inr (u, s2)) \<and> u < 2 \<and> unmatched_U s2 u \<and> admissible_U s2 u) \<and>
   (\<exists>s'. search_p1 (label_roots (initialize_search (start_state 2 [[1, 2], [3, 1]])))
        = Some (Inr (True, s')))"
proof -
  have h: "valid_input 2 [[1, 2], [3, 1]]" by (rule valid_example)
  have p0: "phases 0 (start_state 2 [[1, 2], [3, 1]]) = Some (Inr (start_state 2 [[1, 2], [3, 1]]))"
    "phases_p1 0 (start_state 2 [[1, 2], [3, 1]]) = Some (Inr (start_state 2 [[1, 2], [3, 1]]))"
    by simp_all
  note T = C7_search_terminates[OF h]
  from T p0(1) have "\<exists>u s2. search_augmenting_alternating_path (label_roots (initialize_search (start_state 2 [[1, 2], [3, 1]]))) = Some (Inr (u, s2)) \<and>
          search_within 2 (label_roots (initialize_search (start_state 2 [[1, 2], [3, 1]]))) = Some (Inr (u, s2)) \<and>
          u < 2 \<and> unmatched_U s2 u \<and> admissible_U s2 u"
    by (metis zero_less_numeral)
  moreover from T p0(2) have "\<exists>s'. search_p1 (label_roots (initialize_search (start_state 2 [[1, 2], [3, 1]])))
        = Some (Inr (True, s'))"
    by (metis zero_less_numeral)
  ultimately show ?thesis using h by blast
qed

text \<open>
  C7, as stated, fails where the arithmetic overflows: after the first phase of the run on
  \<open>overflow_input\<close> the \<open>while (true)\<close> loop of hungarian.cpp never returns, and the \<open>for\<close>
  loop of part\_001 runs to its end without an augmentation.
\<close>

theorem C7_overflow_counterexample:
  "phases (Suc 0) (start_state 2 overflow_input) = Some (Inr overflow_phase1) \<and>
   search_augmenting_alternating_path (label_roots (initialize_search overflow_phase1)) = None \<and>
   search_p1 (label_roots (initialize_search overflow_phase1)) = Some (Inr (False, overflow_stuck))"
  using overflow_run1 overflow_search overflow_search_p1 by blast

text \<open>
  C8, as amended. In every round of the search on an input that leaves the 64-bit arithmetic
  its room (\<open>valid_input\<close>), \<open>slack[u] \<ge> 0\<close> holds for every
  unlabelled column at the head of the round and when the scan of the columns is left, and
  at that moment the minimum slack over the unlabelled columns is exactly 0: the test
  \<open>slack[u] == 0\<close> never steps over zero, and the scan detects an admissible column in every
  round, the one it returns or the non-empty list it hands to the labelling.
\<close>

theorem C8_slack_nonnegative:
  assumes "valid_input n inp"
  shows "\<forall>s. search_state n inp s \<longrightarrow>
     (\<forall>u<n. unlabelled_U s u \<longrightarrow> 0 \<le> slack s ! u) \<and>
     (case scan_round s of
        Inl (u, s2) \<Rightarrow> u < n \<and> unlabelled_U s2 u \<and> admissible_U s2 u \<and> min_slack s2 = 0 \<and>
          (\<forall>j<n. unlabelled_U s2 j \<longrightarrow> 0 \<le> slack s2 ! j)
      | Inr (adm, s2) \<Rightarrow> adm \<noteq> [] \<and>
          (\<forall>u\<in>set adm. u < n \<and> unlabelled_U s2 u \<and> admissible_U s2 u) \<and> min_slack s2 = 0 \<and>
          (\<forall>j<n. unlabelled_U s2 j \<longrightarrow> 0 \<le> slack s2 ! j))"
proof (intro allI impI conjI)
  fix s u assume st: "search_state n inp s" and u: "u < n" "unlabelled_U s u"
  show "0 \<le> slack s ! u"
    using slack_decrement(2)[OF assms st u(1)] u(2) by (simp add: unlabelled_U_def)
next
  fix s assume st: "search_state n inp s"
  from search_state_inv[OF assms st] have inv: "search_inv (cost_bound n) s" and Ns: "N s = n"
    by auto
  note sc = scan_round_inv[OF inv]
  show "case scan_round s of
        Inl (u, s2) \<Rightarrow> u < n \<and> unlabelled_U s2 u \<and> admissible_U s2 u \<and> min_slack s2 = 0 \<and>
          (\<forall>j<n. unlabelled_U s2 j \<longrightarrow> 0 \<le> slack s2 ! j)
      | Inr (adm, s2) \<Rightarrow> adm \<noteq> [] \<and>
          (\<forall>u\<in>set adm. u < n \<and> unlabelled_U s2 u \<and> admissible_U s2 u) \<and> min_slack s2 = 0 \<and>
          (\<forall>j<n. unlabelled_U s2 j \<longrightarrow> 0 \<le> slack s2 ! j)"
  proof (cases "scan_round s")
    case (Inl p)
    obtain u s2 where p: "p = (u, s2)" by (cases p)
    from sc have f: "found_inv (cost_bound n) u s2" and sp: "same_problem s s2"
      by (simp_all add: Inl p)
    have N2: "N s2 = n" using sp Ns by (simp add: same_problem_def)
    from f have u: "u < N s2" "\<not> label_U s2 ! u" "slack s2 ! u = 0"
      and nn: "\<forall>j<N s2. \<not> label_U s2 ! j \<longrightarrow> 0 \<le> slack s2 ! j"
      by (simp_all add: found_inv_def)
    have "min_slack s2 = 0" using min_slack_zero[OF nn u] .
    thus ?thesis using u nn N2 by (simp add: Inl p unlabelled_U_def admissible_U_def)
  next
    case (Inr p)
    obtain adm s2 where p: "p = (adm, s2)" by (cases p)
    from sc have inv2: "search_inv (cost_bound n) s2" and sp: "same_problem s s2"
      and ne: "adm \<noteq> []"
      and aa: "\<forall>u\<in>set adm. u < N s2 \<and> \<not> label_U s2 ! u \<and> slack s2 ! u = 0 \<and> mate_U s2 ! u \<noteq> -1"
      by (simp_all add: Inr p)
    have N2: "N s2 = n" using sp Ns by (simp add: same_problem_def)
    have nn: "\<forall>j<N s2. \<not> label_U s2 ! j \<longrightarrow> 0 \<le> slack s2 ! j"
      using slack_ok_facts(1)[OF inv2] by blast
    from ne obtain u0 where u0: "u0 \<in> set adm" by (cases adm) auto
    with aa have "u0 < N s2" "\<not> label_U s2 ! u0" "slack s2 ! u0 = 0" by auto
    from min_slack_zero[OF nn this] have "min_slack s2 = 0" .
    thus ?thesis using ne aa nn N2 by (simp add: Inr p unlabelled_U_def admissible_U_def)
  qed
qed

theorem C8_slack_nonnegative_witness:
  "valid_input 2 [[1, 2], [3, 1]] \<and>
   (\<exists>s. search_state 2 [[1, 2], [3, 1]] s \<and> (\<forall>u<2. unlabelled_U s u \<longrightarrow> 0 \<le> slack s ! u))"
proof -
  have h: "valid_input 2 [[1, 2], [3, 1]]" by (rule valid_example)
  have st: "search_state 2 [[1, 2], [3, 1]]
      (label_roots (initialize_search (start_state 2 [[1, 2], [3, 1]])))"
    by (rule search_state_first) simp
  from C8_slack_nonnegative[OF h] st
  have "\<forall>u<2. unlabelled_U (label_roots (initialize_search (start_state 2 [[1, 2], [3, 1]]))) u \<longrightarrow>
     0 \<le> slack (label_roots (initialize_search (start_state 2 [[1, 2], [3, 1]]))) ! u"
    by blast
  thus ?thesis using h st by blast
qed

text \<open>
  C8, as stated, fails where the arithmetic overflows: in the second phase of the run on
  \<open>overflow_input\<close> the search comes to a round that leaves both unlabelled slacks at 1
  and finds no admissible column.
\<close>

theorem C8_overflow_counterexample:
  "search_state 2 overflow_input overflow_stuck \<and>
   scan_round overflow_stuck = Inr ([], overflow_stuck) \<and>
   unlabelled_U overflow_stuck 0 \<and> slack overflow_stuck ! 0 = 1 \<and>
   unlabelled_U overflow_stuck 1 \<and> slack overflow_stuck ! 1 = 1"
  using overflow_stuck_state overflow_stuck_scan overflow_stuck_slack by blast



text \<open>
  C10, as amended. On every input, whatever its entries, in every round of the search (so
  \<open>N \<ge> 1\<close>): every unlabelled column whose slack is 0 when the scan is left has \<open>nhbor[u]\<close>
  different from \<open>-1\<close>, a labelled row in \<open>[0, N)\<close>, because a call of \<open>update_slack\<close> that
  changes \<open>slack[u]\<close> also sets \<open>nhbor[u]\<close>, and the slack of a column whose \<open>nhbor\<close> is still
  \<open>-1\<close> is odd (\<open>LLONG_MAX\<close> less even amounts), so never 0. So the round never uses \<open>-1\<close> as
  a subscript: the labelling of the admissible matched columns succeeds, with \<open>mate_U[u]\<close> in
  range, and so does \<open>augment(nhbor[u], u)\<close> for the column that the search returns. On a
  valid input, moreover, the slack of an unlabelled column is below \<open>LLONG_MAX\<close> only where
  \<open>nhbor[u]\<close> has been set, at the head of every round and when the scan is left.
\<close>

theorem C10_nhbor_valid:
  "(\<forall>s. search_state n inp s \<longrightarrow> 1 \<le> n \<and>
     (\<forall>e. search_round s \<noteq> Inl e) \<and>
     (\<forall>j<n. nhbor s ! j = -1 \<longrightarrow> odd (slack s ! j)) \<and>
     (case scan_round s of
        Inl (u, s2) \<Rightarrow>
          (\<forall>j<n. nhbor s2 ! j = -1 \<longrightarrow> odd (slack s2 ! j)) \<and>
          (\<forall>j<n. unlabelled_U s2 j \<and> admissible_U s2 j \<longrightarrow>
             nhbor s2 ! j \<noteq> -1 \<and> in_range s2 (nhbor s2 ! j) \<and> label_V s2 ! nat (nhbor s2 ! j)) \<and>
          unlabelled_U s2 u \<and> admissible_U s2 u \<and> u < n \<and>
          (\<exists>s'. augment (nhbor s2 ! u) (int u) s2 = Some (Inr s'))
      | Inr (adm, s2) \<Rightarrow>
          (\<forall>j<n. nhbor s2 ! j = -1 \<longrightarrow> odd (slack s2 ! j)) \<and>
          (\<forall>j<n. unlabelled_U s2 j \<and> admissible_U s2 j \<longrightarrow>
             nhbor s2 ! j \<noteq> -1 \<and> in_range s2 (nhbor s2 ! j) \<and> label_V s2 ! nat (nhbor s2 ! j)) \<and>
          (\<forall>u\<in>set adm. unlabelled_U s2 u \<and> admissible_U s2 u \<and> in_range s2 (mate_U s2 ! u)) \<and>
          (\<exists>s3. label_admissibles adm s2 = Inr s3))) \<and>
   (\<forall>t v u. length (slack t) = N t \<and> length (nhbor t) = N t \<and> u < N t \<and>
       slack (update_slack v t) ! u \<noteq> slack t ! u \<longrightarrow> nhbor (update_slack v t) ! u = int v) \<and>
   (valid_input n inp \<longrightarrow>
      (\<forall>s. search_state n inp s \<longrightarrow>
         (\<forall>j<n. unlabelled_U s j \<and> slack s ! j < LLONG_MAX \<longrightarrow> nhbor s ! j \<noteq> -1) \<and>
         (case scan_round s of
            Inl (u, s2) \<Rightarrow>
              (\<forall>j<n. unlabelled_U s2 j \<and> slack s2 ! j < LLONG_MAX \<longrightarrow> nhbor s2 ! j \<noteq> -1)
          | Inr (adm, s2) \<Rightarrow>
              (\<forall>j<n. unlabelled_U s2 j \<and> slack s2 ! j < LLONG_MAX \<longrightarrow> nhbor s2 ! j \<noteq> -1))))"
proof (intro conjI)
  show "\<forall>t v u. length (slack t) = N t \<and> length (nhbor t) = N t \<and> u < N t \<and>
       slack (update_slack v t) ! u \<noteq> slack t ! u \<longrightarrow> nhbor (update_slack v t) ! u = int v"
    using update_slack_sets_nhbor by blast
next
  show "valid_input n inp \<longrightarrow>
      (\<forall>s. search_state n inp s \<longrightarrow>
         (\<forall>j<n. unlabelled_U s j \<and> slack s ! j < LLONG_MAX \<longrightarrow> nhbor s ! j \<noteq> -1) \<and>
         (case scan_round s of
            Inl (u, s2) \<Rightarrow>
              (\<forall>j<n. unlabelled_U s2 j \<and> slack s2 ! j < LLONG_MAX \<longrightarrow> nhbor s2 ! j \<noteq> -1)
          | Inr (adm, s2) \<Rightarrow>
              (\<forall>j<n. unlabelled_U s2 j \<and> slack s2 ! j < LLONG_MAX \<longrightarrow> nhbor s2 ! j \<noteq> -1)))"
  proof (intro impI allI conjI)
    fix s assume vi: "valid_input n inp" and st: "search_state n inp s"
    from search_state_inv[OF vi st] have inv: "search_inv (cost_bound n) s" and Ns: "N s = n"
      by auto
    show "nhbor s ! j \<noteq> -1" if "j < n" "unlabelled_U s j \<and> slack s ! j < LLONG_MAX" for j
      using search_inv_nhbor[OF inv, of j] Ns that by (simp add: unlabelled_U_def)
    note sc = scan_round_inv[OF inv]
    show "case scan_round s of
            Inl (u, s2) \<Rightarrow>
              (\<forall>j<n. unlabelled_U s2 j \<and> slack s2 ! j < LLONG_MAX \<longrightarrow> nhbor s2 ! j \<noteq> -1)
          | Inr (adm, s2) \<Rightarrow>
              (\<forall>j<n. unlabelled_U s2 j \<and> slack s2 ! j < LLONG_MAX \<longrightarrow> nhbor s2 ! j \<noteq> -1)"
    proof (cases "scan_round s")
      case (Inl p)
      obtain u s2 where p: "p = (u, s2)" by (cases p)
      from sc have f: "found_inv (cost_bound n) u s2" and sp: "same_problem s s2"
        by (simp_all add: Inl p)
      have N2: "N s2 = n" using sp Ns by (simp add: same_problem_def)
      show ?thesis using found_inv_nhbor[OF f] N2 by (simp add: Inl p unlabelled_U_def)
    next
      case (Inr p)
      obtain adm s2 where p: "p = (adm, s2)" by (cases p)
      from sc have i2: "search_inv (cost_bound n) s2" and sp: "same_problem s s2"
        by (simp_all add: Inr p)
      have N2: "N s2 = n" using sp Ns by (simp add: same_problem_def)
      show ?thesis using search_inv_nhbor[OF i2] N2 by (simp add: Inr p unlabelled_U_def)
    qed
  qed
next
  show "\<forall>s. search_state n inp s \<longrightarrow> 1 \<le> n \<and>
     (\<forall>e. search_round s \<noteq> Inl e) \<and>
     (\<forall>j<n. nhbor s ! j = -1 \<longrightarrow> odd (slack s ! j)) \<and>
     (case scan_round s of
        Inl (u, s2) \<Rightarrow>
          (\<forall>j<n. nhbor s2 ! j = -1 \<longrightarrow> odd (slack s2 ! j)) \<and>
          (\<forall>j<n. unlabelled_U s2 j \<and> admissible_U s2 j \<longrightarrow>
             nhbor s2 ! j \<noteq> -1 \<and> in_range s2 (nhbor s2 ! j) \<and> label_V s2 ! nat (nhbor s2 ! j)) \<and>
          unlabelled_U s2 u \<and> admissible_U s2 u \<and> u < n \<and>
          (\<exists>s'. augment (nhbor s2 ! u) (int u) s2 = Some (Inr s'))
      | Inr (adm, s2) \<Rightarrow>
          (\<forall>j<n. nhbor s2 ! j = -1 \<longrightarrow> odd (slack s2 ! j)) \<and>
          (\<forall>j<n. unlabelled_U s2 j \<and> admissible_U s2 j \<longrightarrow>
             nhbor s2 ! j \<noteq> -1 \<and> in_range s2 (nhbor s2 ! j) \<and> label_V s2 ! nat (nhbor s2 ! j)) \<and>
          (\<forall>u\<in>set adm. unlabelled_U s2 u \<and> admissible_U s2 u \<and> in_range s2 (mate_U s2 ! u)) \<and>
          (\<exists>s3. label_admissibles adm s2 = Inr s3))"
  proof (intro allI impI conjI)
    fix s assume st: "search_state n inp s"
    from search_state_struct[OF st] have inv: "struct_inv s" and Ns: "N s = n" by auto
    show "1 \<le> n" using search_state_pos[OF st] by simp
    show "search_round s \<noteq> Inl e" for e using search_round_struct[OF inv] by auto
    show "odd (slack s ! j)" if "j < n" "nhbor s ! j = -1" for j
      using struct_parity[OF inv, of j] Ns that by simp
    note sc = scan_round_struct[OF inv]
    have par: "\<forall>j<n. nhbor s2 ! j = -1 \<longrightarrow> odd (slack s2 ! j)"
      if i2: "struct_inv s2" and N2: "N s2 = n" for s2
      using struct_parity[OF i2] N2 by blast
    have adm_ok: "\<forall>j<n. unlabelled_U s2 j \<and> admissible_U s2 j \<longrightarrow>
         nhbor s2 ! j \<noteq> -1 \<and> in_range s2 (nhbor s2 ! j) \<and> label_V s2 ! nat (nhbor s2 ! j)"
      if i2: "struct_inv s2" and N2: "N s2 = n" for s2
    proof (intro allI impI)
      fix j assume j: "j < n" "unlabelled_U s2 j \<and> admissible_U s2 j"
      hence "j < N s2" "even (slack s2 ! j)" using N2 by (simp_all add: admissible_U_def)
      from nh_ok_even[OF struct_invD(8)[OF i2] this]
      show "nhbor s2 ! j \<noteq> -1 \<and> in_range s2 (nhbor s2 ! j) \<and> label_V s2 ! nat (nhbor s2 ! j)"
        by (auto simp: in_range_def)
    qed
    show "case scan_round s of
        Inl (u, s2) \<Rightarrow>
          (\<forall>j<n. nhbor s2 ! j = -1 \<longrightarrow> odd (slack s2 ! j)) \<and>
          (\<forall>j<n. unlabelled_U s2 j \<and> admissible_U s2 j \<longrightarrow>
             nhbor s2 ! j \<noteq> -1 \<and> in_range s2 (nhbor s2 ! j) \<and> label_V s2 ! nat (nhbor s2 ! j)) \<and>
          unlabelled_U s2 u \<and> admissible_U s2 u \<and> u < n \<and>
          (\<exists>s'. augment (nhbor s2 ! u) (int u) s2 = Some (Inr s'))
      | Inr (adm, s2) \<Rightarrow>
          (\<forall>j<n. nhbor s2 ! j = -1 \<longrightarrow> odd (slack s2 ! j)) \<and>
          (\<forall>j<n. unlabelled_U s2 j \<and> admissible_U s2 j \<longrightarrow>
             nhbor s2 ! j \<noteq> -1 \<and> in_range s2 (nhbor s2 ! j) \<and> label_V s2 ! nat (nhbor s2 ! j)) \<and>
          (\<forall>u\<in>set adm. unlabelled_U s2 u \<and> admissible_U s2 u \<and> in_range s2 (mate_U s2 ! u)) \<and>
          (\<exists>s3. label_admissibles adm s2 = Inr s3)"
    proof (cases "scan_round s")
      case (Inl p)
      obtain u s2 where p: "p = (u, s2)" by (cases p)
      from sc have f: "found_sk u s2" and sp: "same_problem s s2" by (simp_all add: Inl p)
      have N2: "N s2 = n" using sp Ns by (simp add: same_problem_def)
      from f have i2: "struct_inv s2" and u: "u < N s2" "\<not> label_U s2 ! u" "slack s2 ! u = 0"
        by (simp_all add: found_sk_def)
      from found_sk_augment[OF f] have "\<exists>s'. augment (nhbor s2 ! u) (int u) s2 = Some (Inr s')"
        by blast
      thus ?thesis using adm_ok[OF i2 N2] par[OF i2 N2] u N2
        by (simp add: Inl p unlabelled_U_def admissible_U_def)
    next
      case (Inr p)
      obtain adm s2 where p: "p = (adm, s2)" by (cases p)
      from sc have i2: "struct_inv s2" and sp: "same_problem s s2" and da: "distinct adm"
        and aa: "\<forall>u\<in>set adm. ready s2 u \<and> slack s2 ! u = 0" by (simp_all add: Inr p)
      have N2: "N s2 = n" using sp Ns by (simp add: same_problem_def)
      have mu: "\<forall>u\<in>set adm. unlabelled_U s2 u \<and> admissible_U s2 u \<and> in_range s2 (mate_U s2 ! u)"
      proof
        fix u assume "u \<in> set adm"
        with aa have u: "u < N s2" "\<not> label_U s2 ! u" "slack s2 ! u = 0" "mate_U s2 ! u \<noteq> -1"
          by (auto simp: ready_def)
        from matchingU(1,2)[OF struct_invD(6)[OF i2] u(1,4)] u(2,3)
        show "unlabelled_U s2 u \<and> admissible_U s2 u \<and> in_range s2 (mate_U s2 ! u)"
          by (auto simp: unlabelled_U_def admissible_U_def in_range_def)
      qed
      have "\<forall>u\<in>set adm. ready s2 u" using aa by blast
      from label_admissibles_struct[OF i2 da this] have "\<exists>s3. label_admissibles adm s2 = Inr s3"
        by blast
      thus ?thesis using adm_ok[OF i2 N2] par[OF i2 N2] mu by (simp add: Inr p)
    qed
  qed
qed

theorem C10_nhbor_valid_witness:
  "valid_input 2 [[1, 2], [3, 1]] \<and>
   search_state 2 [[1, 2], [3, 1]] (label_roots (initialize_search (start_state 2 [[1, 2], [3, 1]]))) \<and>
   search_round (label_roots (initialize_search (start_state 2 [[1, 2], [3, 1]]))) \<noteq> Inl IndexOutOfRange \<and>
   unlabelled_U (label_roots (initialize_search (start_state 2 [[1, 2], [3, 1]]))) 0 \<and>
   slack (label_roots (initialize_search (start_state 2 [[1, 2], [3, 1]]))) ! 0 < LLONG_MAX \<and>
   nhbor (label_roots (initialize_search (start_state 2 [[1, 2], [3, 1]]))) ! 0 \<noteq> - 1"
proof -
  have h: "valid_input 2 [[1, 2], [3, 1]]" by (rule valid_example)
  have st: "search_state 2 [[1, 2], [3, 1]]
      (label_roots (initialize_search (start_state 2 [[1, 2], [3, 1]])))"
    by (rule search_state_first) simp
  have u: "unlabelled_U (label_roots (initialize_search (start_state 2 [[1, 2], [3, 1]]))) 0"
    by code_simp
  have sl: "slack (label_roots (initialize_search (start_state 2 [[1, 2], [3, 1]]))) ! 0 < LLONG_MAX"
    by code_simp
  note T = C10_nhbor_valid[of 2 "[[1, 2], [3, 1]]"]
  from T st
  have a: "search_round (label_roots (initialize_search (start_state 2 [[1, 2], [3, 1]]))) \<noteq> Inl IndexOutOfRange"
    by blast
  from T h st
  have "\<forall>j<2. unlabelled_U (label_roots (initialize_search (start_state 2 [[1, 2], [3, 1]]))) j \<and>
      slack (label_roots (initialize_search (start_state 2 [[1, 2], [3, 1]]))) ! j < LLONG_MAX \<longrightarrow>
      nhbor (label_roots (initialize_search (start_state 2 [[1, 2], [3, 1]]))) ! j \<noteq> -1"
    by blast
  hence b: "nhbor (label_roots (initialize_search (start_state 2 [[1, 2], [3, 1]]))) ! 0 \<noteq> - 1"
    using u sl by simp
  show ?thesis using h st a u sl b by blast
qed

text \<open>
  C10, as stated, fails in its reason where the arithmetic overflows: in the second phase of
  the run on \<open>overflow_input\<close> the search comes to a round in which column 0 is unlabelled and
  its slack is 1, below \<open>LLONG_MAX\<close>, lowered by the decrement of the scan alone, while
  \<open>nhbor[0]\<close> is still \<open>-1\<close>: no call of \<open>update_slack\<close> has set it.
\<close>

theorem C10_overflow_counterexample:
  "search_state 2 overflow_input overflow_stuck \<and> unlabelled_U overflow_stuck 0 \<and>
   slack overflow_stuck ! 0 = 1 \<and> slack overflow_stuck ! 0 < LLONG_MAX \<and>
   nhbor overflow_stuck ! 0 = - 1"
  using overflow_stuck_state overflow_stuck_slack(1,3) overflow_stuck_nhbor(1,2) by blast

end
